(* ===== verification/Prelude.thy ===== *)
theory Prelude
  imports Main "HOL-Library.Word" "HOL-Library.Monad_Syntax"
begin

unbundle bit_operations_syntax

section \<open>Shared vocabulary: bytes, buffers, little-endian integers\<close>

text \<open>
  The C code works on byte buffers through a pointer, a length and a position.
  A buffer is a list of bytes (the allocated object), an address inside it is an \<open>int\<close>
  offset, and a possibly null pointer is an option.  Every operation that touches memory
  returns an option whose \<open>None\<close> means that the C program has undefined behaviour at
  this point (an access outside the object, a shift by at least the width).  A return code
  is the \<open>int\<close> of the source (\<^verbatim>\<open>ma_global.h\<close>).

  The second half holds the interfaces that the serialisation code relies on: a writer
  appends a fixed encoding at a position or refuses without touching the buffer, a reader
  recovers the value; their composition is proved once, in the locale \<open>codec\<close>.
\<close>

type_synonym byte = "8 word"
type_synonym mem = "byte list"
type_synonym cbuf = "mem option"

named_theorems mem_simps
named_theorems le_simps

subsection \<open>Return codes\<close>

abbreviation (input) OB_SUCCESS :: int where "OB_SUCCESS \<equiv> 0"
abbreviation (input) OB_ERROR :: int where "OB_ERROR \<equiv> - 4000"
abbreviation (input) OB_SIZE_OVERFLOW :: int where "OB_SIZE_OVERFLOW \<equiv> - 4019"
abbreviation (input) OB_DESERIALIZE_ERROR :: int where "OB_DESERIALIZE_ERROR \<equiv> - 4034"

text \<open>Conversion of an integer to a signed type of 32 bits (\<^verbatim>\<open>int pos = *ppos\<close>).\<close>

definition to_int32 :: "int \<Rightarrow> int" where
  "to_int32 x = sint (word_of_int x :: 32 word)"

subsection \<open>Buffers\<close>

definition load_bytes :: "mem \<Rightarrow> int \<Rightarrow> nat \<Rightarrow> mem option" where
  "load_bytes m a n =
     (if 0 \<le> a \<and> nat a + n \<le> length m then Some (take n (drop (nat a) m)) else None)"

definition put :: "mem \<Rightarrow> int \<Rightarrow> mem \<Rightarrow> mem" where
  "put m a bs = take (nat a) m @ bs @ drop (nat a + length bs) m"

definition store_bytes :: "mem \<Rightarrow> int \<Rightarrow> mem \<Rightarrow> mem option" where
  "store_bytes m a bs =
     (if 0 \<le> a \<and> nat a + length bs \<le> length m then Some (put m a bs) else None)"

definition load_byte :: "mem \<Rightarrow> int \<Rightarrow> byte option" where
  "load_byte m a = (if 0 \<le> a \<and> nat a < length m then Some (m ! nat a) else None)"

definition store_byte :: "mem \<Rightarrow> int \<Rightarrow> byte \<Rightarrow> mem option" where
  "store_byte m a b = (if 0 \<le> a \<and> nat a < length m then Some (m[nat a := b]) else None)"

definition holds_at :: "mem \<Rightarrow> int \<Rightarrow> mem \<Rightarrow> bool" where
  "holds_at m a bs \<longleftrightarrow> load_bytes m a (length bs) = Some bs"

lemma length_put [simp]:
  "0 \<le> a \<Longrightarrow> nat a + length bs \<le> length m \<Longrightarrow> length (put m a bs) = length m"
  by (simp add: put_def)

lemma put_Nil [simp]: "nat a \<le> length m \<Longrightarrow> put m a [] = m"
  by (simp add: put_def)

lemma put_put_adjacent:
  assumes "0 \<le> a" and "nat a + length xs + length ys \<le> length m"
  shows "put (put m a xs) (a + int (length xs)) ys = put m a (xs @ ys)"
proof -
  from assms(1) obtain n where n: "a = int n" by (metis nonneg_int_cases)
  have "nat (int n + int (length xs)) = n + length xs" by simp
  then show ?thesis using assms(2) by (simp add: put_def n ac_simps)
qed

lemma holds_at_put: "0 \<le> a \<Longrightarrow> nat a + length bs \<le> length m \<Longrightarrow> holds_at (put m a bs) a bs"
  by (simp add: holds_at_def load_bytes_def put_def)

lemma load_bytes_int:
  "load_bytes m (int k) n = (if k + n \<le> length m then Some (take n (drop k m)) else None)"
  by (simp add: load_bytes_def)

lemma put_int: "put m (int k) bs = take k m @ bs @ drop (k + length bs) m"
  by (simp add: put_def)

lemma load_bytes_put_before:
  assumes "0 \<le> a" and "nat a + length bs \<le> length m" and "b + int n \<le> a"
  shows "load_bytes (put m a bs) b n = load_bytes m b n"
proof (cases "0 \<le> b")
  case True
  with assms(1) obtain i j where ij: "a = int i" "b = int j" by (metis nonneg_int_cases)
  with assms have le: "j + n \<le> i" "i + length bs \<le> length m" by simp_all
  then have "take n (drop j (put m (int i) bs)) = take n (drop j m)"
    by (simp add: put_int take_drop)
  with le show ?thesis
    by (simp add: ij load_bytes_int)
next
  case False
  then show ?thesis by (simp add: load_bytes_def)
qed

lemma load_bytes_put_after:
  assumes "0 \<le> a" and "nat a + length bs \<le> length m" and "a + int (length bs) \<le> b"
  shows "load_bytes (put m a bs) b n = load_bytes m b n"
proof -
  from assms(1) obtain i where i: "a = int i" by (metis nonneg_int_cases)
  with assms(3) obtain k where b: "b = int (i + length bs + k)"
    by (metis add.assoc of_nat_add zle_iff_zadd)
  show ?thesis
    using assms(2) unfolding i b load_bytes_int put_int by (simp add: ac_simps)
qed

lemma load_bytes_0: "load_bytes m a 0 = Some bs \<Longrightarrow> bs = []"
  by (simp add: load_bytes_def split: if_splits)

lemma load_bytes_SucD:
  assumes "load_bytes m a (Suc n) = Some bs"
  obtains b bs' where "bs = b # bs'" and "load_byte m a = Some b" and "load_bytes m (a + 1) n = Some bs'"
proof -
  from assms have a: "0 \<le> a" "nat a + Suc n \<le> length m" and bs: "bs = take (Suc n) (drop (nat a) m)"
    by (simp_all add: load_bytes_def split: if_splits)
  have "nat (a + 1) = Suc (nat a)" using a(1) by simp
  then have "load_bytes m (a + 1) n = Some (take n (drop (Suc (nat a)) m))"
    using a by (simp add: load_bytes_def)
  moreover have "load_byte m a = Some (m ! nat a)" using a by (simp add: load_byte_def)
  moreover have "bs = m ! nat a # take n (drop (Suc (nat a)) m)"
    using a bs by (simp add: Cons_nth_drop_Suc [symmetric])
  ultimately show thesis by (intro that)
qed

lemma load_bytes_update:
  assumes "0 \<le> a" and "nat a + n \<le> length m" and "i < n"
  obtains xs ys where "take n (drop (nat a) m) = xs @ m ! (nat a + i) # ys"
    and "load_bytes m a n = Some (xs @ m ! (nat a + i) # ys)"
    and "load_bytes (m[nat a + i := b]) a n = Some (xs @ b # ys)"
proof -
  let ?bs = "take n (drop (nat a) m)"
  have i: "i < length ?bs" and nth: "?bs ! i = m ! (nat a + i)" using assms by simp_all
  have upd: "take n (drop (nat a) (m[nat a + i := b])) = ?bs[i := b]"
    using assms by (simp add: drop_update_swap take_update_swap)
  from id_take_nth_drop [OF i] have "?bs = take i ?bs @ m ! (nat a + i) # drop (Suc i) ?bs"
    by (simp only: nth)
  moreover have "?bs[i := b] = take i ?bs @ b # drop (Suc i) ?bs"
    by (rule upd_conv_take_nth_drop [OF i])
  ultimately show thesis
    using assms that [of "take i ?bs" "drop (Suc i) ?bs"] by (simp add: load_bytes_def upd)
qed

lemma holds_at_int: "holds_at m (int k) bs \<longleftrightarrow> k + length bs \<le> length m \<and> take (length bs) (drop k m) = bs"
  by (auto simp: holds_at_def load_bytes_int)

lemma holds_at_nonneg: "holds_at m a bs \<Longrightarrow> 0 \<le> a"
  by (simp add: holds_at_def load_bytes_def split: if_splits)

lemma holds_at_append:
  "holds_at m a (xs @ ys) \<longleftrightarrow> holds_at m a xs \<and> holds_at m (a + int (length xs)) ys"
proof (cases "0 \<le> a")
  case True
  then obtain n where n: "a = int n" by (metis nonneg_int_cases)
  have "take (length xs + length ys) (drop n m) = xs @ ys \<longleftrightarrow>
        take (length xs) (drop n m) = xs \<and> take (length ys) (drop (length xs) (drop n m)) = ys"
    if "n + length xs + length ys \<le> length m"
    using that by (auto simp: take_add)
  then show ?thesis
    unfolding n of_nat_add[symmetric] holds_at_int by (auto simp: add.commute)
next
  case False
  then show ?thesis by (auto dest: holds_at_nonneg)
qed

subsection \<open>Little-endian integers\<close>

fun le_word :: "mem \<Rightarrow> 'a::len word" where
  "le_word [] = 0"
| "le_word (b # bs) = ucast b + push_bit 8 (le_word bs)"

definition le_bytes :: "nat \<Rightarrow> 'a::len word \<Rightarrow> mem" where
  "le_bytes n w = map (\<lambda>i. ucast (drop_bit (8 * i) w)) [0..<n]"

lemma length_le_bytes [simp]: "length (le_bytes n w) = n"
  by (simp add: le_bytes_def)

lemma bit_byte_less: "bit (b :: byte) n \<Longrightarrow> n < 8"
  by (drule bit_imp_le_length) simp

lemma bit_le_word:
  "bit (le_word bs :: 'a::len word) i \<longleftrightarrow>
     i < LENGTH('a) \<and> i div 8 < length bs \<and> bit (bs ! (i div 8)) (i mod 8)"
proof (induction bs arbitrary: i)
  case Nil
  show ?case by simp
next
  case (Cons b bs)
  have "le_word (b # bs) = (ucast b OR push_bit 8 (le_word bs) :: 'a word)"
    by (auto simp: bit_simps intro!: disjunctive_add dest!: bit_byte_less [of b])
  then have "bit (le_word (b # bs) :: 'a word) i \<longleftrightarrow>
      i < LENGTH('a) \<and> (bit b i \<or> 8 \<le> i \<and> bit (le_word bs :: 'a word) (i - 8))"
    by (auto simp: bit_simps dest: bit_imp_le_length)
  moreover have "bit b i \<Longrightarrow> i < 8" by (rule bit_byte_less)
  ultimately show ?case
    by (cases "i < 8") (auto simp: Cons.IH le_div_geq le_mod_geq dest: bit_imp_le_length)
qed

lemma le_word_le_bytes:
  "le_word (le_bytes n (w :: 'a::len word)) = (ucast (take_bit (8 * n) w) :: 'b::len word)"
proof (rule bit_word_eqI)
  fix i assume "i < LENGTH('b)"
  have "i < 8 * n \<longleftrightarrow> i div 8 < n" by linarith
  moreover have "8 * (i div 8) + i mod 8 = i" by simp
  ultimately show "bit (le_word (le_bytes n w) :: 'b word) i \<longleftrightarrow> bit (ucast (take_bit (8 * n) w) :: 'b word) i"
    by (auto simp: bit_le_word le_bytes_def bit_simps dest: bit_imp_le_length)
qed

lemma le_word_le_bytes_full:
  "LENGTH('b) \<le> 8 * n \<Longrightarrow> le_word (le_bytes n (w :: 'a::len word)) = (ucast w :: 'b::len word)"
  by (rule bit_word_eqI) (auto simp: le_word_le_bytes bit_simps)

lemma le_bytes_le_word:
  assumes "8 * length bs \<le> LENGTH('a)"
  shows "le_bytes (length bs) (le_word bs :: 'a::len word) = bs"
proof (rule nth_equalityI)
  fix i assume "i < length (le_bytes (length bs) (le_word bs :: 'a word))"
  then have i: "i < length bs" by simp
  show "le_bytes (length bs) (le_word bs :: 'a word) ! i = bs ! i"
  proof (rule bit_word_eqI)
    fix j assume "j < LENGTH(8)"
    then have "8 * i + j < LENGTH('a)" "j < 8" using i assms by simp_all
    then show "bit (le_bytes (length bs) (le_word bs :: 'a word) ! i) j \<longleftrightarrow> bit (bs ! i) j"
      using i by (simp add: le_bytes_def bit_simps bit_le_word)
  qed
qed simp

lemma le_word_inj:
  assumes "length xs = length ys" and "8 * length xs \<le> LENGTH('a)"
    and "(le_word xs :: 'a::len word) = le_word ys"
  shows "xs = ys"
  using assms le_bytes_le_word [where ?'a = 'a] by metis

subsection \<open>Interfaces of the serialisation code\<close>

text \<open>
  A writer stores the encoding of a value at a position.  It refuses, with its error code
  and without touching buffer or position, when the encoding does not fit in the announced
  length or the buffer is null.  Lengths stay below 2 to the 31, because part of the code
  keeps positions in a 32-bit \<open>int\<close>; the values a writer is meant for satisfy \<open>ok\<close>.
\<close>

locale byte_writer =
  fixes wr :: "cbuf \<Rightarrow> int \<Rightarrow> int \<Rightarrow> 'v \<Rightarrow> (int \<times> cbuf \<times> int) option"
    and enc :: "'v \<Rightarrow> mem"
    and ok :: "'v \<Rightarrow> bool"
    and err :: int
  assumes write_fits:
      "\<lbrakk>ok v; 0 \<le> pos; pos + int (length (enc v)) \<le> len; len \<le> int (length m); len < 2 ^ 31\<rbrakk>
       \<Longrightarrow> wr (Some m) len pos v = Some (OB_SUCCESS, Some (put m pos (enc v)), pos + int (length (enc v)))"
    and write_full:
      "\<lbrakk>ok v; 0 \<le> pos; pos \<le> len; len < pos + int (length (enc v)); len \<le> int (length m); len < 2 ^ 31\<rbrakk>
       \<Longrightarrow> wr (Some m) len pos v = Some (err, Some m, pos)"
    and write_null: "ok v \<Longrightarrow> wr None len pos v = Some (err, None, pos)"
    and err_nonzero: "err \<noteq> OB_SUCCESS"
begin

lemma write_cases:
  assumes "ok v" and "0 \<le> pos" and "pos \<le> len" and "len \<le> int (length m)" and "len < 2 ^ 31"
  shows "wr (Some m) len pos v =
    (if pos + int (length (enc v)) \<le> len
     then Some (OB_SUCCESS, Some (put m pos (enc v)), pos + int (length (enc v)))
     else Some (err, Some m, pos))"
  using assms write_fits [of v pos len m] write_full [of v pos len m] by auto

lemma write_total:
  assumes "ok v" and "0 \<le> pos" and "pos \<le> len" and "len \<le> int (length m)" and "len < 2 ^ 31"
  shows "\<exists>r m' p. wr (Some m) len pos v = Some (r, Some m', p) \<and> length m' = length m
    \<and> pos \<le> p \<and> p \<le> len"
proof (cases "pos + int (length (enc v)) \<le> len")
  case True
  with assms show ?thesis by (auto simp: write_cases)
next
  case False
  with assms show ?thesis by (auto simp: write_cases)
qed

lemma write_success_iff:
  assumes "ok v" and "0 \<le> pos" and "pos \<le> len" and "len \<le> int (length m)" and "len < 2 ^ 31"
    and "wr (Some m) len pos v = Some (r, m', p)"
  shows "r = OB_SUCCESS \<longleftrightarrow> pos + int (length (enc v)) \<le> len"
  using assms err_nonzero by (auto simp: write_cases split: if_splits)

lemma write_frame:
  assumes "ok v" and "0 \<le> pos" and "pos \<le> len" and "len \<le> int (length m)" and "len < 2 ^ 31"
    and w: "wr (Some m) len pos v = Some (r, Some m', p)"
    and out: "b + int n \<le> pos \<or> p \<le> b"
  shows "load_bytes m' b n = load_bytes m b n"
proof (cases "pos + int (length (enc v)) \<le> len")
  case True
  with assms have "m' = put m pos (enc v)" "p = pos + int (length (enc v))"
    by (simp_all add: write_cases)
  with True assms show ?thesis
    using load_bytes_put_before [of pos "enc v" m b n] load_bytes_put_after [of pos "enc v" m b n]
    by auto
next
  case False
  with assms show ?thesis by (simp add: write_cases)
qed

end

text \<open>A reader recovers a value whose encoding stands at the position, and moves past it.\<close>

locale byte_reader =
  fixes rd :: "cbuf \<Rightarrow> int \<Rightarrow> int \<Rightarrow> 'v \<Rightarrow> (int \<times> 'v \<times> int) option"
    and enc :: "'v \<Rightarrow> mem"
    and ok :: "'v \<Rightarrow> bool"
  assumes read_enc:
      "\<lbrakk>ok v; holds_at m pos (enc v); pos + int (length (enc v)) \<le> len; len \<le> int (length m); len < 2 ^ 31\<rbrakk>
       \<Longrightarrow> rd (Some m) len pos old = Some (OB_SUCCESS, v, pos + int (length (enc v)))"

locale codec = byte_writer wr enc ok err + byte_reader rd enc ok
  for wr :: "cbuf \<Rightarrow> int \<Rightarrow> int \<Rightarrow> 'v \<Rightarrow> (int \<times> cbuf \<times> int) option"
    and rd :: "cbuf \<Rightarrow> int \<Rightarrow> int \<Rightarrow> 'v \<Rightarrow> (int \<times> 'v \<times> int) option"
    and enc :: "'v \<Rightarrow> mem" and ok :: "'v \<Rightarrow> bool" and err :: int
begin

text \<open>What was written is read back, also through a later buffer that agrees on these bytes.\<close>

lemma roundtrip_frame:
  assumes "ok v" and "0 \<le> pos" and "pos \<le> len" and "len \<le> int (length m)" and "len < 2 ^ 31"
    and w: "wr (Some m) len pos v = Some (OB_SUCCESS, Some m', p)"
    and agree: "load_bytes m'' pos (nat (p - pos)) = load_bytes m' pos (nat (p - pos))"
    and len'': "len'' \<le> int (length m'')" "p \<le> len''" "len'' < 2 ^ 31"
  shows "rd (Some m'') len'' pos old = Some (OB_SUCCESS, v, p)"
proof -
  have fits: "pos + int (length (enc v)) \<le> len"
    using assms err_nonzero by (simp add: write_cases split: if_splits)
  with assms have m': "m' = put m pos (enc v)" "p = pos + int (length (enc v))"
    by (simp_all add: write_cases)
  then have "holds_at m' pos (enc v)"
    using fits assms holds_at_put by simp
  with m' agree have "holds_at m'' pos (enc v)"
    by (simp add: holds_at_def)
  from read_enc [OF \<open>ok v\<close> this] len'' m' show ?thesis by simp
qed

lemma roundtrip:
  assumes "ok v" and "0 \<le> pos" and "pos \<le> len" and "len \<le> int (length m)" and "len < 2 ^ 31"
    and w: "wr (Some m) len pos v = Some (OB_SUCCESS, Some m', p)"
  shows "rd (Some m') len pos old = Some (OB_SUCCESS, v, p)"
proof -
  obtain m'' p'' where "length m' = length m" "p \<le> len"
    using write_total [OF assms(1-5)] w by auto
  then show ?thesis
    using roundtrip_frame [OF assms(1-5) w, of m' len old] assms(4,5) by simp
qed

end

end
