(* ===== verification/ObBitmap.thy ===== *)
theory ObBitmap
  imports Prelude
begin

unbundle bit_operations_syntax

section \<open>Bitmaps (libmariadb/ob_bitmap.c, include/ob_bitmap.h)\<close>

text \<open>
  A bitmap is a byte array with a number of bits.  \<^verbatim>\<open>n_bits\<close> is a C \<^verbatim>\<open>uint\<close>, so the size
  computation wraps at 2 to the 32.  \<^verbatim>\<open>malloc\<close> is a parameter of the
  constructor: the fresh block for a size, or the null pointer.  The representation invariant and the set a bitmap stands for give the
  contract, stated as the locale \<open>bit_set\<close> and discharged for the C functions.
\<close>

record OB_BITMAP =
  bitmap :: cbuf
  n_bits :: "32 word"

definition n_bytes_in_map :: "OB_BITMAP \<Rightarrow> 32 word" where
  "n_bytes_in_map bm = (n_bits bm + 7) div 8"

definition ob_bitmap_fill :: "OB_BITMAP \<Rightarrow> byte \<Rightarrow> OB_BITMAP option" where
  "ob_bitmap_fill bm b = do {
     m \<leftarrow> bitmap bm;
     m \<leftarrow> store_bytes m 0 (replicate (unat (n_bytes_in_map bm)) b);
     Some (bm\<lparr>bitmap := Some m\<rparr>) }"

definition ob_bitmap_clear_all :: "OB_BITMAP \<Rightarrow> OB_BITMAP option" where
  "ob_bitmap_clear_all bm = ob_bitmap_fill bm 0"

definition ob_bitmap_set_all :: "OB_BITMAP \<Rightarrow> OB_BITMAP option" where
  "ob_bitmap_set_all bm = ob_bitmap_fill bm 255"

definition ob_bitmap_init :: "(nat \<Rightarrow> mem option) \<Rightarrow> OB_BITMAP \<Rightarrow> 32 word \<Rightarrow> (bool \<times> OB_BITMAP) option" where
  "ob_bitmap_init malloc bm n =
     (let bm = bm\<lparr>n_bits := n\<rparr> in case malloc (unat (n_bytes_in_map bm)) of
        None \<Rightarrow> Some (True, bm\<lparr>bitmap := None\<rparr>)
      | Some fresh \<Rightarrow> do {
          bm \<leftarrow> ob_bitmap_clear_all (bm\<lparr>bitmap := Some fresh\<rparr>);
          Some (False, bm) })"

definition ob_bitmap_set_bit :: "OB_BITMAP \<Rightarrow> 32 word \<Rightarrow> OB_BITMAP option" where
  "ob_bitmap_set_bit bm b =
     (if b < n_bits bm then do {
        m \<leftarrow> bitmap bm;
        x \<leftarrow> load_byte m (uint (b div 8));
        m \<leftarrow> store_byte m (uint (b div 8)) (x OR push_bit (unat (b AND 7)) 1);
        Some (bm\<lparr>bitmap := Some m\<rparr>) }
      else Some bm)"

definition ob_bitmap_clear_bit :: "OB_BITMAP \<Rightarrow> 32 word \<Rightarrow> OB_BITMAP option" where
  "ob_bitmap_clear_bit bm b =
     (if b < n_bits bm then do {
        m \<leftarrow> bitmap bm;
        x \<leftarrow> load_byte m (uint (b div 8));
        m \<leftarrow> store_byte m (uint (b div 8)) (x AND NOT (push_bit (unat (b AND 7)) 1));
        Some (bm\<lparr>bitmap := Some m\<rparr>) }
      else Some bm)"

definition ob_bitmap_is_set :: "OB_BITMAP \<Rightarrow> 32 word \<Rightarrow> byte option" where
  "ob_bitmap_is_set bm b =
     (if b < n_bits bm then do {
        m \<leftarrow> bitmap bm;
        x \<leftarrow> load_byte m (uint (b div 8));
        Some (x AND push_bit (unat (b AND 7)) 1) }
      else Some 0)"

definition ob_bitmap_free :: "OB_BITMAP \<Rightarrow> OB_BITMAP" where
  "ob_bitmap_free bm = bm\<lparr>bitmap := None, n_bits := 0\<rparr>"

subsection \<open>The set a bitmap stands for\<close>

text \<open>
  The invariant: the array holds the bytes the size computation asks for, and that
  computation did not wrap (no bitmap within 7 of 2 to the 32 bits).
\<close>

definition bitmap_wf :: "OB_BITMAP \<Rightarrow> bool" where
  "bitmap_wf bm \<longleftrightarrow> (\<exists>m. bitmap bm = Some m \<and> length m = unat (n_bytes_in_map bm))
     \<and> unat (n_bits bm) + 7 < 2 ^ 32"

definition bitmap_set :: "OB_BITMAP \<Rightarrow> 32 word set" where
  "bitmap_set bm = {b. b < n_bits bm \<and> bit (the (bitmap bm) ! (unat b div 8)) (unat b mod 8)}"

text \<open>A sequence of insertions (\<open>True\<close>) and deletions (\<open>False\<close>), on a representation and on sets.\<close>

fun run_ops :: "('m \<Rightarrow> 'i \<Rightarrow> 'm option) \<Rightarrow> ('m \<Rightarrow> 'i \<Rightarrow> 'm option) \<Rightarrow> 'm \<Rightarrow> (bool \<times> 'i) list \<Rightarrow> 'm option" where
  "run_ops ins del m [] = Some m"
| "run_ops ins del m ((True, i) # ops) = do { m \<leftarrow> ins m i; run_ops ins del m ops }"
| "run_ops ins del m ((False, i) # ops) = do { m \<leftarrow> del m i; run_ops ins del m ops }"

fun run_set :: "'i set \<Rightarrow> 'i set \<Rightarrow> (bool \<times> 'i) list \<Rightarrow> 'i set" where
  "run_set U S [] = S"
| "run_set U S ((True, i) # ops) = run_set U (S \<union> ({i} \<inter> U)) ops"
| "run_set U S ((False, i) # ops) = run_set U (S - {i}) ops"

locale bit_set =
  fixes set_of :: "'m \<Rightarrow> 'i set"
    and universe :: "'m \<Rightarrow> 'i set"
    and inv :: "'m \<Rightarrow> bool"
    and ins :: "'m \<Rightarrow> 'i \<Rightarrow> 'm option"
    and del :: "'m \<Rightarrow> 'i \<Rightarrow> 'm option"
    and clear :: "'m \<Rightarrow> 'm option"
    and fill :: "'m \<Rightarrow> 'm option"
  assumes within: "inv m \<Longrightarrow> set_of m \<subseteq> universe m"
    and ins: "inv m \<Longrightarrow> \<exists>m'. ins m i = Some m' \<and> inv m' \<and> universe m' = universe m
        \<and> set_of m' = set_of m \<union> ({i} \<inter> universe m)"
    and del: "inv m \<Longrightarrow> \<exists>m'. del m i = Some m' \<and> inv m' \<and> universe m' = universe m
        \<and> set_of m' = set_of m - {i}"
    and clear: "inv m \<Longrightarrow> \<exists>m'. clear m = Some m' \<and> inv m' \<and> universe m' = universe m \<and> set_of m' = {}"
    and fill: "inv m \<Longrightarrow> \<exists>m'. fill m = Some m' \<and> inv m' \<and> universe m' = universe m \<and> set_of m' = universe m"
begin

lemma run_refines:
  "inv m \<Longrightarrow> \<exists>m'. run_ops ins del m ops = Some m' \<and> inv m' \<and> universe m' = universe m
     \<and> set_of m' = run_set (universe m) (set_of m) ops"
proof (induction ops arbitrary: m)
  case Nil
  then show ?case by simp
next
  case (Cons op ops)
  obtain b i where op: "op = (b, i)" by (cases op)
  show ?case
  proof (cases b)
    case True
    from ins [OF Cons.prems, of i] obtain m1 where m1: "ins m i = Some m1" "inv m1"
      "universe m1 = universe m" "set_of m1 = set_of m \<union> ({i} \<inter> universe m)" by auto
    from Cons.IH [OF m1(2)] m1 op True show ?thesis by simp
  next
    case False
    from del [OF Cons.prems, of i] obtain m1 where m1: "del m i = Some m1" "inv m1"
      "universe m1 = universe m" "set_of m1 = set_of m - {i}" by auto
    from Cons.IH [OF m1(2)] m1 op False show ?thesis by simp
  qed
qed

end

lemma unat_div_8: "unat (b div 8 :: 32 word) = unat b div 8"
  by (simp add: unat_div)

lemma unat_and_7: "unat (b AND 7 :: 32 word) = unat b mod 8"
proof -
  have "b AND 7 = b mod 8"
    using take_bit_eq_mask [of 3 b] by (simp add: take_bit_eq_mod mask_eq_exp_minus_1)
  then show ?thesis by (simp add: unat_mod)
qed

lemma unat_n_bytes:
  assumes "unat (n_bits bm) + 7 < 2 ^ 32"
  shows "unat (n_bytes_in_map bm) = (unat (n_bits bm) + 7) div 8"
proof -
  have "unat (n_bits bm) + unat (7 :: 32 word) < 2 ^ LENGTH(32)" using assms by simp
  then have "unat (n_bits bm + 7) = unat (n_bits bm) + unat (7 :: 32 word)" by (rule unat_add_lem [THEN iffD1])
  then show ?thesis by (simp add: n_bytes_in_map_def unat_div_8)
qed

lemma bitmap_wf_length:
  "bitmap_wf bm \<longleftrightarrow> (\<exists>m. bitmap bm = Some m \<and> length m = (unat (n_bits bm) + 7) div 8)
     \<and> unat (n_bits bm) + 7 < 2 ^ 32"
  unfolding bitmap_wf_def using unat_n_bytes by metis

lemma bit_set_byte:
  "k < 8 \<Longrightarrow> bit ((x::byte) OR push_bit k 1) j \<longleftrightarrow> bit x j \<or> j = k"
  by (auto simp: bit_or_iff bit_exp_iff)

lemma bit_clear_byte:
  "k < 8 \<Longrightarrow> bit ((x::byte) AND NOT (push_bit k 1)) j \<longleftrightarrow> bit x j \<and> j \<noteq> k"
  by (auto simp: bit_and_iff bit_not_iff bit_exp_iff dest: bit_imp_le_length)

lemma bit_test_byte:
  assumes "k < 8"
  shows "(x::byte) AND push_bit k 1 \<noteq> 0 \<longleftrightarrow> bit x k"
proof -
  have "x AND push_bit k 1 \<noteq> 0 \<longleftrightarrow> (\<exists>n. bit (x AND push_bit k 1) n)"
    by (metis bit_0_eq bit_word_eqI bot_apply bot_bool_def)
  also have "\<dots> \<longleftrightarrow> bit x k"
    using assms by (auto simp: bit_and_iff bit_exp_iff)
  finally show ?thesis .
qed

text \<open>Two bit numbers that share byte and position are equal.\<close>

lemma bit_address_eq:
  "unat (a::32 word) div 8 = unat b div 8 \<Longrightarrow> unat a mod 8 = unat b mod 8 \<Longrightarrow> a = b"
  by (metis div_mult_mod_eq word_unat_eq_iff)

lemma bitmap_set_member: "b \<in> bitmap_set bm \<longleftrightarrow>
  b < n_bits bm \<and> bit (the (bitmap bm) ! (unat b div 8)) (unat b mod 8)"
  by (simp add: bitmap_set_def)

lemma div_8_round_up: "a < n \<Longrightarrow> a div 8 < (n + 7) div (8::nat)"
  using div_le_mono [of "a + 8" "n + 7" 8] by simp

lemma bitmap_index:
  assumes "bitmap_wf bm" and "b < n_bits bm"
  obtains m where "bitmap bm = Some m" and "unat b div 8 < length m"
proof -
  from assms(1) obtain m where m: "bitmap bm = Some m" "length m = (unat (n_bits bm) + 7) div 8"
    by (auto simp: bitmap_wf_length)
  have "unat b < unat (n_bits bm)" using assms(2) by (simp add: word_less_nat_alt)
  from div_8_round_up [OF this] m have "unat b div 8 < length m" by (simp only:)
  with m(1) show thesis by (rule that)
qed

text \<open>Replacing the byte of one bit changes the set at that bit only.\<close>

lemma bitmap_update:
  assumes "bitmap_wf bm" and "bitmap bm = Some m" and "b < n_bits bm"
    and "\<And>j. j < 8 \<Longrightarrow> bit x j \<longleftrightarrow> (if j = unat b mod 8 then v else bit (m ! (unat b div 8)) j)"
  shows "bitmap_wf (bm\<lparr>bitmap := Some (m[unat b div 8 := x])\<rparr>)"
    and "bitmap_set (bm\<lparr>bitmap := Some (m[unat b div 8 := x])\<rparr>) =
         (if v then insert b (bitmap_set bm) else bitmap_set bm - {b})"
proof -
  show "bitmap_wf (bm\<lparr>bitmap := Some (m[unat b div 8 := x])\<rparr>)"
    using assms(1,2) by (simp add: bitmap_wf_length)
  have lt: "unat b div 8 < length m" 
    by (rule bitmap_index [OF assms(1,3)]) (use assms(2) in simp)
  have "c \<in> bitmap_set (bm\<lparr>bitmap := Some (m[unat b div 8 := x])\<rparr>) \<longleftrightarrow>
        c \<in> (if v then insert b (bitmap_set bm) else bitmap_set bm - {b})" for c
  proof (cases "unat c div 8 = unat b div 8")
    case True
    then have "c = b \<longleftrightarrow> unat c mod 8 = unat b mod 8" by (auto intro: bit_address_eq)
    then show ?thesis
      using True lt assms(2,3) assms(4) [of "unat c mod 8"]
      by (cases "unat c mod 8 = unat b mod 8"; cases v) (simp_all add: bitmap_set_member)
  next
    case False
    then have "c \<noteq> b" by auto
    with False show ?thesis using assms(2) by (simp add: bitmap_set_member)
  qed
  then show "bitmap_set (bm\<lparr>bitmap := Some (m[unat b div 8 := x])\<rparr>) =
         (if v then insert b (bitmap_set bm) else bitmap_set bm - {b})" by blast
qed

lemma ob_bitmap_set_bit_eq:
  assumes "bitmap_wf bm" and "b < n_bits bm"
  shows "\<exists>bm'. ob_bitmap_set_bit bm b = Some bm' \<and> bitmap_wf bm' \<and> n_bits bm' = n_bits bm
           \<and> bitmap_set bm' = insert b (bitmap_set bm)"
proof -
  from bitmap_index [OF assms] obtain m where m: "bitmap bm = Some m" "unat b div 8 < length m" .
  define x where "x = m ! (unat b div 8) OR push_bit (unat b mod 8) 1"
  have "ob_bitmap_set_bit bm b = Some (bm\<lparr>bitmap := Some (m[unat b div 8 := x])\<rparr>)"
    using assms(2) m
    by (simp add: ob_bitmap_set_bit_def load_byte_def store_byte_def unat_div_8 unat_and_7 x_def)
  moreover have "bit x j \<longleftrightarrow> (if j = unat b mod 8 then True else bit (m ! (unat b div 8)) j)" for j
    unfolding x_def by (subst bit_set_byte) auto
  ultimately show ?thesis
    using bitmap_update [OF assms(1) m(1) assms(2), of x True] by simp
qed

lemma ob_bitmap_clear_bit_eq:
  assumes "bitmap_wf bm" and "b < n_bits bm"
  shows "\<exists>bm'. ob_bitmap_clear_bit bm b = Some bm' \<and> bitmap_wf bm' \<and> n_bits bm' = n_bits bm
           \<and> bitmap_set bm' = bitmap_set bm - {b}"
proof -
  from bitmap_index [OF assms] obtain m where m: "bitmap bm = Some m" "unat b div 8 < length m" .
  define x where "x = m ! (unat b div 8) AND NOT (push_bit (unat b mod 8) 1)"
  have "ob_bitmap_clear_bit bm b = Some (bm\<lparr>bitmap := Some (m[unat b div 8 := x])\<rparr>)"
    using assms(2) m
    by (simp add: ob_bitmap_clear_bit_def load_byte_def store_byte_def unat_div_8 unat_and_7 x_def)
  moreover have "bit x j \<longleftrightarrow> (if j = unat b mod 8 then False else bit (m ! (unat b div 8)) j)" for j
    unfolding x_def by (subst bit_clear_byte) auto
  ultimately show ?thesis
    using bitmap_update [OF assms(1) m(1) assms(2), of x False] by simp
qed

lemma ob_bitmap_fill_eq:
  assumes "bitmap_wf bm"
  shows "\<exists>bm'. ob_bitmap_fill bm x = Some bm' \<and> bitmap_wf bm' \<and> n_bits bm' = n_bits bm
           \<and> bitmap_set bm' = {b. b < n_bits bm \<and> bit x (unat b mod 8)}"
proof -
  from assms obtain m where m: "bitmap bm = Some m" "length m = unat (n_bytes_in_map bm)"
    by (auto simp: bitmap_wf_def)
  let ?bm = "bm\<lparr>bitmap := Some (replicate (length m) x)\<rparr>"
  have "ob_bitmap_fill bm x = Some ?bm"
    using m by (simp add: ob_bitmap_fill_def store_bytes_def put_def)
  moreover have wf: "bitmap_wf ?bm" using assms m by (simp add: bitmap_wf_length)
  moreover have "b \<in> bitmap_set ?bm \<longleftrightarrow> b < n_bits bm \<and> bit x (unat b mod 8)" for b
  proof (cases "b < n_bits bm")
    case True
    then have "b < n_bits ?bm" by simp
    then have "unat b div 8 < length m" by (rule bitmap_index [OF wf]) simp
    with True show ?thesis by (simp add: bitmap_set_member)
  qed (simp add: bitmap_set_member)
  ultimately show ?thesis by auto
qed

lemma all_bits_255: "{b :: 32 word. b < n \<and> bit (255::byte) (unat b mod 8)} = {b. b < n}"
proof -
  have "(255::byte) = mask 8" by (simp add: mask_eq_exp_minus_1)
  then have "bit (255::byte) (unat b mod 8)" for b :: "32 word" by (simp only: bit_mask_iff) simp
  then show ?thesis by (simp only: simp_thms)
qed

interpretation bm_set: bit_set bitmap_set "\<lambda>bm. {b. b < n_bits bm}" bitmap_wf
  ob_bitmap_set_bit ob_bitmap_clear_bit ob_bitmap_clear_all ob_bitmap_set_all
proof unfold_locales
  fix bm b
  assume wf: "bitmap_wf bm"
  show "bitmap_set bm \<subseteq> {b. b < n_bits bm}" by (auto simp: bitmap_set_member)
  show "\<exists>bm'. ob_bitmap_set_bit bm b = Some bm' \<and> bitmap_wf bm' \<and>
      {b. b < n_bits bm'} = {b. b < n_bits bm} \<and>
      bitmap_set bm' = bitmap_set bm \<union> ({b} \<inter> {b. b < n_bits bm})"
    using ob_bitmap_set_bit_eq [OF wf, of b] wf
    by (cases "b < n_bits bm") (auto simp: ob_bitmap_set_bit_def)
  show "\<exists>bm'. ob_bitmap_clear_bit bm b = Some bm' \<and> bitmap_wf bm' \<and>
      {b. b < n_bits bm'} = {b. b < n_bits bm} \<and> bitmap_set bm' = bitmap_set bm - {b}"
    using ob_bitmap_clear_bit_eq [OF wf, of b] wf
    by (cases "b < n_bits bm") (auto simp: ob_bitmap_clear_bit_def bitmap_set_member)
  show "\<exists>bm'. ob_bitmap_clear_all bm = Some bm' \<and> bitmap_wf bm' \<and>
      {b. b < n_bits bm'} = {b. b < n_bits bm} \<and> bitmap_set bm' = {}"
    using ob_bitmap_fill_eq [OF wf, of 0] by (auto simp: ob_bitmap_clear_all_def)
  show "\<exists>bm'. ob_bitmap_set_all bm = Some bm' \<and> bitmap_wf bm' \<and>
      {b. b < n_bits bm'} = {b. b < n_bits bm} \<and> bitmap_set bm' = {b. b < n_bits bm}"
    using ob_bitmap_fill_eq [OF wf, of 255] unfolding all_bits_255 ob_bitmap_set_all_def by metis
qed

lemma ob_bitmap_is_set_eq:
  assumes "bitmap_wf bm"
  shows "\<exists>r. ob_bitmap_is_set bm b = Some r \<and> (r \<noteq> 0 \<longleftrightarrow> b \<in> bitmap_set bm)"
proof (cases "b < n_bits bm")
  case True
  from bitmap_index [OF assms True] obtain m where m: "bitmap bm = Some m" "unat b div 8 < length m" .
  then show ?thesis
    using True bit_test_byte [of "unat b mod 8" "m ! (unat b div 8)"]
    by (simp add: ob_bitmap_is_set_def load_byte_def unat_div_8 unat_and_7 bitmap_set_member)
next
  case False
  then show ?thesis by (simp add: ob_bitmap_is_set_def bitmap_set_member)
qed

lemma ob_bitmap_init_eq:
  assumes "malloc ((unat n + 7) div 8) = Some m" and "length m = (unat n + 7) div 8"
    and "unat n + 7 < 2 ^ 32"
  shows "\<exists>bm'. ob_bitmap_init malloc bm n = Some (False, bm') \<and> bitmap_wf bm' \<and> n_bits bm' = n
           \<and> bitmap_set bm' = {}"
proof -
  have sz: "unat (n_bytes_in_map (bm\<lparr>n_bits := n\<rparr>)) = (unat n + 7) div 8"
    using unat_n_bytes [of "bm\<lparr>n_bits := n\<rparr>"] assms(3) by simp
  let ?bm = "bm\<lparr>n_bits := n, bitmap := Some m\<rparr>"
  have "bitmap_wf ?bm"
    using assms by (simp add: bitmap_wf_length)
  from ob_bitmap_fill_eq [OF this, of 0] show ?thesis
    using assms(1) sz by (auto simp: ob_bitmap_init_def ob_bitmap_clear_all_def)
qed

subsection \<open>Properties\<close>

lemma Collect_less_inj: "{b. b < x} = {b. b < y} \<Longrightarrow> x = (y :: 'a::linorder)"
proof (rule ccontr)
  assume eq: "{b. b < x} = {b. b < y}" and "x \<noteq> y"
  then consider "x < y" | "y < x" by fastforce
  then show False using eq by cases auto
qed

text \<open>C7: A bitmap implements a finite set.  From a fresh bitmap of \<open>n\<close> bits, any sequence of \<^verbatim>\<open>ob_bitmap_set_bit\<close>
  and \<^verbatim>\<open>ob_bitmap_clear_bit\<close> calls, with any indices, runs without an access outside the array, and
  \<^verbatim>\<open>ob_bitmap_is_set\<close> then answers nonzero exactly for the members of the set that the same sequence of
  insertions and deletions leaves, indices past the end being ignored.\<close>

theorem bitmap_refines_set:
  assumes "malloc ((unat n + 7) div 8) = Some fresh" and "length fresh = (unat n + 7) div 8"
    and "unat n + 7 < 2 ^ 32"
  shows "\<exists>bm bm'. ob_bitmap_init malloc bm0 n = Some (False, bm)
     \<and> run_ops ob_bitmap_set_bit ob_bitmap_clear_bit bm ops = Some bm' \<and> n_bits bm' = n
     \<and> (\<forall>b. \<exists>r. ob_bitmap_is_set bm' b = Some r \<and> (r \<noteq> 0 \<longleftrightarrow> b \<in> run_set {b. b < n} {} ops))"
proof -
  from ob_bitmap_init_eq [of malloc n fresh bm0, OF assms] obtain bm where bm: "ob_bitmap_init malloc bm0 n = Some (False, bm)"
    "bitmap_wf bm" "n_bits bm = n" "bitmap_set bm = {}" by blast
  from bm_set.run_refines [OF bm(2), of ops] bm(3,4) obtain bm' where
    "run_ops ob_bitmap_set_bit ob_bitmap_clear_bit bm ops = Some bm'" "bitmap_wf bm'"
    "bitmap_set bm' = run_set {b. b < n} {} ops" "{b. b < n_bits bm'} = {b. b < n}" by auto
  moreover from this(4) have "n_bits bm' = n" by (rule Collect_less_inj)
  ultimately show ?thesis using bm(1) ob_bitmap_is_set_eq by metis
qed

theorem bitmap_refines_set_witness:
  "\<exists>bm bm'. ob_bitmap_init (\<lambda>k. Some (replicate k 255)) \<lparr>bitmap = None, n_bits = 0\<rparr> 10 = Some (False, bm)
     \<and> run_ops ob_bitmap_set_bit ob_bitmap_clear_bit bm [(True, 3), (True, 9), (True, 12), (False, 3)] = Some bm'
     \<and> n_bits bm' = 10
     \<and> (\<forall>b. \<exists>r. ob_bitmap_is_set bm' b = Some r \<and> (r \<noteq> 0 \<longleftrightarrow> b \<in> {9 :: 32 word}))"
proof -
  have "run_set {b. b < (10 :: 32 word)} {} [(True, 3), (True, 9), (True, 12), (False, 3)] = {9}" by auto
  moreover have "Some (replicate ((unat (10 :: 32 word) + 7) div 8) 255) = Some [255, 255 :: byte]"
    by code_simp
  ultimately show ?thesis
    using bitmap_refines_set [of "\<lambda>k. Some (replicate k 255)" 10 "[255, 255]" "\<lparr>bitmap = None, n_bits = 0\<rparr>"
        "[(True, 3), (True, 9), (True, 12), (False, 3)]"] by (simp only:) simp
qed

text \<open>Size computation at the limit: for the seven largest sizes \<open>n_bits + 7\<close> wraps around, \<^verbatim>\<open>ob_bitmap_init\<close> asks
  for no memory at all and reports success, and \<^verbatim>\<open>ob_bitmap_set_bit\<close> of any valid index then writes outside the
  block it got.\<close>

theorem bitmap_size_wraps:
  assumes "2 ^ 32 \<le> unat n + 7" and "malloc 0 = Some []" and "b < n"
  shows "\<exists>bm. ob_bitmap_init malloc bm0 n = Some (False, bm) \<and> ob_bitmap_set_bit bm b = None"
proof -
  have "unat n < 2 ^ 32" using unsigned_less [of n] by simp
  have "unat (n + 7) = (unat n + 7) mod 2 ^ 32" by (simp add: unat_word_ariths)
  also have "\<dots> = unat n + 7 - 2 ^ 32" using assms(1) \<open>unat n < 2 ^ 32\<close> by (simp add: le_mod_geq)
  finally have "unat ((n + 7) div 8) = 0" using \<open>unat n < 2 ^ 32\<close> by (simp add: unat_div)
  then have "ob_bitmap_init malloc bm0 n = Some (False, bm0\<lparr>n_bits := n, bitmap := Some []\<rparr>)"
    using assms(2) by (simp add: ob_bitmap_init_def n_bytes_in_map_def ob_bitmap_clear_all_def ob_bitmap_fill_def
        store_bytes_def put_def)
  then show ?thesis using assms(3) by (simp add: ob_bitmap_set_bit_def load_byte_def)
qed

theorem bitmap_size_wraps_witness:
  "\<exists>bm. ob_bitmap_init (\<lambda>k. Some (replicate k 0)) \<lparr>bitmap = None, n_bits = 0\<rparr> 4294967295 = Some (False, bm)
     \<and> ob_bitmap_set_bit bm 5 = None"
  using bitmap_size_wraps [of 4294967295 "\<lambda>k. Some (replicate k 0)" 5 "\<lparr>bitmap = None, n_bits = 0\<rparr>"]
  by simp

end
