(* ===== verification/MaGlobal.thy ===== *)
theory MaGlobal
  imports Prelude
begin

unbundle bit_operations_syntax

section \<open>Machine-independent integer access (include/ma_global.h)\<close>

text \<open>
  The macros that store and fetch little-endian integers byte by byte, in the variant the
  header selects for every architecture but IA-32.  The stored value is given as a 64-bit
  word (the widest operand any caller passes); a fetch has the width of its cast.  The lemmas
  tie each macro to the encoding \<^const>\<open>le_bytes\<close> and \<^const>\<open>le_word\<close> of the prelude.
\<close>

definition int1store :: "mem \<Rightarrow> int \<Rightarrow> 64 word \<Rightarrow> mem option" where
  "int1store m a v = store_bytes m a [ucast v]"

definition int2store :: "mem \<Rightarrow> int \<Rightarrow> 64 word \<Rightarrow> mem option" where
  "int2store m a v = store_bytes m a [ucast v, ucast (drop_bit 8 v)]"

definition int3store :: "mem \<Rightarrow> int \<Rightarrow> 64 word \<Rightarrow> mem option" where
  "int3store m a v = store_bytes m a [ucast v, ucast (drop_bit 8 v), ucast (drop_bit 16 v)]"

definition int4store :: "mem \<Rightarrow> int \<Rightarrow> 64 word \<Rightarrow> mem option" where
  "int4store m a v = store_bytes m a
     [ucast v, ucast (drop_bit 8 v), ucast (drop_bit 16 v), ucast (drop_bit 24 v)]"

definition int5store :: "mem \<Rightarrow> int \<Rightarrow> 64 word \<Rightarrow> mem option" where
  "int5store m a v = store_bytes m a
     [ucast v, ucast (drop_bit 8 v), ucast (drop_bit 16 v), ucast (drop_bit 24 v),
      ucast (drop_bit 32 v)]"

definition int6store :: "mem \<Rightarrow> int \<Rightarrow> 64 word \<Rightarrow> mem option" where
  "int6store m a v = store_bytes m a
     [ucast v, ucast (drop_bit 8 v), ucast (drop_bit 16 v), ucast (drop_bit 24 v),
      ucast (drop_bit 32 v), ucast (drop_bit 40 v)]"

definition int8store :: "mem \<Rightarrow> int \<Rightarrow> 64 word \<Rightarrow> mem option" where
  "int8store m a v =
     (let def_temp = (ucast (ucast v :: 32 word) :: 64 word);
          def_temp2 = (ucast (ucast (drop_bit 32 v) :: 32 word) :: 64 word)
      in do { m \<leftarrow> int4store m a def_temp; int4store m (a + 4) def_temp2 })"

definition uint1korr :: "mem \<Rightarrow> int \<Rightarrow> 8 word option" where
  "uint1korr m a = load_byte m a"

definition sint1korr :: "mem \<Rightarrow> int \<Rightarrow> 8 word option" where
  "sint1korr m a = load_byte m a"

definition sint2korr :: "mem \<Rightarrow> int \<Rightarrow> 16 word option" where
  "sint2korr m a = do { b0 \<leftarrow> load_byte m a; b1 \<leftarrow> load_byte m (a + 1);
     Some (ucast b0 + push_bit 8 (scast b1)) }"

definition sint3korr :: "mem \<Rightarrow> int \<Rightarrow> 32 word option" where
  "sint3korr m a = do { b0 \<leftarrow> load_byte m a; b1 \<leftarrow> load_byte m (a + 1); b2 \<leftarrow> load_byte m (a + 2);
     Some (if b2 AND 128 \<noteq> 0
       then push_bit 24 255 OR push_bit 16 (ucast b2) OR push_bit 8 (ucast b1) OR ucast b0
       else push_bit 16 (ucast b2) OR push_bit 8 (ucast b1) OR ucast b0) }"

definition sint4korr :: "mem \<Rightarrow> int \<Rightarrow> 32 word option" where
  "sint4korr m a = do { b0 \<leftarrow> load_byte m a; b1 \<leftarrow> load_byte m (a + 1); b2 \<leftarrow> load_byte m (a + 2);
     b3 \<leftarrow> load_byte m (a + 3);
     Some (ucast b0 + push_bit 8 (ucast b1) + push_bit 16 (ucast b2) + push_bit 24 (scast b3)) }"

definition uint2korr :: "mem \<Rightarrow> int \<Rightarrow> 16 word option" where
  "uint2korr m a = do { b0 \<leftarrow> load_byte m a; b1 \<leftarrow> load_byte m (a + 1);
     Some (ucast b0 + push_bit 8 (ucast b1)) }"

definition uint3korr :: "mem \<Rightarrow> int \<Rightarrow> 32 word option" where
  "uint3korr m a = do { b0 \<leftarrow> load_byte m a; b1 \<leftarrow> load_byte m (a + 1); b2 \<leftarrow> load_byte m (a + 2);
     Some (ucast b0 + push_bit 8 (ucast b1) + push_bit 16 (ucast b2)) }"

definition uint4korr :: "mem \<Rightarrow> int \<Rightarrow> 32 word option" where
  "uint4korr m a = do { b0 \<leftarrow> load_byte m a; b1 \<leftarrow> load_byte m (a + 1); b2 \<leftarrow> load_byte m (a + 2);
     b3 \<leftarrow> load_byte m (a + 3);
     Some (ucast b0 + push_bit 8 (ucast b1) + push_bit 16 (ucast b2) + push_bit 24 (ucast b3)) }"

definition uint8korr :: "mem \<Rightarrow> int \<Rightarrow> 64 word option" where
  "uint8korr m a = do { lo \<leftarrow> uint4korr m a; hi \<leftarrow> uint4korr m (a + 4);
     Some (ucast lo + push_bit 32 (ucast hi)) }"

definition sint8korr :: "mem \<Rightarrow> int \<Rightarrow> 64 word option" where
  "sint8korr m a = uint8korr m a"

lemma load_byte_load_bytes: "load_byte m a = map_option hd (load_bytes m a 1)"
  by (auto simp: load_byte_def load_bytes_def hd_drop_conv_nth take_Suc hd_take)

lemma load_bytes_Suc:
  "load_bytes m a (Suc n) = do { b \<leftarrow> load_byte m a; bs \<leftarrow> load_bytes m (a + 1) n; Some (b # bs) }"
proof (cases "0 \<le> a")
  case True
  then obtain k where a: "a = int k" by (metis nonneg_int_cases)
  have "a + 1 = int (Suc k)" by (simp add: a)
  then show ?thesis
    unfolding load_byte_def a by (auto simp: load_bytes_def Cons_nth_drop_Suc [symmetric] nat_add_distrib)
next
  case False
  then show ?thesis by (simp add: load_byte_def load_bytes_def)
qed

lemma load_bytes_1: "load_bytes m a (Suc 0) = map_option (\<lambda>b. [b]) (load_byte m a)"
  by (auto simp: load_byte_def load_bytes_def take_Suc hd_drop_conv_nth)

lemmas load_bytes_unfold =
  load_bytes_Suc [where n = "Suc n" for n] load_bytes_1 eval_nat_numeral add.assoc

lemmas le_bytes_unfold = le_bytes_def upt_rec eval_nat_numeral

lemma korr_simps [le_simps]:
  "uint1korr m a = map_option le_word (load_bytes m a 1)"
  "sint1korr m a = map_option le_word (load_bytes m a 1)"
  "uint2korr m a = map_option le_word (load_bytes m a 2)"
  "uint3korr m a = map_option le_word (load_bytes m a 3)"
  "uint4korr m a = map_option le_word (load_bytes m a 4)"
  by (simp_all add: uint1korr_def sint1korr_def uint2korr_def uint3korr_def uint4korr_def load_bytes_unfold
      push_bit_add ac_simps Option.map_conv_bind_option option.map_comp comp_def option.map_ident)

lemma scast_byte_push: "push_bit n (scast (b :: byte)) = (push_bit n (ucast b) :: 'a::len word)"
  if "LENGTH('a) = 8 + n"
  using that by (intro bit_word_eqI) (auto simp: bit_simps bit_byte_less)

lemma sint_korr_simps [le_simps]:
  "sint2korr m a = map_option le_word (load_bytes m a 2)"
  "sint4korr m a = map_option le_word (load_bytes m a 4)"
  by (simp_all add: korr_simps [symmetric] sint2korr_def sint4korr_def uint2korr_def uint4korr_def scast_byte_push)

lemma store_simps [le_simps]:
  "int1store m a v = store_bytes m a (le_bytes 1 v)"
  "int2store m a v = store_bytes m a (le_bytes 2 v)"
  "int3store m a v = store_bytes m a (le_bytes 3 v)"
  "int4store m a v = store_bytes m a (le_bytes 4 v)"
  "int5store m a v = store_bytes m a (le_bytes 5 v)"
  "int6store m a v = store_bytes m a (le_bytes 6 v)"
  by (simp_all add: int1store_def int2store_def int3store_def int4store_def int5store_def int6store_def
      le_bytes_unfold)

lemma store_bytes_append:
  "store_bytes m a (xs @ ys) = do { m' \<leftarrow> store_bytes m a xs; store_bytes m' (a + int (length xs)) ys }"
  by (auto simp: store_bytes_def put_put_adjacent nat_add_distrib)

lemma load_bytes_append:
  "load_bytes m a (n + k) = do { xs \<leftarrow> load_bytes m a n; ys \<leftarrow> load_bytes m (a + int n) k; Some (xs @ ys) }"
  by (auto simp: load_bytes_def nat_add_distrib take_add add.commute [of n "nat a"])

lemma le_word_append:
  "le_word (xs @ ys) = (le_word xs + push_bit (8 * length xs) (le_word ys) :: 'a::len word)"
  by (induction xs) (simp_all add: push_bit_add ac_simps)

lemma le_bytes_add:
  "le_bytes (n + k) w = le_bytes n w @ le_bytes k (drop_bit (8 * n) w)"
  by (auto simp: le_bytes_def list_eq_iff_nth_eq nth_append algebra_simps)

lemma le_bytes_ucast:
  "8 * n \<le> LENGTH('b) \<Longrightarrow> LENGTH('b) \<le> LENGTH('a) \<Longrightarrow> le_bytes n (ucast (w :: 'a::len word) :: 'b::len word) = le_bytes n w"
  by (auto simp: le_bytes_def bit_simps intro!: bit_word_eqI)

lemma int8store_le [le_simps]: "int8store m a v = store_bytes m a (le_bytes 8 v)"
proof -
  have "le_bytes 8 v = le_bytes (4 + 4) v" by simp
  also have "\<dots> = le_bytes 4 v @ le_bytes 4 (drop_bit 32 v)" by (subst le_bytes_add) simp
  finally have split: "le_bytes 8 v = le_bytes 4 v @ le_bytes 4 (drop_bit 32 v)" .
  have lo: "le_bytes 4 (ucast (ucast w :: 32 word) :: 64 word) = le_bytes 4 w" for w :: "64 word"
    by (auto simp: le_bytes_def bit_simps intro!: bit_word_eqI)
  show ?thesis
    by (simp add: int8store_def Let_def store_simps lo split store_bytes_append)
qed

lemma uint8korr_le [le_simps]: "uint8korr m a = map_option le_word (load_bytes m a 8)"
proof -
  have "load_bytes m a 8 = load_bytes m a (4 + 4)" by simp
  also have "\<dots> = do { xs \<leftarrow> load_bytes m a 4; ys \<leftarrow> load_bytes m (a + 4) 4; Some (xs @ ys) }"
    by (subst load_bytes_append) simp
  finally have split: "load_bytes m a 8 = \<dots>" .
  have cast: "ucast (le_word bs :: 32 word) = (le_word bs :: 64 word)" if "length bs = 4" for bs
    using that by (intro bit_word_eqI) (auto simp: bit_simps bit_le_word)
  have len: "load_bytes m b n = Some bs \<Longrightarrow> length bs = n" for b n bs
    by (auto simp: load_bytes_def split: if_splits)
  show ?thesis
    by (auto simp: uint8korr_def korr_simps split le_word_append cast len
        split: option.split bind_splits)
qed

lemma sint8korr_le [le_simps]: "sint8korr m a = map_option le_word (load_bytes m a 8)"
  by (simp add: sint8korr_def uint8korr_le)

lemma sint3korr_le [le_simps]:
  "sint3korr m a = map_option (\<lambda>bs. signed_take_bit 23 (le_word bs)) (load_bytes m a 3)"
proof -
  have eq: "(if b2 AND 128 \<noteq> 0
       then push_bit 24 255 OR push_bit 16 (ucast b2) OR push_bit 8 (ucast b1) OR ucast b0
       else push_bit 16 (ucast b2) OR push_bit 8 (ucast b1) OR ucast b0)
      = (signed_take_bit 23 (le_word [b0, b1, b2]) :: 32 word)" for b0 b1 b2 :: byte
  proof (rule bit_word_eqI)
    fix i assume i: "i < LENGTH(32)"
    have sign: "b2 AND 128 \<noteq> 0 \<longleftrightarrow> bit b2 7"
      by (simp add: bit_iff_and_push_bit_not_eq_0)
    have "(4278190080 :: int) = push_bit 24 (mask 8)"
      by (simp add: mask_eq_exp_minus_1 push_bit_eq_mult)
    then have ff: "bit (4278190080 :: int) j \<longleftrightarrow> 24 \<le> j \<and> j < 32" for j
      by (simp only: bit_push_bit_iff bit_mask_iff) auto
    consider "i < 8" | "8 \<le> i" "i < 16" | "16 \<le> i" "i < 23" | "i = 23" | "24 \<le> i" by linarith
    then show "bit (if b2 AND 128 \<noteq> 0
       then push_bit 24 255 OR push_bit 16 (ucast b2) OR push_bit 8 (ucast b1) OR ucast b0
       else push_bit 16 (ucast b2) OR push_bit 8 (ucast b1) OR ucast b0 :: 32 word) i
      \<longleftrightarrow> bit (signed_take_bit 23 (le_word [b0, b1, b2]) :: 32 word) i"
    proof cases
      case 1 with i show ?thesis
        by (auto simp: bit_simps bit_le_word ff min_def simp del: le_word.simps)
    next
      case 2 with i have "i div 8 = 1" "i mod 8 = i - 8" by (simp_all add: div_nat_eqI le_mod_geq)
      with 2 i show ?thesis
        by (auto simp: bit_simps bit_le_word ff min_def simp del: le_word.simps dest: bit_byte_less)
    next
      case 3 with i have "i div 8 = 2" "i mod 8 = i - 16" by (simp_all add: div_nat_eqI le_mod_geq)
      with 3 i show ?thesis
        by (auto simp: bit_simps bit_le_word ff min_def simp del: le_word.simps dest: bit_byte_less)
    next
      case 4 show ?thesis
        unfolding 4 by (auto simp: bit_simps bit_le_word ff simp del: le_word.simps dest: bit_byte_less)
    next
      case 5 with i show ?thesis
        by (auto simp: bit_simps bit_le_word ff sign min_def simp del: le_word.simps dest: bit_byte_less)
    qed
  qed
  show ?thesis
    by (simp add: sint3korr_def eq load_bytes_unfold Option.map_conv_bind_option)
qed

text \<open>A value whose encoding stands in the buffer is fetched back.\<close>

lemma korr_holds_at:
  assumes "holds_at m a (le_bytes n (v :: 'a::len word))"
  shows "map_option le_word (load_bytes m a n) = Some (ucast (take_bit (8 * n) v) :: 'b::len word)"
  using assms by (simp add: holds_at_def le_word_le_bytes)

lemma store_next:
  "n = int (length xs) \<Longrightarrow> length xs + length ys \<le> length m \<Longrightarrow>
   store_bytes (put m 0 xs) n ys = Some (put m 0 (xs @ ys))"
  using put_put_adjacent [of 0 xs ys m] by (simp add: store_bytes_def)

lemma store_first: "length ys \<le> length m \<Longrightarrow> store_bytes m 0 ys = Some (put m 0 ys)"
  by (simp add: store_bytes_def)

lemma le_bytes_byte [simp]: "le_bytes (Suc 0) (b :: byte) = [b]"
  by (simp add: le_bytes_def)

lemma le_bytes_ucast_up:
  "8 * n \<le> LENGTH('a) \<Longrightarrow> LENGTH('a) \<le> LENGTH('b) \<Longrightarrow> le_bytes n (ucast (w :: 'a::len word) :: 'b::len word) = le_bytes n w"
  by (auto simp: le_bytes_def bit_simps intro!: bit_word_eqI)

lemma load_bytes_put_same: "length bs \<le> length m \<Longrightarrow> n \<le> length bs \<Longrightarrow> load_bytes (put m 0 bs) 0 n = Some (take n bs)"
  by (simp add: load_bytes_def put_def)

lemma holds_at_Cons_append:
  "holds_at m a (x # xs @ ys) \<longleftrightarrow> holds_at m a [x] \<and> holds_at m (a + 1) (xs @ ys)"
  using holds_at_append [of m a "[x]" "xs @ ys"] by simp

lemma korr_at:
  "holds_at m a (le_bytes 2 (v :: 16 word)) \<Longrightarrow> uint2korr m a = Some v"
  "holds_at m a (le_bytes 4 (w :: 32 word)) \<Longrightarrow> uint4korr m a = Some w"
  "holds_at m a (le_bytes 3 (w :: 32 word)) \<Longrightarrow> uint3korr m a = Some (take_bit 24 w)"
  "holds_at m a [b] \<Longrightarrow> uint1korr m a = Some b"
  by (simp_all add: le_simps holds_at_def le_word_le_bytes_full)
     (simp_all add: le_word_le_bytes)

lemma le_bytes_word: "length bs = n \<Longrightarrow> 8 * n \<le> LENGTH('a) \<Longrightarrow> le_bytes n (le_word bs :: 'a::len word) = bs"
  using le_bytes_le_word [of bs] by auto

lemma ucast_byte_back [simp]: "ucast (ucast (b :: byte) :: 32 word) = b"
  by (rule bit_word_eqI) (simp add: bit_simps)

lemma le_bytes_eval:
  "le_bytes 2 w = [ucast w, ucast (drop_bit 8 w)]"
  "le_bytes 3 w = [ucast w, ucast (drop_bit 8 w), ucast (drop_bit 16 w)]"
  "le_bytes 4 w = [ucast w, ucast (drop_bit 8 w), ucast (drop_bit 16 w), ucast (drop_bit 24 w)]"
  by (simp_all add: le_bytes_def upt_rec numeral_eq_Suc [of num.One] eval_nat_numeral)

end
