(* ===== verification/ObSerialize.thy ===== *)
theory ObSerialize
  imports MaGlobal
begin

unbundle bit_operations_syntax

section \<open>Variable-length and fixed serialisation (libmariadb/ob_serialize.c)\<close>

text \<open>
  Buffers are pointers with a length and a position; every function returns its code, the
  buffer and the updated position.  A decoder takes the old value of its out-parameter and
  returns it unchanged when it fails.  \<open>None\<close> is undefined behaviour: an access outside
  the buffer or a shift by at least the width of the type.  Signed C integers that are only
  carried are words; lengths and positions are \<open>int\<close>.
\<close>

lemma uint_drop_bit_div: "uint (drop_bit n (v :: 'a::len word)) = uint v div 2 ^ n"
  by (simp only: unsigned_drop_bit_eq) (simp add: drop_bit_eq_div take_bit_int_eq_self)

lemma unat_drop_bit_7_less [termination_simp]: "127 < uint v \<Longrightarrow> unat (drop_bit 7 v) < unat v"
  by (simp add: unat_eq_nat_uint uint_drop_bit_div nat_less_eq_zless del: nat_uint_eq)

definition OB_MAX_VB :: "nat \<Rightarrow> 64 word" where
  "OB_MAX_VB n = push_bit (7 * n) 1 - 1"

definition encoded_length_vi64 :: "64 word \<Rightarrow> int" where
  "encoded_length_vi64 v =
     (if v \<le> OB_MAX_VB 1 then 1 else if v \<le> OB_MAX_VB 2 then 2
      else if v \<le> OB_MAX_VB 3 then 3 else if v \<le> OB_MAX_VB 4 then 4
      else if v \<le> OB_MAX_VB 5 then 5 else if v \<le> OB_MAX_VB 6 then 6
      else if v \<le> OB_MAX_VB 7 then 7 else if v \<le> OB_MAX_VB 8 then 8
      else if v \<le> OB_MAX_VB 9 then 9 else 10)"

text \<open>The store loop shared by the 64-bit and the 32-bit encoder (the C text has it twice).\<close>

function encode_vi_loop :: "mem \<Rightarrow> int \<Rightarrow> 'a::len word \<Rightarrow> (mem \<times> int \<times> 'a word) option" where
  "encode_vi_loop m pos v =
     (if 127 < uint v then do {
        m \<leftarrow> store_byte m pos (ucast (v OR 128));
        encode_vi_loop m (pos + 1) (drop_bit 7 v) }
      else Some (m, pos, v))"
  by pat_completeness auto
termination
  by (relation "measure (\<lambda>(m, pos, v). unat v)") (simp_all add: unat_drop_bit_7_less)

declare encode_vi_loop.simps [simp del]

definition encode_vi64 :: "cbuf \<Rightarrow> int \<Rightarrow> int \<Rightarrow> 64 word \<Rightarrow> (int \<times> cbuf \<times> int) option" where
  "encode_vi64 buf buf_len pos v = (case buf of
     None \<Rightarrow> Some (OB_SIZE_OVERFLOW, buf, pos)
   | Some m \<Rightarrow>
       if buf_len - pos \<ge> encoded_length_vi64 v then do {
         (m, pos, v) \<leftarrow> encode_vi_loop m pos v;
         (m, pos) \<leftarrow> (if uint v \<le> 127
           then do { m \<leftarrow> store_byte m pos (ucast (v AND 127)); Some (m, pos + 1) }
           else Some (m, pos));
         Some (OB_SUCCESS, Some m, pos) }
       else Some (OB_SIZE_OVERFLOW, buf, pos))"

text \<open>
  The fetch loop: the byte is read before the remaining length is tested, as in the source.
\<close>

function decode_vi_loop ::
  "mem \<Rightarrow> int \<Rightarrow> int \<Rightarrow> 'a::len word \<Rightarrow> nat \<Rightarrow> (int \<times> int \<times> 'a word \<times> nat) option" where
  "decode_vi_loop m data_len tmp_pos v shift =
     (case load_byte m tmp_pos of
        None \<Rightarrow> None
      | Some b \<Rightarrow>
          if b AND 128 \<noteq> 0 then
            (if data_len - tmp_pos < 1 then Some (OB_DESERIALIZE_ERROR, tmp_pos, v, shift)
             else if LENGTH('a) \<le> shift then None
             else decode_vi_loop m data_len (tmp_pos + 1)
                    (v OR push_bit shift (ucast b AND 127)) (shift + 7))
          else Some (OB_SUCCESS, tmp_pos, v, shift))"
  by pat_completeness auto
termination
  by (relation "measure (\<lambda>(m, data_len, tmp_pos, v, shift). nat (data_len - tmp_pos))") auto

declare decode_vi_loop.simps [simp del]

definition decode_vi :: "cbuf \<Rightarrow> int \<Rightarrow> int \<Rightarrow> 'a::len word \<Rightarrow> (int \<times> 'a word \<times> int) option" where
  "decode_vi buf data_len pos val = do {
     m \<leftarrow> buf;
     (ret, tmp_pos, v, shift) \<leftarrow> decode_vi_loop m data_len pos 0 0;
     if ret = OB_SUCCESS then
       (if data_len - tmp_pos < 1 then Some (OB_DESERIALIZE_ERROR, val, pos)
        else do {
          b \<leftarrow> load_byte m tmp_pos;
          if LENGTH('a) \<le> shift then None
          else Some (OB_SUCCESS, v OR push_bit shift (ucast b AND 127), tmp_pos + 1) })
     else Some (ret, val, pos) }"

definition decode_vi64 :: "cbuf \<Rightarrow> int \<Rightarrow> int \<Rightarrow> 64 word \<Rightarrow> (int \<times> 64 word \<times> int) option" where
  "decode_vi64 buf data_len pos val = decode_vi buf data_len pos val"

definition encoded_length_vi32 :: "32 word \<Rightarrow> int" where
  "encoded_length_vi32 val =
     (let v = (ucast val :: 64 word) in
      if v \<le> OB_MAX_VB 1 then 1 else if v \<le> OB_MAX_VB 2 then 2
      else if v \<le> OB_MAX_VB 3 then 3 else if v \<le> OB_MAX_VB 4 then 4 else 5)"

definition encode_vi32 :: "cbuf \<Rightarrow> int \<Rightarrow> int \<Rightarrow> 32 word \<Rightarrow> (int \<times> cbuf \<times> int) option" where
  "encode_vi32 buf buf_len pos v = (case buf of
     None \<Rightarrow> Some (OB_SIZE_OVERFLOW, buf, pos)
   | Some m \<Rightarrow>
       if buf_len - pos \<ge> encoded_length_vi32 v then do {
         (m, pos, v) \<leftarrow> encode_vi_loop m pos v;
         (m, pos) \<leftarrow> (if uint v \<le> 127
           then do { m \<leftarrow> store_byte m pos (ucast (v AND 127)); Some (m, pos + 1) }
           else Some (m, pos));
         Some (OB_SUCCESS, Some m, pos) }
       else Some (OB_SIZE_OVERFLOW, buf, pos))"

definition decode_vi32 :: "cbuf \<Rightarrow> int \<Rightarrow> int \<Rightarrow> 32 word \<Rightarrow> (int \<times> 32 word \<times> int) option" where
  "decode_vi32 buf data_len pos val = decode_vi buf data_len pos val"

subsection \<open>The reference encoding\<close>

text \<open>
  Seven bits a byte, least significant group first, the top bit set on all but the last byte.
\<close>

function vi_more :: "'a::len word \<Rightarrow> mem" where
  "vi_more v = (if 127 < uint v then ucast (v OR 128) # vi_more (drop_bit 7 v) else [])"
  by pat_completeness auto
termination
  by (relation "measure unat") (simp_all add: unat_drop_bit_7_less)

function vi_last :: "'a::len word \<Rightarrow> 'a word" where
  "vi_last v = (if 127 < uint v then vi_last (drop_bit 7 v) else v)"
  by pat_completeness auto
termination
  by (relation "measure unat") (simp_all add: unat_drop_bit_7_less)

declare vi_more.simps [simp del] vi_last.simps [simp del]

definition vi_bytes :: "'a::len word \<Rightarrow> mem" where
  "vi_bytes v = vi_more v @ [ucast (vi_last v AND 127)]"

lemma store_byte_put:
  "store_byte m a b = (if 0 \<le> a \<and> nat a < length m then Some (put m a [b]) else None)"
  by (simp add: store_byte_def put_def upd_conv_take_nth_drop)

lemma encode_vi_loop_eq:
  assumes "0 \<le> pos" and "nat pos + length (vi_more v) \<le> length m"
  shows "encode_vi_loop m pos v = Some (put m pos (vi_more v), pos + int (length (vi_more v)), vi_last v)"
  using assms
proof (induction m pos v rule: encode_vi_loop.induct)
  case (1 m pos v)
  show ?case
  proof (cases "127 < uint v")
    case True
    let ?m = "put m pos [ucast (v OR 128)]"
    have more: "vi_more v = [ucast (v OR 128)] @ vi_more (drop_bit 7 v)"
      and last: "vi_last v = vi_last (drop_bit 7 v)"
      using True by (simp_all add: vi_more.simps [of v] vi_last.simps [of v])
    have st: "store_byte m pos (ucast (v OR 128)) = Some ?m"
      using "1.prems" more by (simp add: store_byte_put)
    moreover have "encode_vi_loop ?m (pos + 1) (drop_bit 7 v) =
        Some (put ?m (pos + 1) (vi_more (drop_bit 7 v)), pos + 1 + int (length (vi_more (drop_bit 7 v))), vi_last (drop_bit 7 v))"
      using "1.prems" more by (intro "1.IH" [OF True st]) (simp_all add: nat_add_distrib)
    moreover have "put ?m (pos + 1) (vi_more (drop_bit 7 v)) = put m pos (vi_more v)"
      using put_put_adjacent [of pos "[ucast (v OR 128)]" "vi_more (drop_bit 7 v)" m] "1.prems" more
      by simp
    ultimately show ?thesis
      using True more last st by (simp add: encode_vi_loop.simps [of m pos v])
  next
    case False
    then have "vi_more v = []" "vi_last v = v"
      by (simp_all add: vi_more.simps [of v] vi_last.simps [of v])
    with False "1.prems" show ?thesis
      by (simp add: encode_vi_loop.simps [of m pos v])
  qed
qed

lemma vi_last_small: "uint (vi_last v) \<le> 127"
  by (induction v rule: vi_last.induct) (subst vi_last.simps, simp)

lemma length_vi_more_le: "length (vi_more v) \<le> k \<longleftrightarrow> uint v < 2 ^ (7 * Suc k)"
proof (induction v arbitrary: k rule: vi_more.induct)
  case (1 v)
  show ?case
  proof (cases "127 < uint v")
    case True
    have "length (vi_more v) = Suc (length (vi_more (drop_bit 7 v)))"
      using True by (simp add: vi_more.simps [of v])
    moreover have "uint (drop_bit 7 v) < 2 ^ (7 * Suc j) \<longleftrightarrow> uint v < 2 ^ (7 * Suc (Suc j))" for j
    proof -
      have "uint (drop_bit 7 v) = uint v div 128"
        by (simp add: uint_drop_bit_div)
      then show ?thesis by (simp add: power_add div_less_iff_less_mult) arith
    qed
    ultimately show ?thesis
      using True "1.IH" [OF True] by (cases k) (simp_all)
  next
    case False
    then have "vi_more v = []" by (simp add: vi_more.simps [of v])
    moreover from False have "uint v < 2 ^ 7" by simp
    then have "uint v < 2 ^ (7 * Suc k)"
      by (rule less_le_trans) (simp add: power_add)
    ultimately show ?thesis by simp
  qed
qed

lemma vi_more_length_bound: "7 * length (vi_more (v :: 'a::len word)) < LENGTH('a)"
proof (cases "length (vi_more v)")
  case 0
  then show ?thesis by simp
next
  case (Suc k)
  then have "\<not> uint v < 2 ^ (7 * Suc k)"
    using length_vi_more_le [of v k] by simp
  moreover have "uint v < 2 ^ LENGTH('a)" by simp
  ultimately have "(2 :: int) ^ (7 * Suc k) < 2 ^ LENGTH('a)" by linarith
  then have "7 * Suc k < LENGTH('a)" by (simp only: power_strict_increasing_iff)
  with Suc show ?thesis by simp
qed

lemma OB_MAX_VB_le: "n \<le> 9 \<Longrightarrow> v \<le> OB_MAX_VB n \<longleftrightarrow> uint v < 2 ^ (7 * n)"
proof -
  assume n: "n \<le> 9"
  then have "(2 :: int) ^ (7 * n) < 2 ^ 64" by (intro power_strict_increasing) simp_all
  then have "uint (push_bit (7 * n) (1 :: 64 word)) = 2 ^ (7 * n)"
    by (simp only: unsigned_push_bit_eq unsigned_1) (simp add: push_bit_eq_mult take_bit_eq_mod)
  then have "uint (OB_MAX_VB n) = 2 ^ (7 * n) - 1"
    unfolding OB_MAX_VB_def by (subst uint_sub_if') (auto simp: word_le_def)
  then show ?thesis by (simp add: word_le_def)
qed

lemma encoded_length_vi64_eq: "encoded_length_vi64 v = int (length (vi_bytes v))"
proof -
  define n where "n = length (vi_more v)"
  have le: "v \<le> OB_MAX_VB k \<longleftrightarrow> n < k" if "0 < k" "k \<le> 9" for k
    using that length_vi_more_le [of v "k - 1"] by (simp add: OB_MAX_VB_le n_def) arith
  have "n \<le> 9" using vi_more_length_bound [of v] by (simp add: n_def)
  moreover have "length (vi_bytes v) = Suc n" by (simp add: vi_bytes_def n_def)
  ultimately show ?thesis
    by (simp add: encoded_length_vi64_def le)
qed

lemma encoded_length_vi32_eq: "encoded_length_vi32 v = int (length (vi_bytes v))"
proof -
  define n where "n = length (vi_more v)"
  have u: "uint (ucast v :: 64 word) = uint v" by (rule uint_up_ucast) (simp add: is_up)
  have le: "ucast v \<le> OB_MAX_VB k \<longleftrightarrow> n < k" if "0 < k" "k \<le> 9" for k
    using that length_vi_more_le [of v "k - 1"] by (simp add: OB_MAX_VB_le n_def u) arith
  have "n \<le> 4" using vi_more_length_bound [of v] by (simp add: n_def)
  moreover have "length (vi_bytes v) = Suc n" by (simp add: vi_bytes_def n_def)
  ultimately show ?thesis
    by (simp add: encoded_length_vi32_def Let_def le)
qed

subsection \<open>Encoding and decoding a variable-length integer\<close>

lemma byte_top_bit: "(b :: byte) AND 128 \<noteq> 0 \<longleftrightarrow> bit b 7"
  by (simp add: bit_iff_and_push_bit_not_eq_0)

lemma and_127: "v AND 127 = take_bit 7 (v :: 'a::len word)"
  by (simp add: take_bit_eq_mask mask_eq_exp_minus_1)

lemma bit_128_int: "bit (128 :: int) n \<longleftrightarrow> n = 7"
  using bit_exp_iff [of 7 n, where ?'a = int] by auto

lemma vi_group:
  assumes "8 \<le> LENGTH('a)"
  shows "(ucast (ucast (v OR 128 :: 'a::len word) :: byte) AND 127 :: 'a word) = take_bit 7 v"
  unfolding and_127 by (rule bit_word_eqI) (use assms in \<open>auto simp: bit_simps bit_128_int\<close>)

lemma vi_group_last:
  assumes "8 \<le> LENGTH('a)" and "uint v \<le> 127"
  shows "(ucast (ucast (v AND 127 :: 'a::len word) :: byte) AND 127 :: 'a word) = v"
proof -
  have "take_bit 7 v = v"
    using assms(2) by (simp add: word_uint_eq_iff unsigned_take_bit_eq take_bit_int_eq_self)
  then have "bit v n \<Longrightarrow> n < 8" for n
    using bit_take_bit_iff [of 7 v n] by fastforce
  then have "(ucast (ucast (take_bit 7 v) :: byte) :: 'a word) = take_bit 7 v"
    using assms(1) by (intro bit_word_eqI) (auto simp: bit_simps)
  then show ?thesis
    unfolding and_127 using \<open>take_bit 7 v = v\<close> by simp
qed

lemma holds_at_Cons:
  "holds_at m a (b # bs) \<longleftrightarrow> load_byte m a = Some b \<and> holds_at m (a + 1) bs"
  by (auto simp: holds_at_def load_bytes_Suc split: bind_splits)

lemma decode_vi_loop_bytes:
  fixes v :: "'a::len word"
  assumes len8: "8 \<le> LENGTH('a)"
    and "holds_at m pos (vi_bytes v)"
    and "pos + int (length (vi_bytes v)) \<le> data_len"
    and "shift + 7 * length (vi_more v) < LENGTH('a)"
  shows "\<exists>acc'. decode_vi_loop m data_len pos acc shift =
           Some (OB_SUCCESS, pos + int (length (vi_more v)), acc', shift + 7 * length (vi_more v))
         \<and> acc' OR push_bit (shift + 7 * length (vi_more v)) (vi_last v) = acc OR push_bit shift v"
  using assms(2-)
proof (induction v arbitrary: pos acc shift rule: vi_more.induct)
  case (1 v)
  show ?case
  proof (cases "127 < uint v")
    case True
    let ?w = "drop_bit 7 v" and ?b = "ucast (v OR 128) :: byte"
    let ?acc = "acc OR push_bit shift (ucast ?b AND 127)"
    have more: "vi_more v = ?b # vi_more ?w" and last: "vi_last v = vi_last ?w"
      using True by (simp_all add: vi_more.simps [of v] vi_last.simps [of v])
    then have bytes: "vi_bytes v = ?b # vi_bytes ?w" by (simp add: vi_bytes_def)
    with "1.prems" have b: "load_byte m pos = Some ?b" and h: "holds_at m (pos + 1) (vi_bytes ?w)"
      by (simp_all add: holds_at_Cons)
    have top: "?b AND 128 \<noteq> 0"
      unfolding byte_top_bit using len8 by (simp add: bit_simps) 
    have "shift + 7 + 7 * length (vi_more ?w) < LENGTH('a)"
      using "1.prems" more by simp
    with "1.IH" [OF True h, of "shift + 7" ?acc] "1.prems" bytes obtain acc' where
      acc': "decode_vi_loop m data_len (pos + 1) ?acc (shift + 7) =
          Some (OB_SUCCESS, pos + 1 + int (length (vi_more ?w)), acc', shift + 7 + 7 * length (vi_more ?w))"
      and or: "acc' OR push_bit (shift + 7 + 7 * length (vi_more ?w)) (vi_last ?w) = ?acc OR push_bit (shift + 7) ?w"
      by auto
    have "take_bit 7 v OR push_bit 7 ?w = v"
    proof (rule bit_word_eqI)
      fix n show "bit (take_bit 7 v OR push_bit 7 ?w) n \<longleftrightarrow> bit v n"
        by (cases "n < 7") (auto simp: bit_simps dest: bit_imp_le_length)
    qed
    then have "push_bit shift (take_bit 7 v) OR push_bit (shift + 7) ?w = push_bit shift v"
      by (metis push_bit_or push_bit_push_bit)
    then have "?acc OR push_bit (shift + 7) ?w = acc OR push_bit shift v"
      by (simp add: vi_group [OF len8] or.assoc)
    moreover have "decode_vi_loop m data_len pos acc shift = decode_vi_loop m data_len (pos + 1) ?acc (shift + 7)"
      using b top "1.prems" bytes by (subst decode_vi_loop.simps) (simp add: vi_bytes_def)
    ultimately show ?thesis
      using acc' or more last by (auto simp: algebra_simps)
  next
    case False
    then have v: "vi_more v = []" "vi_last v = v"
      by (simp_all add: vi_more.simps [of v] vi_last.simps [of v])
    with "1.prems" have b: "load_byte m pos = Some (ucast (v AND 127))"
      by (simp add: vi_bytes_def holds_at_Cons)
    have "\<not> bit (ucast (v AND 127) :: byte) 7"
      by (simp add: and_127 bit_simps)
    with b v show ?thesis
      by (subst decode_vi_loop.simps) (simp add: byte_top_bit [symmetric])
  qed
qed

lemma decode_vi_bytes:
  fixes v :: "'a::len word"
  assumes len8: "8 \<le> LENGTH('a)"
    and h: "holds_at m pos (vi_bytes v)"
    and fits: "pos + int (length (vi_bytes v)) \<le> data_len"
  shows "decode_vi (Some m) data_len pos old = Some (OB_SUCCESS, v, pos + int (length (vi_bytes v)))"
proof -
  obtain acc' where acc': "decode_vi_loop m data_len pos 0 0 =
           Some (OB_SUCCESS, pos + int (length (vi_more v)), acc', 7 * length (vi_more v))"
    and or: "acc' OR push_bit (7 * length (vi_more v)) (vi_last v) = v"
    using decode_vi_loop_bytes [OF len8 h fits, of 0 0] vi_more_length_bound [of v] by auto
  have "load_byte m (pos + int (length (vi_more v))) = Some (ucast (vi_last v AND 127))"
    using h by (simp add: vi_bytes_def holds_at_append holds_at_Cons)
  with acc' or fits show ?thesis
    using vi_group_last [OF len8 vi_last_small, of v] vi_more_length_bound [of v]
    by (simp add: decode_vi_def vi_bytes_def)
qed

lemma encode_vi_store:
  fixes v :: "'a::len word"
  assumes "0 \<le> pos" and "pos + int (length (vi_bytes v)) \<le> int (length m)"
  shows "do { (m, pos, v) \<leftarrow> encode_vi_loop m pos v;
         (m, pos) \<leftarrow> (if uint v \<le> 127
           then do { m \<leftarrow> store_byte m pos (ucast (v AND 127)); Some (m, pos + 1) }
           else Some (m, pos));
         Some (OB_SUCCESS, Some m, pos) }
     = Some (OB_SUCCESS, Some (put m pos (vi_bytes v)), pos + int (length (vi_bytes v)))"
proof -
  let ?m = "put m pos (vi_more v)" and ?p = "pos + int (length (vi_more v))"
    and ?b = "ucast (vi_last v AND 127) :: byte"
  have le: "nat pos + length (vi_more v) + 1 \<le> length m"
    using assms by (simp add: vi_bytes_def)
  then have "encode_vi_loop m pos v = Some (?m, ?p, vi_last v)"
    using assms(1) by (simp add: encode_vi_loop_eq)
  moreover have "store_byte ?m ?p ?b = Some (put ?m ?p [?b])"
    using le assms(1) by (simp add: store_byte_put nat_add_distrib)
  moreover have "put ?m ?p [?b] = put m pos (vi_bytes v)"
    unfolding vi_bytes_def using le assms(1) by (intro put_put_adjacent) simp_all
  ultimately show ?thesis
    using vi_last_small [of v] by (simp add: vi_bytes_def)
qed

interpretation vi64: codec encode_vi64 decode_vi64 vi_bytes "\<lambda>_. True" OB_SIZE_OVERFLOW
  by unfold_locales
    (auto simp: encode_vi64_def encoded_length_vi64_eq encode_vi_store decode_vi64_def decode_vi_bytes)

interpretation vi32: codec encode_vi32 decode_vi32 vi_bytes "\<lambda>_. True" OB_SIZE_OVERFLOW
  by unfold_locales
    (auto simp: encode_vi32_def encoded_length_vi32_eq encode_vi_store decode_vi32_def decode_vi_bytes)

subsection \<open>Fixed-width integers\<close>

definition encoded_length_i8 :: "8 word \<Rightarrow> int" where
  "encoded_length_i8 val = 1"

definition encode_i8 :: "cbuf \<Rightarrow> int \<Rightarrow> int \<Rightarrow> 8 word \<Rightarrow> (int \<times> cbuf \<times> int) option" where
  "encode_i8 buf buf_len pos val = (case buf of
     None \<Rightarrow> Some (OB_SIZE_OVERFLOW, buf, pos)
   | Some m \<Rightarrow>
       if buf_len - pos \<ge> 1 then do { m \<leftarrow> store_byte m pos val; Some (OB_SUCCESS, Some m, pos + 1) }
       else Some (OB_SIZE_OVERFLOW, buf, pos))"

text \<open>From here on the position is copied into an \<^verbatim>\<open>int\<close> of 32 bits.\<close>

definition decode_i8 :: "cbuf \<Rightarrow> int \<Rightarrow> int \<Rightarrow> 8 word \<Rightarrow> (int \<times> 8 word \<times> int) option" where
  "decode_i8 buf data_len ppos val =
     (let pos = to_int32 ppos in case buf of
        None \<Rightarrow> Some (OB_DESERIALIZE_ERROR, val, ppos)
      | Some m \<Rightarrow>
          if data_len - pos \<ge> 1 then do { b \<leftarrow> load_byte m pos; Some (OB_SUCCESS, b, pos + 1) }
          else Some (OB_DESERIALIZE_ERROR, val, ppos))"

definition be_bytes64 :: "64 word \<Rightarrow> mem" where
  "be_bytes64 val =
     [ucast (drop_bit 56 val), ucast (drop_bit 48 val), ucast (drop_bit 40 val), ucast (drop_bit 32 val),
      ucast (drop_bit 24 val), ucast (drop_bit 16 val), ucast (drop_bit 8 val), ucast val]"

definition encode_i64 :: "cbuf \<Rightarrow> int \<Rightarrow> int \<Rightarrow> 64 word \<Rightarrow> (int \<times> cbuf \<times> int) option" where
  "encode_i64 buf buf_len ppos val =
     (let pos = to_int32 ppos in case buf of
        None \<Rightarrow> Some (OB_ERROR, buf, ppos)
      | Some m \<Rightarrow>
          if buf_len - pos \<ge> 8 then do {
            m \<leftarrow> store_bytes m pos (be_bytes64 val);
            Some (OB_SUCCESS, Some m, pos + 8) }
          else Some (OB_ERROR, buf, ppos))"

text \<open>The decoder advances a local copy of the position only: \<^verbatim>\<open>*ppos\<close> keeps its value.\<close>

definition decode_i64 :: "cbuf \<Rightarrow> int \<Rightarrow> int \<Rightarrow> 64 word \<Rightarrow> (int \<times> 64 word \<times> int) option" where
  "decode_i64 buf data_len ppos val =
     (let pos = to_int32 ppos in case buf of
        None \<Rightarrow> Some (OB_ERROR, val, ppos)
      | Some m \<Rightarrow>
          if data_len - pos \<ge> 8 then do {
            b0 \<leftarrow> load_byte m pos; b1 \<leftarrow> load_byte m (pos + 1);
            b2 \<leftarrow> load_byte m (pos + 2); b3 \<leftarrow> load_byte m (pos + 3);
            b4 \<leftarrow> load_byte m (pos + 4); b5 \<leftarrow> load_byte m (pos + 5);
            b6 \<leftarrow> load_byte m (pos + 6); b7 \<leftarrow> load_byte m (pos + 7);
            Some (OB_SUCCESS,
              push_bit 56 (ucast b0) OR push_bit 48 (ucast b1) OR push_bit 40 (ucast b2)
              OR push_bit 32 (ucast b3) OR push_bit 24 (ucast b4) OR push_bit 16 (ucast b5)
              OR push_bit 8 (ucast b6) OR ucast b7, ppos) }
          else Some (OB_ERROR, val, ppos))"

subsection \<open>The typed entry points\<close>

definition encode_int64_t :: "cbuf \<Rightarrow> int \<Rightarrow> int \<Rightarrow> 64 word \<Rightarrow> (int \<times> cbuf \<times> int) option" where
  "encode_int64_t buf buf_len pos val = encode_vi64 buf buf_len pos val"

definition encode_uint64_t :: "cbuf \<Rightarrow> int \<Rightarrow> int \<Rightarrow> 64 word \<Rightarrow> (int \<times> cbuf \<times> int) option" where
  "encode_uint64_t buf buf_len pos val = encode_vi64 buf buf_len pos val"

definition encode_int32_t :: "cbuf \<Rightarrow> int \<Rightarrow> int \<Rightarrow> 32 word \<Rightarrow> (int \<times> cbuf \<times> int) option" where
  "encode_int32_t buf buf_len pos val = encode_vi32 buf buf_len pos val"

definition encode_uint32_t :: "cbuf \<Rightarrow> int \<Rightarrow> int \<Rightarrow> 32 word \<Rightarrow> (int \<times> cbuf \<times> int) option" where
  "encode_uint32_t buf buf_len pos val = encode_vi32 buf buf_len pos val"

definition encode_int16_t :: "cbuf \<Rightarrow> int \<Rightarrow> int \<Rightarrow> 16 word \<Rightarrow> (int \<times> cbuf \<times> int) option" where
  "encode_int16_t buf buf_len pos val = encode_vi32 buf buf_len pos (scast val)"

definition encode_uint16_t :: "cbuf \<Rightarrow> int \<Rightarrow> int \<Rightarrow> 16 word \<Rightarrow> (int \<times> cbuf \<times> int) option" where
  "encode_uint16_t buf buf_len pos val = encode_vi32 buf buf_len pos (ucast val)"

definition encode_int8_t :: "cbuf \<Rightarrow> int \<Rightarrow> int \<Rightarrow> 8 word \<Rightarrow> (int \<times> cbuf \<times> int) option" where
  "encode_int8_t buf buf_len pos val = encode_i8 buf buf_len pos val"

definition encode_uint8_t :: "cbuf \<Rightarrow> int \<Rightarrow> int \<Rightarrow> 8 word \<Rightarrow> (int \<times> cbuf \<times> int) option" where
  "encode_uint8_t buf buf_len pos val = encode_i8 buf buf_len pos val"

definition decode_int8_t :: "cbuf \<Rightarrow> int \<Rightarrow> int \<Rightarrow> 8 word \<Rightarrow> (int \<times> 8 word \<times> int) option" where
  "decode_int8_t buf data_len pos val = decode_i8 buf data_len pos 0"

definition decode_uint8_t :: "cbuf \<Rightarrow> int \<Rightarrow> int \<Rightarrow> 8 word \<Rightarrow> (int \<times> 8 word \<times> int) option" where
  "decode_uint8_t buf data_len pos val = decode_i8 buf data_len pos 0"

definition decode_int16_t :: "cbuf \<Rightarrow> int \<Rightarrow> int \<Rightarrow> 16 word \<Rightarrow> (int \<times> 16 word \<times> int) option" where
  "decode_int16_t buf data_len pos val =
     map_option (\<lambda>(ret, v, pos). (ret, ucast v, pos)) (decode_vi32 buf data_len pos 0)"

definition decode_uint16_t :: "cbuf \<Rightarrow> int \<Rightarrow> int \<Rightarrow> 16 word \<Rightarrow> (int \<times> 16 word \<times> int) option" where
  "decode_uint16_t buf data_len pos val =
     map_option (\<lambda>(ret, v, pos). (ret, ucast v, pos)) (decode_vi32 buf data_len pos 0)"

definition decode_int32_t :: "cbuf \<Rightarrow> int \<Rightarrow> int \<Rightarrow> 32 word \<Rightarrow> (int \<times> 32 word \<times> int) option" where
  "decode_int32_t buf data_len pos val = decode_vi32 buf data_len pos 0"

definition decode_uint32_t :: "cbuf \<Rightarrow> int \<Rightarrow> int \<Rightarrow> 32 word \<Rightarrow> (int \<times> 32 word \<times> int) option" where
  "decode_uint32_t buf data_len pos val = decode_vi32 buf data_len pos 0"

definition decode_int64_t :: "cbuf \<Rightarrow> int \<Rightarrow> int \<Rightarrow> 64 word \<Rightarrow> (int \<times> 64 word \<times> int) option" where
  "decode_int64_t buf data_len pos val = decode_vi64 buf data_len pos 0"

definition decode_uint64_t :: "cbuf \<Rightarrow> int \<Rightarrow> int \<Rightarrow> 64 word \<Rightarrow> (int \<times> 64 word \<times> int) option" where
  "decode_uint64_t buf data_len pos val = decode_vi64 buf data_len pos 0"

definition encoded_length_int64_t :: "64 word \<Rightarrow> int" where
  "encoded_length_int64_t val = encoded_length_vi64 val"

definition encoded_length_uint64_t :: "64 word \<Rightarrow> int" where
  "encoded_length_uint64_t val = encoded_length_vi64 val"

definition encoded_length_int32_t :: "32 word \<Rightarrow> int" where
  "encoded_length_int32_t val = encoded_length_vi32 val"

definition encoded_length_uint32_t :: "32 word \<Rightarrow> int" where
  "encoded_length_uint32_t val = encoded_length_vi32 val"

definition encoded_length_int16_t :: "16 word \<Rightarrow> int" where
  "encoded_length_int16_t val = encoded_length_vi32 (scast val)"

definition encoded_length_uint16_t :: "16 word \<Rightarrow> int" where
  "encoded_length_uint16_t val = encoded_length_vi32 (ucast val)"

definition encoded_length_int8_t :: "8 word \<Rightarrow> int" where
  "encoded_length_int8_t unused = 1"

definition encoded_length_uint8_t :: "8 word \<Rightarrow> int" where
  "encoded_length_uint8_t unused = 1"

text \<open>
  Floating-point values travel as their bit patterns (\<^verbatim>\<open>memcpy\<close> into an integer of the
  same size), so a \<^verbatim>\<open>float\<close> is a 32-bit word and a \<^verbatim>\<open>double\<close> a 64-bit word here.
\<close>

definition encoded_length_float :: "32 word \<Rightarrow> int" where
  "encoded_length_float val = encoded_length_vi32 val"

definition encode_float :: "cbuf \<Rightarrow> int \<Rightarrow> int \<Rightarrow> 32 word \<Rightarrow> (int \<times> cbuf \<times> int) option" where
  "encode_float buf buf_len pos val = encode_vi32 buf buf_len pos val"

definition decode_float :: "cbuf \<Rightarrow> int \<Rightarrow> int \<Rightarrow> 32 word \<Rightarrow> (int \<times> 32 word \<times> int) option" where
  "decode_float buf data_len pos val = do {
     (ret, tmp, pos) \<leftarrow> decode_vi32 buf data_len pos 0;
     Some (ret, if ret = OB_SUCCESS then tmp else val, pos) }"

definition encoded_length_double :: "64 word \<Rightarrow> int" where
  "encoded_length_double val = encoded_length_vi64 val"

definition encode_double :: "cbuf \<Rightarrow> int \<Rightarrow> int \<Rightarrow> 64 word \<Rightarrow> (int \<times> cbuf \<times> int) option" where
  "encode_double buf buf_len pos val = encode_vi64 buf buf_len pos val"

definition decode_double :: "cbuf \<Rightarrow> int \<Rightarrow> int \<Rightarrow> 64 word \<Rightarrow> (int \<times> 64 word \<times> int) option" where
  "decode_double buf data_len pos val = do {
     (ret, tmp, pos) \<leftarrow> decode_vi64 buf data_len pos 0;
     Some (ret, if ret = OB_SUCCESS then tmp else val, pos) }"

subsection \<open>Strings\<close>

text \<open>\<^verbatim>\<open>strlen\<close>: undefined when no terminator stands in the object.\<close>

fun c_strlen :: "mem \<Rightarrow> int option" where
  "c_strlen [] = None"
| "c_strlen (b # bs) = (if b = 0 then Some 0 else map_option (\<lambda>n. n + 1) (c_strlen bs))"

definition encoded_length_vstr_with_len :: "int \<Rightarrow> int" where
  "encoded_length_vstr_with_len len = encoded_length_vi64 (word_of_int len) + len + 1"

definition encoded_length_vstr :: "cbuf \<Rightarrow> int option" where
  "encoded_length_vstr str = (case str of
     None \<Rightarrow> Some (encoded_length_vstr_with_len 0)
   | Some s \<Rightarrow> map_option (\<lambda>n. encoded_length_vstr_with_len (n + 1)) (c_strlen s))"

definition decoded_length_vstr :: "cbuf \<Rightarrow> int \<Rightarrow> int \<Rightarrow> int option" where
  "decoded_length_vstr buf data_len pos =
     (if buf = None \<or> data_len < 0 \<or> pos < 0 then Some (- 1)
      else do {
        (ret, len, tmp_pos) \<leftarrow> decode_vi64 buf data_len pos (- 1);
        Some (if ret \<noteq> 0 then - 1 else sint len) })"

definition encode_vstr_with_len ::
  "cbuf \<Rightarrow> int \<Rightarrow> int \<Rightarrow> cbuf \<Rightarrow> int \<Rightarrow> (int \<times> cbuf \<times> int) option" where
  "encode_vstr_with_len buf buf_len ppos vbuf len =
     (if buf \<noteq> None \<and> len \<ge> 0 \<and> buf_len - ppos \<ge> to_int32 (encoded_length_vstr_with_len len)
      then do {
        (ret, buf, pos) \<leftarrow> encode_vi64 buf buf_len ppos (word_of_int len);
        m \<leftarrow> buf;
        (m, pos) \<leftarrow> (case vbuf of
            Some v \<Rightarrow> if ret = OB_SUCCESS \<and> len > 0
              then do { bs \<leftarrow> load_bytes v 0 (nat len); m \<leftarrow> store_bytes m pos bs; Some (m, pos + len) }
              else Some (m, pos)
          | None \<Rightarrow> Some (m, pos));
        m \<leftarrow> store_byte m pos 0;
        Some (ret, Some m, pos + 1) }
      else Some (OB_SIZE_OVERFLOW, buf, ppos))"

definition encode_vstr :: "cbuf \<Rightarrow> int \<Rightarrow> int \<Rightarrow> cbuf \<Rightarrow> (int \<times> cbuf \<times> int) option" where
  "encode_vstr buf buf_len ppos s = do {
     n \<leftarrow> (case s of None \<Rightarrow> Some 0 | Some m \<Rightarrow> map_option (\<lambda>k. k + 1) (c_strlen m));
     encode_vstr_with_len buf buf_len ppos s n }"

text \<open>
  The string pointer that the decoder returns is an offset into the buffer (\<open>None\<close> for
  null); \<open>lenp\<close> is the out-parameter, itself possibly a null pointer.
\<close>

definition decode_vstr_nocopy ::
  "cbuf \<Rightarrow> int \<Rightarrow> int \<Rightarrow> int option \<Rightarrow> (int option \<times> int option \<times> int) option" where
  "decode_vstr_nocopy buf data_len pos lenp =
     (if buf = None \<or> data_len < 0 \<or> pos < 0 \<or> lenp = None then Some (None, lenp, pos)
      else do {
        (ret, len, tmp_pos) \<leftarrow> decode_vi64 buf data_len pos 0;
        let tmp_len = sint len;
        if ret \<noteq> OB_SUCCESS then Some (None, Some (- 1), pos)
        else if tmp_len \<ge> 0 then
          (if data_len - tmp_pos \<ge> tmp_len
           then Some (Some tmp_pos, Some tmp_len, tmp_pos + (tmp_len + 1))
           else Some (None, Some (- 1), pos))
        else Some (None, lenp, pos) })"

definition decode_vstr ::
  "cbuf \<Rightarrow> int \<Rightarrow> int \<Rightarrow> cbuf \<Rightarrow> int \<Rightarrow> int option \<Rightarrow> (int option \<times> cbuf \<times> int option \<times> int) option" where
  "decode_vstr buf data_len pos dest buf_len lenp =
     (if buf = None \<or> data_len < 0 \<or> pos < 0 \<or> dest = None \<or> buf_len < 0 \<or> lenp = None
      then Some (None, dest, lenp, pos)
      else do {
        (ret, len, tmp_pos) \<leftarrow> decode_vi64 buf data_len pos 0;
        let tmp_len = sint len;
        if ret \<noteq> 0 \<or> tmp_len > buf_len then Some (None, dest, Some (- 1), pos)
        else if tmp_len \<ge> 0 then
          (if data_len - tmp_pos \<ge> tmp_len
           then do {
             m \<leftarrow> buf; d \<leftarrow> dest;
             bs \<leftarrow> load_bytes m tmp_pos (nat tmp_len);
             d \<leftarrow> store_bytes d 0 bs;
             Some (Some tmp_pos, Some d, Some tmp_len, tmp_pos + (tmp_len + 1)) }
           else Some (None, dest, Some (- 1), pos))
        else Some (None, dest, lenp, pos) })"

subsection \<open>Contracts of the fixed-width and typed functions\<close>

lemma to_int32_id [simp]: "0 \<le> x \<Longrightarrow> x < 2 ^ 31 \<Longrightarrow> to_int32 x = x"
  unfolding to_int32_def by (simp add: int_word_sint)

interpretation i8: codec encode_i8 decode_i8 "\<lambda>v. [v]" "\<lambda>_. True" OB_SIZE_OVERFLOW
  by unfold_locales
    (auto simp: encode_i8_def decode_i8_def Let_def store_byte_put load_byte_def holds_at_Cons
      split: if_splits)

lemma take_bit_extend:
  "push_bit k (ucast (ucast (drop_bit k v) :: byte)) OR take_bit k v = take_bit (k + 8) (v :: 64 word)"
proof (rule bit_word_eqI)
  fix n assume "n < LENGTH(64)"
  then show "bit (push_bit k (ucast (ucast (drop_bit k v) :: byte)) OR take_bit k v) n \<longleftrightarrow> bit (take_bit (k + 8) v) n"
    by (cases "n < k") (auto simp: bit_simps)
qed

lemma be_bytes64_or:
  "push_bit 56 (ucast (ucast (drop_bit 56 val) :: byte)) OR push_bit 48 (ucast (ucast (drop_bit 48 val) :: byte))
   OR push_bit 40 (ucast (ucast (drop_bit 40 val) :: byte)) OR push_bit 32 (ucast (ucast (drop_bit 32 val) :: byte))
   OR push_bit 24 (ucast (ucast (drop_bit 24 val) :: byte)) OR push_bit 16 (ucast (ucast (drop_bit 16 val) :: byte))
   OR push_bit 8 (ucast (ucast (drop_bit 8 val) :: byte)) OR ucast (ucast val :: byte) = (val :: 64 word)"
proof -
  have "ucast (ucast val :: byte) = take_bit 8 val"
    by (rule bit_word_eqI) (auto simp: bit_simps)
  moreover have "take_bit 64 val = val"
    by (rule bit_word_eqI) (auto simp: bit_simps)
  ultimately show ?thesis
    using take_bit_extend [of 8 val] take_bit_extend [of 16 val] take_bit_extend [of 24 val]
      take_bit_extend [of 32 val] take_bit_extend [of 40 val] take_bit_extend [of 48 val]
      take_bit_extend [of 56 val] by simp
qed

interpretation i64: byte_writer encode_i64 be_bytes64 "\<lambda>_. True" OB_ERROR
  by unfold_locales (auto simp: encode_i64_def Let_def store_bytes_def be_bytes64_def nat_add_distrib)

lemma decode_i64_value:
  assumes "holds_at m pos (be_bytes64 v)" and "pos + 8 \<le> len" and "len \<le> int (length m)" and "len < 2 ^ 31"
  shows "decode_i64 (Some m) len pos old = Some (OB_SUCCESS, v, pos)"
proof -
  have "to_int32 pos = pos"
    using assms by (auto dest: holds_at_nonneg)
  then show ?thesis
    using assms be_bytes64_or [of v]
    by (simp add: decode_i64_def Let_def be_bytes64_def holds_at_Cons add.assoc)
qed

lemma ucast_scast_16: "ucast (scast (v :: 16 word) :: 32 word) = v"
  by (rule bit_word_eqI) (auto simp: bit_simps)

lemma ucast_ucast_16: "ucast (ucast (v :: 16 word) :: 32 word) = v"
  by (rule bit_word_eqI) (auto simp: bit_simps)

interpretation int64_t: codec encode_int64_t decode_int64_t vi_bytes "\<lambda>_. True" OB_SIZE_OVERFLOW
  unfolding encode_int64_t_def decode_int64_t_def
  by unfold_locales (auto simp: vi64.write_fits vi64.write_full vi64.write_null vi64.read_enc)

interpretation int32_t: codec encode_int32_t decode_int32_t vi_bytes "\<lambda>_. True" OB_SIZE_OVERFLOW
  unfolding encode_int32_t_def decode_int32_t_def
  by unfold_locales (auto simp: vi32.write_fits vi32.write_full vi32.write_null vi32.read_enc)

interpretation int16_t: codec encode_int16_t decode_int16_t "\<lambda>v. vi_bytes (scast v :: 32 word)" "\<lambda>_. True" OB_SIZE_OVERFLOW
  unfolding encode_int16_t_def decode_int16_t_def
  by unfold_locales (auto simp: vi32.write_fits vi32.write_full vi32.write_null vi32.read_enc ucast_scast_16)

interpretation uint16_t: codec encode_uint16_t decode_uint16_t "\<lambda>v. vi_bytes (ucast v :: 32 word)" "\<lambda>_. True" OB_SIZE_OVERFLOW
  unfolding encode_uint16_t_def decode_uint16_t_def
  by unfold_locales (auto simp: vi32.write_fits vi32.write_full vi32.write_null vi32.read_enc ucast_ucast_16)

subsection \<open>Contracts of the string functions\<close>

definition vstr_bytes :: "mem \<Rightarrow> mem" where
  "vstr_bytes s = vi_bytes (word_of_int (int (length s)) :: 64 word) @ s @ [0]"

abbreviation vstr_ok :: "mem \<Rightarrow> bool" where
  "vstr_ok s \<equiv> int (length s) + 11 < 2 ^ 31"

lemma length_vi_bytes_64: "length (vi_bytes (v :: 64 word)) \<le> 10"
  using vi_more_length_bound [of v] by (simp add: vi_bytes_def)

lemma encoded_length_vstr_eq: "encoded_length_vstr_with_len (int (length s)) = int (length (vstr_bytes s))"
  by (simp add: encoded_length_vstr_with_len_def encoded_length_vi64_eq vstr_bytes_def)

lemma vstr_ok_length:
  assumes "vstr_ok s"
  shows "to_int32 (encoded_length_vstr_with_len (int (length s))) = int (length (vstr_bytes s))"
proof -
  have "int (length (vstr_bytes s)) < 2 ^ 31"
    using assms length_vi_bytes_64 [of "word_of_int (int (length s))"] by (simp add: vstr_bytes_def)
  then show ?thesis by (simp add: encoded_length_vstr_eq)
qed

lemma encode_vstr_fits:
  assumes "vstr_ok s" and "0 \<le> pos" and "pos + int (length (vstr_bytes s)) \<le> len"
    and "len \<le> int (length m)" and "len < 2 ^ 31"
  shows "encode_vstr_with_len (Some m) len pos (Some s) (int (length s)) =
    Some (OB_SUCCESS, Some (put m pos (vstr_bytes s)), pos + int (length (vstr_bytes s)))"
proof -
  let ?w = "vi_bytes (word_of_int (int (length s)) :: 64 word)"
  let ?m = "put m pos ?w" and ?p = "pos + int (length ?w)"
  have total: "nat pos + length ?w + length s + 1 \<le> length m"
    using assms by (simp add: vstr_bytes_def)
  have vi: "encode_vi64 (Some m) len pos (word_of_int (int (length s))) = Some (OB_SUCCESS, Some ?m, ?p)"
    using assms by (intro vi64.write_fits) (simp_all add: vstr_bytes_def)
  have body: "store_bytes ?m ?p s = Some (put m pos (?w @ s))"
    using total assms(2) put_put_adjacent [of pos ?w s m] by (simp add: store_bytes_def nat_add_distrib)
  have p2: "?p + int (length s) = pos + int (length (?w @ s))" by simp
  have nul: "store_byte (put m pos (?w @ s)) (pos + int (length (?w @ s))) 0 = Some (put m pos (vstr_bytes s))"
    using total assms(2) put_put_adjacent [of pos "?w @ s" "[0]" m]
    by (simp add: store_byte_put nat_add_distrib vstr_bytes_def)
  show ?thesis
  proof (cases "s = []")
    case True
    with assms vi nul vstr_ok_length [OF assms(1)] show ?thesis
      by (simp add: encode_vstr_with_len_def vstr_bytes_def)
  next
    case False
    have "load_bytes s 0 (length s) = Some s" by (simp add: load_bytes_def)
    with False assms vi body nul p2 vstr_ok_length [OF assms(1)] show ?thesis
      by (simp add: encode_vstr_with_len_def vstr_bytes_def add.assoc)
  qed
qed

interpretation vstr: byte_writer "\<lambda>buf len pos s. encode_vstr_with_len buf len pos (Some s) (int (length s))"
  vstr_bytes vstr_ok OB_SIZE_OVERFLOW
  by unfold_locales (simp_all add: encode_vstr_fits, auto simp: encode_vstr_with_len_def vstr_ok_length)

lemma sint_word_of_length: "n < 2 ^ 31 \<Longrightarrow> sint (word_of_nat n :: 64 word) = int n"
  using int_word_sint [of "int n", where ?'a = 64] by simp

lemma decode_vstr_nocopy_bytes:
  assumes "vstr_ok s" and "holds_at m pos (vstr_bytes s)" and "pos + int (length (vstr_bytes s)) \<le> len"
    and "len \<le> int (length m)" and "len < 2 ^ 31"
  shows "decode_vstr_nocopy (Some m) len pos (Some l) =
    Some (Some (pos + int (length (vstr_bytes s)) - int (length s) - 1), Some (int (length s)),
      pos + int (length (vstr_bytes s)))"
proof -
  let ?n = "word_of_int (int (length s)) :: 64 word"
  have "0 \<le> pos" using assms(2) by (rule holds_at_nonneg)
  moreover have "decode_vi64 (Some m) len pos 0 = Some (OB_SUCCESS, ?n, pos + int (length (vi_bytes ?n)))"
    using assms by (intro vi64.read_enc) (simp_all add: vstr_bytes_def holds_at_append)
  ultimately show ?thesis
    using assms by (simp add: decode_vstr_nocopy_def vstr_bytes_def sint_word_of_length Let_def)
qed

lemma decode_vstr_bytes:
  assumes "vstr_ok s" and "holds_at m pos (vstr_bytes s)" and "pos + int (length (vstr_bytes s)) \<le> len"
    and "len \<le> int (length m)" and "len < 2 ^ 31"
    and "int (length s) \<le> buf_len" and "buf_len \<le> int (length d)"
  shows "decode_vstr (Some m) len pos (Some d) buf_len (Some l) =
    Some (Some (pos + int (length (vstr_bytes s)) - int (length s) - 1), Some (put d 0 s),
      Some (int (length s)), pos + int (length (vstr_bytes s)))"
proof -
  let ?n = "word_of_int (int (length s)) :: 64 word"
  have "0 \<le> pos" using assms(2) by (rule holds_at_nonneg)
  moreover have "decode_vi64 (Some m) len pos 0 = Some (OB_SUCCESS, ?n, pos + int (length (vi_bytes ?n)))"
    using assms by (intro vi64.read_enc) (simp_all add: vstr_bytes_def holds_at_append)
  moreover have "load_bytes m (pos + int (length (vi_bytes ?n))) (length s) = Some s"
    using assms(2) by (simp add: vstr_bytes_def holds_at_append) (simp add: holds_at_def)
  ultimately show ?thesis
    using assms by (simp add: decode_vstr_def vstr_bytes_def sint_word_of_length store_bytes_def Let_def)
qed

subsection \<open>Properties\<close>

lemma length_vi64: "int (length (vi_bytes (v :: 64 word))) = encoded_length_vi64 v"
  by (simp add: encoded_length_vi64_eq)

text \<open>C2: Writing any 64-bit value with \<^verbatim>\<open>encode_vi64\<close> where \<^verbatim>\<open>encoded_length_vi64\<close> bytes are left succeeds,
  moves the position by exactly that length, changes no byte outside of it, and \<^verbatim>\<open>decode_vi64\<close> at the
  same position gives the value back and stops at the same place.\<close>

theorem vi64_roundtrip:
  assumes "0 \<le> pos" and "pos + encoded_length_vi64 v \<le> len" and "len \<le> int (length m)" and "len < 2 ^ 31"
  shows "\<exists>m'. encode_vi64 (Some m) len pos v = Some (OB_SUCCESS, Some m', pos + encoded_length_vi64 v)
     \<and> length m' = length m
     \<and> (\<forall>b n. b + int n \<le> pos \<or> pos + encoded_length_vi64 v \<le> b \<longrightarrow> load_bytes m' b n = load_bytes m b n)
     \<and> decode_vi64 (Some m') len pos old = Some (OB_SUCCESS, v, pos + encoded_length_vi64 v)"
proof -
  let ?m = "put m pos (vi_bytes v)"
  have fits: "nat pos + length (vi_bytes v) \<le> length m" using assms by (simp flip: length_vi64)
  have w: "encode_vi64 (Some m) len pos v = Some (OB_SUCCESS, Some ?m, pos + encoded_length_vi64 v)"
    using assms vi64.write_fits [where v = v and pos = pos and len = len and m = m] by (simp add: length_vi64)
  moreover have "load_bytes ?m b n = load_bytes m b n"
    if "b + int n \<le> pos \<or> pos + encoded_length_vi64 v \<le> b" for b n
    using that fits assms(1) load_bytes_put_before load_bytes_put_after by (auto simp: length_vi64)
  moreover have "0 \<le> encoded_length_vi64 v" by (simp flip: length_vi64)
  then have "decode_vi64 (Some ?m) len pos old = Some (OB_SUCCESS, v, pos + encoded_length_vi64 v)"
    using vi64.roundtrip [where v = v and pos = pos and len = len and m = m and m' = ?m] w assms by simp
  ultimately show ?thesis using fits assms(1) by auto
qed

theorem vi64_roundtrip_witness:
  "(0 :: int) \<le> 1 \<and> 1 + encoded_length_vi64 300 \<le> 4 \<and> (4 :: int) \<le> int (length (replicate 4 0 :: mem)) \<and> (4 :: int) < 2 ^ 31
   \<and> (\<exists>m'. encode_vi64 (Some (replicate 4 0)) 4 1 300 = Some (OB_SUCCESS, Some m', 1 + encoded_length_vi64 300)
      \<and> decode_vi64 (Some m') 4 1 0 = Some (OB_SUCCESS, 300, 1 + encoded_length_vi64 300))"
proof -
  have "encoded_length_vi64 300 = 2" by code_simp
  then show ?thesis using vi64_roundtrip [of 1 300 4 "replicate 4 0" 0] by auto
qed

text \<open>C18: When fewer bytes are left than \<^verbatim>\<open>encoded_length_vi64\<close> announces, \<^verbatim>\<open>encode_vi64\<close> returns
  \<^verbatim>\<open>OB_SIZE_OVERFLOW\<close> and leaves the buffer and the position as they were.\<close>

theorem vi64_overflow:
  assumes "0 \<le> pos" and "pos \<le> len" and "len < pos + encoded_length_vi64 v" and "len \<le> int (length m)" and "len < 2 ^ 31"
  shows "encode_vi64 (Some m) len pos v = Some (OB_SIZE_OVERFLOW, Some m, pos)"
  using assms vi64.write_full [where v = v and pos = pos and len = len and m = m] by (simp add: length_vi64)

theorem vi64_overflow_witness:
  "encoded_length_vi64 (2 ^ 63) = 10 \<and> encode_vi64 (Some (replicate 9 7)) 9 0 (2 ^ 63) = Some (OB_SIZE_OVERFLOW, Some (replicate 9 7), 0)"
proof -
  have "encoded_length_vi64 (2 ^ 63) = 10" by code_simp
  then show ?thesis using vi64_overflow [of 0 9 "2 ^ 63" "replicate 9 7"] by simp
qed

text \<open>C17: The comparison chain of \<^verbatim>\<open>encoded_length_vi64\<close> computes the number of seven-bit groups of the
  value: the length is \<open>k\<close> exactly when the value needs \<open>k\<close> groups, and ten groups hold every value.\<close>

theorem encoded_length_vi64_groups:
  "1 \<le> encoded_length_vi64 v \<and> encoded_length_vi64 v \<le> 10
   \<and> uint v < 2 ^ (7 * nat (encoded_length_vi64 v))
   \<and> (encoded_length_vi64 v = 1 \<or> 2 ^ (7 * (nat (encoded_length_vi64 v) - 1)) \<le> uint v)"
proof -
  let ?n = "length (vi_more v)"
  have e: "encoded_length_vi64 v = int (Suc ?n)" by (simp add: vi_bytes_def flip: length_vi64)
  have "Suc ?n \<le> 10" using length_vi_bytes_64 [of v] by (simp add: vi_bytes_def)
  moreover have "uint v < 2 ^ (7 * Suc ?n)" using length_vi_more_le [of v ?n] by simp
  moreover have "?n = 0 \<or> 2 ^ (7 * ?n) \<le> uint v"
    using length_vi_more_le [of v "?n - 1"] by (cases ?n) auto
  ultimately show ?thesis unfolding e nat_int by simp
qed

text \<open>C12: \<^verbatim>\<open>encode_vstr_with_len\<close> followed by \<^verbatim>\<open>decode_vstr\<close>: the copy in the destination is the string, the
  length is its length, and both stop at the position that \<^verbatim>\<open>encoded_length_vstr_with_len\<close> announces.\<close>

theorem vstr_roundtrip:
  assumes "int (length s) + 11 < 2 ^ 31" and "0 \<le> pos"
    and "pos + encoded_length_vstr_with_len (int (length s)) \<le> len" and "len \<le> int (length m)" and "len < 2 ^ 31"
    and "int (length s) \<le> buf_len" and "buf_len \<le> int (length d)"
  shows "\<exists>m' p d'. encode_vstr_with_len (Some m) len pos (Some s) (int (length s)) =
        Some (OB_SUCCESS, Some m', pos + encoded_length_vstr_with_len (int (length s)))
     \<and> decode_vstr (Some m') len pos (Some d) buf_len (Some l) =
        Some (Some p, Some d', Some (int (length s)), pos + encoded_length_vstr_with_len (int (length s)))
     \<and> take (length s) d' = s \<and> length d' = length d \<and> load_bytes m' p (length s) = Some s"
proof -
  let ?b = "vstr_bytes s" and ?v = "vi_bytes (word_of_int (int (length s)) :: 64 word)"
  let ?m = "put m pos ?b" and ?p = "pos + int (length ?b) - int (length s) - 1"
  have le: "pos + int (length ?b) \<le> len" using assms(3) by (simp add: encoded_length_vstr_eq)
  then have fits: "nat pos + length ?b \<le> length m" using assms by linarith
  then have h: "holds_at ?m pos ?b" using assms(2) by (intro holds_at_put) simp_all
  have lm: "length ?m = length m" using assms(2) fits by simp
  have "encode_vstr_with_len (Some m) len pos (Some s) (int (length s)) = Some (OB_SUCCESS, Some ?m, pos + int (length ?b))"
    using assms(1,2,4,5) le by (intro encode_vstr_fits) simp_all
  moreover have "decode_vstr (Some ?m) len pos (Some d) buf_len (Some l) =
      Some (Some ?p, Some (put d 0 s), Some (int (length s)), pos + int (length ?b))"
    using assms le lm by (intro decode_vstr_bytes h) simp_all
  moreover have "holds_at ?m (pos + int (length ?v)) s" using h by (simp add: vstr_bytes_def holds_at_append)
  then have "load_bytes ?m ?p (length s) = Some s" by (simp add: holds_at_def vstr_bytes_def)
  ultimately show ?thesis using assms(6,7) by (simp add: encoded_length_vstr_eq put_def)
qed

theorem vstr_roundtrip_witness:
  "\<exists>m' p d'. encode_vstr_with_len (Some (replicate 8 0)) 8 1 (Some [65, 66]) 2 = Some (OB_SUCCESS, Some m', 5)
     \<and> decode_vstr (Some m') 8 1 (Some [9, 9, 9]) 3 (Some 0) = Some (Some p, Some d', Some 2, 5)
     \<and> take 2 d' = [65, 66] \<and> length d' = 3 \<and> load_bytes m' p 2 = Some [65, 66]"
proof -
  have "encoded_length_vstr_with_len 2 = 4" by code_simp
  then show ?thesis using vstr_roundtrip [of "[65, 66]" 1 8 "replicate 8 0" 3 "[9, 9, 9]" 0] by (simp add: eval_nat_numeral)
qed

lemma decode_vi_loop_overread:
  assumes "list_all (\<lambda>b. bit b 7) (drop (nat pos) m)" and "0 \<le> pos" and "nat pos \<le> length m"
    and "data_len = int (length m)" and "shift + 7 * (length m - nat pos) < LENGTH('a)"
  shows "decode_vi_loop m data_len pos (v :: 'a::len word) shift = None"
  using assms
proof (induction "length m - nat pos" arbitrary: pos v shift)
  case 0
  then have "load_byte m pos = None" by (simp add: load_byte_def)
  then show ?case by (subst decode_vi_loop.simps) simp
next
  case (Suc n)
  then have lt: "nat pos < length m" by simp
  then have d: "drop (nat pos) m = m ! nat pos # drop (nat (pos + 1)) m"
    using Suc.prems(2) by (simp add: Cons_nth_drop_Suc nat_add_distrib)
  then have b: "m ! nat pos AND 128 \<noteq> 0" using Suc.prems(1) by (simp add: byte_top_bit)
  have IH: "decode_vi_loop m data_len (pos + 1) w (shift + 7) = None" for w :: "'a word"
    by (rule Suc.hyps(1)) (use Suc.hyps(2) Suc.prems lt d in \<open>simp_all add: nat_add_distrib\<close>)
  have "shift < LENGTH('a)" using Suc.prems(5) by simp
  then show ?case using Suc.prems lt b IH by (subst decode_vi_loop.simps) (simp add: load_byte_def)
qed


text \<open>C26: \<^verbatim>\<open>decode_vi64\<close> looks at a byte before it looks at the remaining length: on a buffer whose bytes from the
  position on all have the continuation bit and that ends within nine bytes, it reads past the end of the
  buffer (undefined behaviour) instead of returning \<^verbatim>\<open>OB_DESERIALIZE_ERROR\<close>.\<close>

theorem decode_vi64_overread:
  assumes "list_all (\<lambda>b. bit b 7) (drop (nat pos) m)" and "0 \<le> pos" and "nat pos \<le> length m"
    and "length m \<le> nat pos + 9"
  shows "decode_vi64 (Some m) (int (length m)) pos old = None"
  using decode_vi_loop_overread [OF assms(1-3) refl, of 0 "0 :: 64 word"] assms(4)
  by (simp add: decode_vi64_def decode_vi_def)

theorem decode_vi64_overread_witness:
  "list_all (\<lambda>b. bit b 7) (drop 0 [0x80, 0xFF :: byte]) \<and> decode_vi64 (Some [0x80, 0xFF]) 2 0 0 = None"
proof -
  have "list_all (\<lambda>b. bit b 7) (drop 0 [0x80, 0xFF :: byte])" by code_simp
  then show ?thesis using decode_vi64_overread [of 0 "[0x80, 0xFF]" 0] by simp
qed

end
