(* ===== verification/ObObject.thy ===== *)
theory ObObject
  imports ObSerialize
begin

unbundle bit_operations_syntax

section \<open>Typed objects (libmariadb/ob_object.c, include/ob_object.h)\<close>

text \<open>
  An \<^verbatim>\<open>ObObj\<close> is a tagged value: a meta part with the type code, and a union.  The union
  holds eight bytes of an integer or a double (\<open>V64\<close>), the four bytes of a float (\<open>V32\<close>), or
  a pointer to a string (\<open>VStr\<close>, the object pointed to).  Reading a member that the stored
  one does not determine (the number behind a pointer, the upper half after a float was
  stored) is \<open>None\<close>.  Serialisation goes through the table of functions \<^verbatim>\<open>OBJ_FUNCS\<close>; an entry
  that C leaves null, or an index past the table, is \<open>None\<close> too.

  The locale \<open>obj_entry\<close> is the contract of a table entry, \<open>numeric_entry\<close> the shape that the
  macro \<^verbatim>\<open>DEF_SERIALIZE_FUNCS\<close> generates; each of the 14 numeric types interprets it.
\<close>

subsection \<open>Type codes\<close>

datatype (plugins only: code) ObObjType =
    ObNullType | ObTinyIntType | ObSmallIntType | ObMediumIntType | ObInt32Type | ObIntType
     | ObUTinyIntType | ObUSmallIntType | ObUMediumIntType | ObUInt32Type | ObUInt64Type
     | ObFloatType | ObDoubleType | ObUFloatType | ObUDoubleType | ObNumberType | ObUNumberType
     | ObDateTimeType | ObTimestampType | ObDateType | ObTimeType | ObYearType | ObVarcharType
     | ObCharType | ObHexStringType | ObExtendType | ObUnknownType | ObTinyTextType | ObTextType
     | ObMediumTextType | ObLongTextType | ObBitType | ObEnumType | ObSetType | ObEnumInnerType
     | ObSetInnerType | ObTimestampTZType | ObTimestampLTZType | ObTimestampNanoType | ObRawType
     | ObIntervalYMType | ObIntervalDSType | ObNumberFloatType | ObNVarchar2Type | ObNCharType
     | ObURowIDType | ObLobType | ObMaxType

primrec ob_type_code :: "ObObjType \<Rightarrow> nat" where
  "ob_type_code ObNullType = 0"
| "ob_type_code ObTinyIntType = 1"
| "ob_type_code ObSmallIntType = 2"
| "ob_type_code ObMediumIntType = 3"
| "ob_type_code ObInt32Type = 4"
| "ob_type_code ObIntType = 5"
| "ob_type_code ObUTinyIntType = 6"
| "ob_type_code ObUSmallIntType = 7"
| "ob_type_code ObUMediumIntType = 8"
| "ob_type_code ObUInt32Type = 9"
| "ob_type_code ObUInt64Type = 10"
| "ob_type_code ObFloatType = 11"
| "ob_type_code ObDoubleType = 12"
| "ob_type_code ObUFloatType = 13"
| "ob_type_code ObUDoubleType = 14"
| "ob_type_code ObNumberType = 15"
| "ob_type_code ObUNumberType = 16"
| "ob_type_code ObDateTimeType = 17"
| "ob_type_code ObTimestampType = 18"
| "ob_type_code ObDateType = 19"
| "ob_type_code ObTimeType = 20"
| "ob_type_code ObYearType = 21"
| "ob_type_code ObVarcharType = 22"
| "ob_type_code ObCharType = 23"
| "ob_type_code ObHexStringType = 24"
| "ob_type_code ObExtendType = 25"
| "ob_type_code ObUnknownType = 26"
| "ob_type_code ObTinyTextType = 27"
| "ob_type_code ObTextType = 28"
| "ob_type_code ObMediumTextType = 29"
| "ob_type_code ObLongTextType = 30"
| "ob_type_code ObBitType = 31"
| "ob_type_code ObEnumType = 32"
| "ob_type_code ObSetType = 33"
| "ob_type_code ObEnumInnerType = 34"
| "ob_type_code ObSetInnerType = 35"
| "ob_type_code ObTimestampTZType = 36"
| "ob_type_code ObTimestampLTZType = 37"
| "ob_type_code ObTimestampNanoType = 38"
| "ob_type_code ObRawType = 39"
| "ob_type_code ObIntervalYMType = 40"
| "ob_type_code ObIntervalDSType = 41"
| "ob_type_code ObNumberFloatType = 42"
| "ob_type_code ObNVarchar2Type = 43"
| "ob_type_code ObNCharType = 44"
| "ob_type_code ObURowIDType = 45"
| "ob_type_code ObLobType = 46"
| "ob_type_code ObMaxType = 47"

datatype (plugins only: code) enum_field_types =
    MYSQL_TYPE_DECIMAL | MYSQL_TYPE_TINY | MYSQL_TYPE_SHORT | MYSQL_TYPE_LONG | MYSQL_TYPE_FLOAT
     | MYSQL_TYPE_DOUBLE | MYSQL_TYPE_NULL | MYSQL_TYPE_TIMESTAMP | MYSQL_TYPE_LONGLONG
     | MYSQL_TYPE_INT24 | MYSQL_TYPE_DATE | MYSQL_TYPE_TIME | MYSQL_TYPE_DATETIME
     | MYSQL_TYPE_YEAR | MYSQL_TYPE_NEWDATE | MYSQL_TYPE_VARCHAR | MYSQL_TYPE_BIT
     | MYSQL_TYPE_TIMESTAMP2 | MYSQL_TYPE_DATETIME2 | MYSQL_TYPE_TIME2 | MYSQL_TYPE_OBJECT
     | MYSQL_TYPE_ARRAY | MYSQL_TYPE_STRUCT | MYSQL_TYPE_CURSOR | MYSQL_TYPE_PLARRAY
     | MYSQL_TYPE_OB_TIMESTAMP_WITH_TIME_ZONE | MYSQL_TYPE_OB_TIMESTAMP_WITH_LOCAL_TIME_ZONE
     | MYSQL_TYPE_OB_TIMESTAMP_NANO | MYSQL_TYPE_OB_RAW | MYSQL_TYPE_OB_INTERVAL_YM
     | MYSQL_TYPE_OB_INTERVAL_DS | MYSQL_TYPE_OB_NUMBER_FLOAT | MYSQL_TYPE_OB_NVARCHAR2
     | MYSQL_TYPE_OB_NCHAR | MYSQL_TYPE_OB_UROWID | MYSQL_TYPE_ORA_BLOB | MYSQL_TYPE_ORA_CLOB
     | MYSQL_TYPE_JSON | MYSQL_TYPE_NEWDECIMAL | MYSQL_TYPE_ENUM | MYSQL_TYPE_SET
     | MYSQL_TYPE_TINY_BLOB | MYSQL_TYPE_MEDIUM_BLOB | MYSQL_TYPE_LONG_BLOB | MYSQL_TYPE_BLOB
     | MYSQL_TYPE_VAR_STRING | MYSQL_TYPE_STRING | MYSQL_TYPE_GEOMETRY | MAX_NO_FIELD_TYPES

datatype ObCollationType =
    CS_TYPE_INVALID | CS_TYPE_GBK_CHINESE_CI | CS_TYPE_UTF8MB4_GENERAL_CI | CS_TYPE_UTF8MB4_BIN
  | CS_TYPE_UTF16_GENERAL_CI | CS_TYPE_UTF16_BIN | CS_TYPE_BINARY | CS_TYPE_GBK_BIN
  | CS_TYPE_UTF16_UNICODE_CI | CS_TYPE_UTF8MB4_UNICODE_CI | CS_TYPE_GB18030_CHINESE_CI
  | CS_TYPE_GB18030_BIN | CS_TYPE_MAX

primrec cs_type_code :: "ObCollationType \<Rightarrow> byte" where
  "cs_type_code CS_TYPE_INVALID = 0"
| "cs_type_code CS_TYPE_GBK_CHINESE_CI = 28"
| "cs_type_code CS_TYPE_UTF8MB4_GENERAL_CI = 45"
| "cs_type_code CS_TYPE_UTF8MB4_BIN = 46"
| "cs_type_code CS_TYPE_UTF16_GENERAL_CI = 54"
| "cs_type_code CS_TYPE_UTF16_BIN = 55"
| "cs_type_code CS_TYPE_BINARY = 63"
| "cs_type_code CS_TYPE_GBK_BIN = 87"
| "cs_type_code CS_TYPE_UTF16_UNICODE_CI = 101"
| "cs_type_code CS_TYPE_UTF8MB4_UNICODE_CI = 224"
| "cs_type_code CS_TYPE_GB18030_CHINESE_CI = 248"
| "cs_type_code CS_TYPE_GB18030_BIN = 249"
| "cs_type_code CS_TYPE_MAX = 250"

datatype ObCollationLevel =
    CS_LEVEL_EXPLICIT | CS_LEVEL_NONE | CS_LEVEL_IMPLICIT | CS_LEVEL_SYSCONST
  | CS_LEVEL_COERCIBLE | CS_LEVEL_NUMERIC | CS_LEVEL_IGNORABLE | CS_LEVEL_INVALID

primrec cs_level_code :: "ObCollationLevel \<Rightarrow> byte" where
  "cs_level_code CS_LEVEL_EXPLICIT = 0"
| "cs_level_code CS_LEVEL_NONE = 1"
| "cs_level_code CS_LEVEL_IMPLICIT = 2"
| "cs_level_code CS_LEVEL_SYSCONST = 3"
| "cs_level_code CS_LEVEL_COERCIBLE = 4"
| "cs_level_code CS_LEVEL_NUMERIC = 5"
| "cs_level_code CS_LEVEL_IGNORABLE = 6"
| "cs_level_code CS_LEVEL_INVALID = 7"

subsection \<open>Mapping between the type systems\<close>

record ObMySQLTypeMap =
  mysql_type :: enum_field_types
  flags :: "16 word"
  map_length :: "64 word"

abbreviation (input) BINARY_FLAG :: "16 word" where "BINARY_FLAG \<equiv> 128"
abbreviation (input) UNSIGNED_FLAG :: "16 word" where "UNSIGNED_FLAG \<equiv> 32"
abbreviation (input) ZEROFILL_FLAG :: "16 word" where "ZEROFILL_FLAG \<equiv> 64"
abbreviation (input) TIMESTAMP_FLAG :: "16 word" where "TIMESTAMP_FLAG \<equiv> 1024"

definition ob_map :: "enum_field_types \<Rightarrow> 16 word \<Rightarrow> ObMySQLTypeMap" where
  "ob_map t f = \<lparr>mysql_type = t, flags = f, map_length = 0\<rparr>"

text \<open>
  27 entries are written out in the source; C fills the remaining ones with zeros, and the
  zero of \<^verbatim>\<open>enum_field_types\<close> is \<open>MYSQL_TYPE_DECIMAL\<close>.
\<close>

definition type_maps :: "ObMySQLTypeMap list" where
  "type_maps = [
    ob_map MYSQL_TYPE_NULL BINARY_FLAG,
    ob_map MYSQL_TYPE_TINY BINARY_FLAG,
    ob_map MYSQL_TYPE_SHORT BINARY_FLAG,
    ob_map MYSQL_TYPE_INT24 BINARY_FLAG,
    ob_map MYSQL_TYPE_LONG BINARY_FLAG,
    ob_map MYSQL_TYPE_LONGLONG BINARY_FLAG,
    ob_map MYSQL_TYPE_TINY (BINARY_FLAG OR UNSIGNED_FLAG),
    ob_map MYSQL_TYPE_SHORT (BINARY_FLAG OR UNSIGNED_FLAG),
    ob_map MYSQL_TYPE_INT24 (BINARY_FLAG OR UNSIGNED_FLAG),
    ob_map MYSQL_TYPE_LONG (BINARY_FLAG OR UNSIGNED_FLAG),
    ob_map MYSQL_TYPE_LONGLONG (BINARY_FLAG OR UNSIGNED_FLAG),
    ob_map MYSQL_TYPE_FLOAT BINARY_FLAG,
    ob_map MYSQL_TYPE_DOUBLE BINARY_FLAG,
    ob_map MYSQL_TYPE_FLOAT (BINARY_FLAG OR UNSIGNED_FLAG),
    ob_map MYSQL_TYPE_DOUBLE (BINARY_FLAG OR UNSIGNED_FLAG),
    ob_map MYSQL_TYPE_NEWDECIMAL BINARY_FLAG,
    ob_map MYSQL_TYPE_NEWDECIMAL (BINARY_FLAG OR UNSIGNED_FLAG),
    ob_map MYSQL_TYPE_DATETIME BINARY_FLAG,
    ob_map MYSQL_TYPE_TIMESTAMP (BINARY_FLAG OR TIMESTAMP_FLAG),
    ob_map MYSQL_TYPE_DATE BINARY_FLAG,
    ob_map MYSQL_TYPE_TIME BINARY_FLAG,
    ob_map MYSQL_TYPE_YEAR (UNSIGNED_FLAG OR ZEROFILL_FLAG),
    ob_map MYSQL_TYPE_VAR_STRING 0,
    ob_map MYSQL_TYPE_STRING 0,
    ob_map MYSQL_TYPE_VAR_STRING BINARY_FLAG,
    ob_map MAX_NO_FIELD_TYPES 0,
    ob_map MAX_NO_FIELD_TYPES 0] @ replicate 20 (ob_map MYSQL_TYPE_DECIMAL 0)"

definition get_map :: "ObObjType \<Rightarrow> int \<times> ObMySQLTypeMap option" where
  "get_map ob_type =
     (if ob_type_code ob_type \<ge> ob_type_code ObMaxType then (1, None)
      else (0, Some (type_maps ! ob_type_code ob_type)))"

definition get_mysql_type :: "ObObjType \<Rightarrow> enum_field_types \<Rightarrow> int \<times> enum_field_types" where
  "get_mysql_type ob_type old = (case get_map ob_type of
     (ret, Some tm) \<Rightarrow> if ret = 0 then (ret, mysql_type tm) else (ret, old)
   | (ret, None) \<Rightarrow> (ret, old))"

definition get_ob_type :: "ObObjType \<Rightarrow> enum_field_types \<Rightarrow> int \<times> ObObjType" where
  "get_ob_type old mt = (case mt of
     MYSQL_TYPE_NULL \<Rightarrow> (0, ObNullType)
   | MYSQL_TYPE_TINY \<Rightarrow> (0, ObTinyIntType)
   | MYSQL_TYPE_SHORT \<Rightarrow> (0, ObSmallIntType)
   | MYSQL_TYPE_INT24 \<Rightarrow> (0, ObMediumIntType)
   | MYSQL_TYPE_LONG \<Rightarrow> (0, ObInt32Type)
   | MYSQL_TYPE_LONGLONG \<Rightarrow> (0, ObIntType)
   | MYSQL_TYPE_FLOAT \<Rightarrow> (0, ObFloatType)
   | MYSQL_TYPE_DOUBLE \<Rightarrow> (0, ObDoubleType)
   | MYSQL_TYPE_TIMESTAMP \<Rightarrow> (0, ObTimestampType)
   | MYSQL_TYPE_DATETIME \<Rightarrow> (0, ObDateTimeType)
   | MYSQL_TYPE_TIME \<Rightarrow> (0, ObTimeType)
   | MYSQL_TYPE_DATE \<Rightarrow> (0, ObDateType)
   | MYSQL_TYPE_YEAR \<Rightarrow> (0, ObYearType)
   | MYSQL_TYPE_VARCHAR \<Rightarrow> (0, ObVarcharType)
   | MYSQL_TYPE_STRING \<Rightarrow> (0, ObVarcharType)
   | MYSQL_TYPE_VAR_STRING \<Rightarrow> (0, ObVarcharType)
   | MYSQL_TYPE_TINY_BLOB \<Rightarrow> (0, ObTinyTextType)
   | MYSQL_TYPE_BLOB \<Rightarrow> (0, ObTextType)
   | MYSQL_TYPE_MEDIUM_BLOB \<Rightarrow> (0, ObMediumTextType)
   | MYSQL_TYPE_LONG_BLOB \<Rightarrow> (0, ObLongTextType)
   | MYSQL_TYPE_OB_TIMESTAMP_WITH_TIME_ZONE \<Rightarrow> (0, ObTimestampTZType)
   | MYSQL_TYPE_OB_TIMESTAMP_WITH_LOCAL_TIME_ZONE \<Rightarrow> (0, ObTimestampLTZType)
   | MYSQL_TYPE_OB_TIMESTAMP_NANO \<Rightarrow> (0, ObTimestampNanoType)
   | MYSQL_TYPE_OB_RAW \<Rightarrow> (0, ObRawType)
   | MYSQL_TYPE_DECIMAL \<Rightarrow> (0, ObNumberType)
   | MYSQL_TYPE_NEWDECIMAL \<Rightarrow> (0, ObNumberType)
   | MYSQL_TYPE_BIT \<Rightarrow> (0, ObBitType)
   | MYSQL_TYPE_ENUM \<Rightarrow> (0, ObEnumType)
   | MYSQL_TYPE_SET \<Rightarrow> (0, ObSetType)
   | MYSQL_TYPE_OBJECT \<Rightarrow> (0, ObExtendType)
   | _ \<Rightarrow> (1, old))"

subsection \<open>Objects, getters and setters\<close>

record ObObjMeta =
  type_' :: byte
  cs_level' :: byte
  cs_type' :: byte
  scale' :: byte

datatype ObObjValue = V64 "64 word" | V32 "32 word" | VStr cbuf

record ObObj =
  meta' :: ObObjMeta
  val_len' :: "32 word"
  v' :: ObObjValue

fun val64 :: "ObObjValue \<Rightarrow> 64 word option" where
  "val64 (V64 w) = Some w"
| "val64 _ = None"

fun val32 :: "ObObjValue \<Rightarrow> 32 word option" where
  "val32 (V64 w) = Some (ucast w)"
| "val32 (V32 w) = Some w"
| "val32 (VStr _) = None"

fun val_str :: "ObObjValue \<Rightarrow> cbuf option" where
  "val_str (VStr s) = Some s"
| "val_str _ = None"

definition get_tinyint :: "ObObj \<Rightarrow> 8 word option" where
  "get_tinyint obj = map_option ucast (val64 (v' obj))"

definition get_smallint :: "ObObj \<Rightarrow> 16 word option" where
  "get_smallint obj = map_option ucast (val64 (v' obj))"

definition get_mediumint :: "ObObj \<Rightarrow> 32 word option" where
  "get_mediumint obj = map_option ucast (val64 (v' obj))"

definition get_int32 :: "ObObj \<Rightarrow> 32 word option" where
  "get_int32 obj = map_option ucast (val64 (v' obj))"

definition get_int :: "ObObj \<Rightarrow> 64 word option" where
  "get_int obj = val64 (v' obj)"

definition get_utinyint :: "ObObj \<Rightarrow> 8 word option" where
  "get_utinyint obj = map_option ucast (val64 (v' obj))"

definition get_usmallint :: "ObObj \<Rightarrow> 16 word option" where
  "get_usmallint obj = map_option ucast (val64 (v' obj))"

definition get_umediumint :: "ObObj \<Rightarrow> 32 word option" where
  "get_umediumint obj = map_option ucast (val64 (v' obj))"

definition get_uint32 :: "ObObj \<Rightarrow> 32 word option" where
  "get_uint32 obj = map_option ucast (val64 (v' obj))"

definition get_uint64 :: "ObObj \<Rightarrow> 64 word option" where
  "get_uint64 obj = val64 (v' obj)"

definition get_float :: "ObObj \<Rightarrow> 32 word option" where
  "get_float obj = val32 (v' obj)"

definition get_double :: "ObObj \<Rightarrow> 64 word option" where
  "get_double obj = val64 (v' obj)"

definition get_ufloat :: "ObObj \<Rightarrow> 32 word option" where
  "get_ufloat obj = val32 (v' obj)"

definition get_udouble :: "ObObj \<Rightarrow> 64 word option" where
  "get_udouble obj = val64 (v' obj)"

definition get_type :: "ObObjMeta \<Rightarrow> byte" where
  "get_type meta = type_' meta"

text \<open>The setters of the meta part that the source spells out per type share one shape.\<close>

definition set_meta :: "ObObjMeta \<Rightarrow> ObObjType \<Rightarrow> ObCollationLevel \<Rightarrow> ObObjMeta" where
  "set_meta meta t lvl = meta\<lparr>type_' := of_nat (ob_type_code t), cs_level' := cs_level_code lvl,
     cs_type' := cs_type_code CS_TYPE_BINARY\<rparr>"

definition set_null_meta :: "ObObjMeta \<Rightarrow> ObObjMeta" where
  "set_null_meta meta = set_meta meta ObNullType CS_LEVEL_IGNORABLE"

definition set_tinyint_meta :: "ObObjMeta \<Rightarrow> ObObjMeta" where
  "set_tinyint_meta meta = set_meta meta ObTinyIntType CS_LEVEL_NUMERIC"

definition set_smallint_meta :: "ObObjMeta \<Rightarrow> ObObjMeta" where
  "set_smallint_meta meta = set_meta meta ObSmallIntType CS_LEVEL_NUMERIC"

definition set_mediumint_meta :: "ObObjMeta \<Rightarrow> ObObjMeta" where
  "set_mediumint_meta meta = set_meta meta ObMediumIntType CS_LEVEL_NUMERIC"

definition set_int32_meta :: "ObObjMeta \<Rightarrow> ObObjMeta" where
  "set_int32_meta meta = set_meta meta ObInt32Type CS_LEVEL_NUMERIC"

definition set_int_meta :: "ObObjMeta \<Rightarrow> ObObjMeta" where
  "set_int_meta meta = set_meta meta ObIntType CS_LEVEL_NUMERIC"

definition set_utinyint_meta :: "ObObjMeta \<Rightarrow> ObObjMeta" where
  "set_utinyint_meta meta = set_meta meta ObUTinyIntType CS_LEVEL_NUMERIC"

definition set_usmallint_meta :: "ObObjMeta \<Rightarrow> ObObjMeta" where
  "set_usmallint_meta meta = set_meta meta ObUSmallIntType CS_LEVEL_NUMERIC"

definition set_umediumint_meta :: "ObObjMeta \<Rightarrow> ObObjMeta" where
  "set_umediumint_meta meta = set_meta meta ObUMediumIntType CS_LEVEL_NUMERIC"

definition set_uint32_meta :: "ObObjMeta \<Rightarrow> ObObjMeta" where
  "set_uint32_meta meta = set_meta meta ObUInt32Type CS_LEVEL_NUMERIC"

definition set_uint64_meta :: "ObObjMeta \<Rightarrow> ObObjMeta" where
  "set_uint64_meta meta = set_meta meta ObUInt64Type CS_LEVEL_NUMERIC"

definition set_float_meta :: "ObObjMeta \<Rightarrow> ObObjMeta" where
  "set_float_meta meta = set_meta meta ObFloatType CS_LEVEL_NUMERIC"

definition set_double_meta :: "ObObjMeta \<Rightarrow> ObObjMeta" where
  "set_double_meta meta = set_meta meta ObDoubleType CS_LEVEL_NUMERIC"

definition set_ufloat_meta :: "ObObjMeta \<Rightarrow> ObObjMeta" where
  "set_ufloat_meta meta = set_meta meta ObUFloatType CS_LEVEL_NUMERIC"

definition set_udouble_meta :: "ObObjMeta \<Rightarrow> ObObjMeta" where
  "set_udouble_meta meta = set_meta meta ObUDoubleType CS_LEVEL_NUMERIC"

definition set_varchar_meta :: "ObObjMeta \<Rightarrow> ObObjMeta" where
  "set_varchar_meta meta = meta\<lparr>type_' := of_nat (ob_type_code ObVarcharType)\<rparr>"

definition set_tinyint :: "ObObj \<Rightarrow> 8 word \<Rightarrow> ObObj" where
  "set_tinyint obj value = obj\<lparr>meta' := set_tinyint_meta (meta' obj), v' := V64 (scast value)\<rparr>"

definition set_tinyint_value :: "ObObj \<Rightarrow> 8 word \<Rightarrow> ObObj" where
  "set_tinyint_value obj value = obj\<lparr>v' := V64 (scast value)\<rparr>"

definition set_smallint :: "ObObj \<Rightarrow> 16 word \<Rightarrow> ObObj" where
  "set_smallint obj value = obj\<lparr>meta' := set_smallint_meta (meta' obj), v' := V64 (scast value)\<rparr>"

definition set_smallint_value :: "ObObj \<Rightarrow> 16 word \<Rightarrow> ObObj" where
  "set_smallint_value obj value = obj\<lparr>v' := V64 (scast value)\<rparr>"

definition set_mediumint :: "ObObj \<Rightarrow> 32 word \<Rightarrow> ObObj" where
  "set_mediumint obj value = obj\<lparr>meta' := set_mediumint_meta (meta' obj), v' := V64 (scast value)\<rparr>"

definition set_int32 :: "ObObj \<Rightarrow> 32 word \<Rightarrow> ObObj" where
  "set_int32 obj value = obj\<lparr>meta' := set_int32_meta (meta' obj), v' := V64 (scast value)\<rparr>"

definition set_int32_value :: "ObObj \<Rightarrow> 32 word \<Rightarrow> ObObj" where
  "set_int32_value obj value = obj\<lparr>v' := V64 (scast value)\<rparr>"

definition set_int :: "ObObj \<Rightarrow> 64 word \<Rightarrow> ObObj" where
  "set_int obj value = obj\<lparr>meta' := set_int_meta (meta' obj), v' := V64 value\<rparr>"

definition set_int_value :: "ObObj \<Rightarrow> 64 word \<Rightarrow> ObObj" where
  "set_int_value obj value = obj\<lparr>v' := V64 value\<rparr>"

definition set_utinyint :: "ObObj \<Rightarrow> 8 word \<Rightarrow> ObObj" where
  "set_utinyint obj value = obj\<lparr>meta' := set_utinyint_meta (meta' obj), v' := V64 (ucast value)\<rparr>"

definition set_usmallint :: "ObObj \<Rightarrow> 16 word \<Rightarrow> ObObj" where
  "set_usmallint obj value = obj\<lparr>meta' := set_usmallint_meta (meta' obj), v' := V64 (ucast value)\<rparr>"

definition set_umediumint :: "ObObj \<Rightarrow> 32 word \<Rightarrow> ObObj" where
  "set_umediumint obj value = obj\<lparr>meta' := set_umediumint_meta (meta' obj), v' := V64 (ucast value)\<rparr>"

definition set_uint32 :: "ObObj \<Rightarrow> 32 word \<Rightarrow> ObObj" where
  "set_uint32 obj value = obj\<lparr>meta' := set_uint32_meta (meta' obj), v' := V64 (ucast value)\<rparr>"

definition set_uint64 :: "ObObj \<Rightarrow> 64 word \<Rightarrow> ObObj" where
  "set_uint64 obj value = obj\<lparr>meta' := set_uint64_meta (meta' obj), v' := V64 value\<rparr>"

definition set_float :: "ObObj \<Rightarrow> 32 word \<Rightarrow> ObObj" where
  "set_float obj value = obj\<lparr>meta' := set_float_meta (meta' obj), v' := V32 value\<rparr>"

definition set_float_value :: "ObObj \<Rightarrow> 32 word \<Rightarrow> ObObj" where
  "set_float_value obj value = obj\<lparr>v' := V32 value\<rparr>"

definition set_ufloat :: "ObObj \<Rightarrow> 32 word \<Rightarrow> ObObj" where
  "set_ufloat obj value = obj\<lparr>meta' := set_ufloat_meta (meta' obj), v' := V32 value\<rparr>"

definition set_double :: "ObObj \<Rightarrow> 64 word \<Rightarrow> ObObj" where
  "set_double obj value = obj\<lparr>meta' := set_double_meta (meta' obj), v' := V64 value\<rparr>"

definition set_double_value :: "ObObj \<Rightarrow> 64 word \<Rightarrow> ObObj" where
  "set_double_value obj value = obj\<lparr>v' := V64 value\<rparr>"

definition set_udouble :: "ObObj \<Rightarrow> 64 word \<Rightarrow> ObObj" where
  "set_udouble obj value = obj\<lparr>meta' := set_udouble_meta (meta' obj), v' := V64 value\<rparr>"

definition set_varchar :: "ObObj \<Rightarrow> cbuf \<Rightarrow> 32 word \<Rightarrow> ObObj" where
  "set_varchar obj ptr sz = obj\<lparr>
     meta' := (set_varchar_meta (meta' obj))\<lparr>cs_level' := cs_level_code CS_LEVEL_IMPLICIT\<rparr>,
     v' := VStr ptr, val_len' := sz\<rparr>"

subsection \<open>Serialisation of a value\<close>

text \<open>
  The functions of \<^verbatim>\<open>DEF_SERIALIZE_FUNCS\<close>, over the getter, the setter and the codec the macro
  is instantiated with.  The variable that the decoder fills is not initialised: \<open>junk\<close> stands
  for its content, which reaches the object when no byte is left to decode.
\<close>

type_synonym obj_serialize = "ObObj \<Rightarrow> cbuf \<Rightarrow> int \<Rightarrow> int \<Rightarrow> (int \<times> cbuf \<times> int) option"
type_synonym obj_deserialize = "64 word \<Rightarrow> ObObj \<Rightarrow> cbuf \<Rightarrow> int \<Rightarrow> int \<Rightarrow> (int \<times> ObObj \<times> int) option"
type_synonym obj_size = "ObObj \<Rightarrow> int option"

definition def_serialize ::
  "(ObObj \<Rightarrow> 'v option) \<Rightarrow> (cbuf \<Rightarrow> int \<Rightarrow> int \<Rightarrow> 'v \<Rightarrow> (int \<times> cbuf \<times> int) option) \<Rightarrow> obj_serialize" where
  "def_serialize get encode obj buf buf_len pos = do { v \<leftarrow> get obj; encode buf buf_len pos v }"

definition def_deserialize ::
  "(ObObj \<Rightarrow> ('a::len) word \<Rightarrow> ObObj)
   \<Rightarrow> (cbuf \<Rightarrow> int \<Rightarrow> int \<Rightarrow> 'a word \<Rightarrow> (int \<times> 'a word \<times> int) option) \<Rightarrow> obj_deserialize" where
  "def_deserialize setv decode junk obj buf data_len pos = do {
     (ret, v, pos) \<leftarrow> (if pos < data_len then decode buf data_len pos (ucast junk)
                      else Some (OB_SUCCESS, ucast junk, pos));
     Some (ret, if ret = OB_SUCCESS then setv obj v else obj, pos) }"

definition def_serialize_size :: "(ObObj \<Rightarrow> 'v option) \<Rightarrow> ('v \<Rightarrow> int) \<Rightarrow> obj_size" where
  "def_serialize_size get encoded_length obj = do { v \<leftarrow> get obj; Some (encoded_length v) }"

record ObObjTypeFuncs =
  serialize :: obj_serialize
  deserialize :: obj_deserialize
  get_serialize_size :: obj_size

definition def_func_entry :: "(ObObj \<Rightarrow> ('a::len) word option) \<Rightarrow> (ObObj \<Rightarrow> 'a word \<Rightarrow> ObObj)
    \<Rightarrow> (cbuf \<Rightarrow> int \<Rightarrow> int \<Rightarrow> 'a word \<Rightarrow> (int \<times> cbuf \<times> int) option)
    \<Rightarrow> (cbuf \<Rightarrow> int \<Rightarrow> int \<Rightarrow> 'a word \<Rightarrow> (int \<times> 'a word \<times> int) option)
    \<Rightarrow> ('a word \<Rightarrow> int) \<Rightarrow> ObObjTypeFuncs" where
  "def_func_entry get setv encode decode encoded_length =
     \<lparr>serialize = def_serialize get encode, deserialize = def_deserialize setv decode,
      get_serialize_size = def_serialize_size get encoded_length\<rparr>"

definition obj_val_ObTinyIntType :: ObObjTypeFuncs where
  "obj_val_ObTinyIntType = def_func_entry get_tinyint set_tinyint encode_int8_t decode_int8_t encoded_length_int8_t"

definition obj_val_ObSmallIntType :: ObObjTypeFuncs where
  "obj_val_ObSmallIntType = def_func_entry get_smallint set_smallint encode_int16_t decode_int16_t encoded_length_int16_t"

definition obj_val_ObMediumIntType :: ObObjTypeFuncs where
  "obj_val_ObMediumIntType = def_func_entry get_mediumint set_mediumint encode_int32_t decode_int32_t encoded_length_int32_t"

definition obj_val_ObInt32Type :: ObObjTypeFuncs where
  "obj_val_ObInt32Type = def_func_entry get_int32 set_int32 encode_int32_t decode_int32_t encoded_length_int32_t"

definition obj_val_ObIntType :: ObObjTypeFuncs where
  "obj_val_ObIntType = def_func_entry get_int set_int encode_int64_t decode_int64_t encoded_length_int64_t"

definition obj_val_ObUTinyIntType :: ObObjTypeFuncs where
  "obj_val_ObUTinyIntType = def_func_entry get_utinyint set_utinyint encode_uint8_t decode_uint8_t encoded_length_uint8_t"

definition obj_val_ObUSmallIntType :: ObObjTypeFuncs where
  "obj_val_ObUSmallIntType = def_func_entry get_usmallint set_usmallint encode_uint16_t decode_uint16_t encoded_length_uint16_t"

definition obj_val_ObUMediumIntType :: ObObjTypeFuncs where
  "obj_val_ObUMediumIntType = def_func_entry get_umediumint set_umediumint encode_uint32_t decode_uint32_t encoded_length_uint32_t"

definition obj_val_ObUInt32Type :: ObObjTypeFuncs where
  "obj_val_ObUInt32Type = def_func_entry get_uint32 set_uint32 encode_uint32_t decode_uint32_t encoded_length_uint32_t"

definition obj_val_ObUInt64Type :: ObObjTypeFuncs where
  "obj_val_ObUInt64Type = def_func_entry get_uint64 set_uint64 encode_uint64_t decode_uint64_t encoded_length_uint64_t"

definition obj_val_ObFloatType :: ObObjTypeFuncs where
  "obj_val_ObFloatType = def_func_entry get_float set_float encode_float decode_float encoded_length_float"

definition obj_val_ObDoubleType :: ObObjTypeFuncs where
  "obj_val_ObDoubleType = def_func_entry get_double set_double encode_double decode_double encoded_length_double"

definition obj_val_ObUFloatType :: ObObjTypeFuncs where
  "obj_val_ObUFloatType = def_func_entry get_ufloat set_ufloat encode_float decode_float encoded_length_float"

definition obj_val_ObUDoubleType :: ObObjTypeFuncs where
  "obj_val_ObUDoubleType = def_func_entry get_udouble set_udouble encode_double decode_double encoded_length_double"

definition obj_val_serialize_ObVarcharType :: obj_serialize where
  "obj_val_serialize_ObVarcharType obj buf buf_len pos = do {
     s \<leftarrow> val_str (v' obj);
     (_, buf, pos) \<leftarrow> encode_vstr_with_len buf buf_len pos s (sint (val_len' obj));
     Some (OB_SUCCESS, buf, pos) }"

definition obj_val_deserialize_ObVarcharType :: obj_deserialize where
  "obj_val_deserialize_ObVarcharType junk obj buf data_len pos =
     (if buf = None \<or> data_len - pos < 2 then Some (OB_ERROR, obj, pos)
      else do {
        m \<leftarrow> buf;
        (p, len, pos) \<leftarrow> decode_vstr_nocopy buf data_len pos (Some 0);
        (case p of
           None \<Rightarrow> Some (OB_ERROR, obj\<lparr>v' := VStr None\<rparr>, pos)
         | Some off \<Rightarrow> do {
             l \<leftarrow> len;
             Some (OB_SUCCESS, obj\<lparr>v' := VStr (Some (drop (nat off) m)), val_len' := word_of_int l\<rparr>, pos) }) })"

definition obj_val_get_serialize_size_ObVarcharType :: obj_size where
  "obj_val_get_serialize_size_ObVarcharType obj =
     Some (encoded_length_vstr_with_len (sint (val_len' obj)))"

definition obj_val_serialize_ObNullType :: obj_serialize where
  "obj_val_serialize_ObNullType obj buf buf_len pos = Some (OB_ERROR, buf, pos)"

definition obj_val_deserialize_ObNullType :: obj_deserialize where
  "obj_val_deserialize_ObNullType junk obj buf data_len pos = Some (OB_ERROR, obj, pos)"

definition obj_val_get_serialize_size_ObNullType :: obj_size where
  "obj_val_get_serialize_size_ObNullType obj = Some 0"

definition obj_val_ObVarcharType :: ObObjTypeFuncs where
  "obj_val_ObVarcharType = \<lparr>serialize = obj_val_serialize_ObVarcharType,
     deserialize = obj_val_deserialize_ObVarcharType,
     get_serialize_size = obj_val_get_serialize_size_ObVarcharType\<rparr>"

definition obj_val_ObNullType :: ObObjTypeFuncs where
  "obj_val_ObNullType = \<lparr>serialize = obj_val_serialize_ObNullType,
     deserialize = obj_val_deserialize_ObNullType,
     get_serialize_size = obj_val_get_serialize_size_ObNullType\<rparr>"

subsection \<open>Serialisation of an object\<close>

text \<open>The results of the four single-byte calls are dropped in the source: only buffer and position go on.\<close>

definition serialize_ObObjMeta :: "ObObjMeta \<Rightarrow> cbuf \<Rightarrow> int \<Rightarrow> int \<Rightarrow> (int \<times> cbuf \<times> int) option" where
  "serialize_ObObjMeta meta buf buf_len pos = do {
     (_, buf, pos) \<leftarrow> encode_uint8_t buf buf_len pos (type_' meta);
     (_, buf, pos) \<leftarrow> encode_uint8_t buf buf_len pos (cs_level' meta);
     (_, buf, pos) \<leftarrow> encode_uint8_t buf buf_len pos (cs_type' meta);
     (_, buf, pos) \<leftarrow> encode_int8_t buf buf_len pos (scale' meta);
     Some (OB_SUCCESS, buf, pos) }"

definition deserialize_ObObjMeta ::
  "ObObjMeta \<Rightarrow> cbuf \<Rightarrow> int \<Rightarrow> int \<Rightarrow> (int \<times> ObObjMeta \<times> int) option" where
  "deserialize_ObObjMeta meta buf data_len pos = do {
     (_, t, pos) \<leftarrow> decode_uint8_t buf data_len pos (type_' meta);
     (_, l, pos) \<leftarrow> decode_uint8_t buf data_len pos (cs_level' meta);
     (_, c, pos) \<leftarrow> decode_uint8_t buf data_len pos (cs_type' meta);
     (_, s, pos) \<leftarrow> decode_int8_t buf data_len pos (scale' meta);
     Some (OB_SUCCESS, meta\<lparr>type_' := t, cs_level' := l, cs_type' := c, scale' := s\<rparr>, pos) }"

definition get_serialize_size_ObObjMeta :: "ObObjMeta \<Rightarrow> int" where
  "get_serialize_size_ObObjMeta meta =
     encoded_length_uint8_t (type_' meta) + encoded_length_uint8_t (cs_level' meta)
     + encoded_length_uint8_t (cs_type' meta) + encoded_length_int8_t (scale' meta)"

text \<open>\<^verbatim>\<open>OBJ_FUNCS\<close> has \<^verbatim>\<open>ObMaxType\<close> (47) entries; the initialiser gives 45, so the last two are null.\<close>

definition OBJ_FUNCS :: "ObObjTypeFuncs option list" where
  "OBJ_FUNCS = map Some (
     [obj_val_ObNullType,
      obj_val_ObTinyIntType,
      obj_val_ObSmallIntType,
      obj_val_ObMediumIntType,
      obj_val_ObInt32Type,
      obj_val_ObIntType,
      obj_val_ObUTinyIntType,
      obj_val_ObUSmallIntType,
      obj_val_ObUMediumIntType,
      obj_val_ObUInt32Type,
      obj_val_ObUInt64Type,
      obj_val_ObFloatType,
      obj_val_ObDoubleType,
      obj_val_ObUFloatType,
      obj_val_ObUDoubleType]
     @ replicate 7 obj_val_ObNullType @ [obj_val_ObVarcharType] @ replicate 22 obj_val_ObNullType)
     @ [None, None]"

definition obj_funcs :: "byte \<Rightarrow> ObObjTypeFuncs option" where
  "obj_funcs t = (if unat t < length OBJ_FUNCS then OBJ_FUNCS ! unat t else None)"

definition serialize_ObObj :: obj_serialize where
  "serialize_ObObj obj buf buf_len pos = do {
     (ret, buf, pos) \<leftarrow> serialize_ObObjMeta (meta' obj) buf buf_len pos;
     if ret = OB_SUCCESS then
       (if unat (type_' (meta' obj)) \<le> ob_type_code ObMaxType
        then do { f \<leftarrow> obj_funcs (get_type (meta' obj)); serialize f obj buf buf_len pos }
        else Some (OB_ERROR, buf, pos))
     else Some (ret, buf, pos) }"

definition deserialize_ObObj :: obj_deserialize where
  "deserialize_ObObj junk obj buf data_len pos = do {
     (ret, meta, pos) \<leftarrow> deserialize_ObObjMeta (meta' obj) buf data_len pos;
     let obj = obj\<lparr>meta' := meta\<rparr>;
     if ret = OB_SUCCESS then
       (if unat (type_' (meta' obj)) \<le> ob_type_code ObMaxType
        then do { f \<leftarrow> obj_funcs (get_type (meta' obj)); deserialize f junk obj buf data_len pos }
        else Some (OB_ERROR, obj, pos))
     else Some (ret, obj, pos) }"

definition get_serialize_size_ObObj :: obj_size where
  "get_serialize_size_ObObj obj = do {
     f \<leftarrow> obj_funcs (get_type (meta' obj));
     n \<leftarrow> get_serialize_size f obj;
     Some (get_serialize_size_ObObjMeta (meta' obj) + n) }"

subsection \<open>The meta part\<close>

definition meta_bytes :: "ObObjMeta \<Rightarrow> mem" where
  "meta_bytes meta = [type_' meta, cs_level' meta, cs_type' meta, scale' meta]"

lemma length_meta_bytes [simp]: "length (meta_bytes meta) = 4"
  by (simp add: meta_bytes_def)

lemma meta_size: "get_serialize_size_ObObjMeta meta = 4"
  by (simp add: get_serialize_size_ObObjMeta_def encoded_length_uint8_t_def encoded_length_int8_t_def)

lemma encode_i8_put:
  "0 \<le> pos \<Longrightarrow> pos + 1 \<le> len \<Longrightarrow> len \<le> int (length m) \<Longrightarrow> len < 2 ^ 31 \<Longrightarrow>
   encode_i8 (Some m) len pos v = Some (OB_SUCCESS, Some (put m pos [v]), pos + 1)"
  using i8.write_fits [where v = v and pos = pos and len = len and m = m] by simp

lemma put_put_snoc:
  "0 \<le> a \<Longrightarrow> nat a + length xs + 1 \<le> length m \<Longrightarrow> p = a + int (length xs) \<Longrightarrow>
   put (put m a xs) p [y] = put m a (xs @ [y])"
  using put_put_adjacent [of a xs "[y]" m] by simp

lemma meta_fits:
  assumes "0 \<le> pos" and "pos + 4 \<le> len" and "len \<le> int (length m)" and "len < 2 ^ 31"
  shows "serialize_ObObjMeta meta (Some m) len pos = Some (OB_SUCCESS, Some (put m pos (meta_bytes meta)), pos + 4)"
  using assms
  by (simp add: serialize_ObObjMeta_def encode_uint8_t_def encode_int8_t_def encode_i8_put
      put_put_snoc meta_bytes_def add.assoc)

lemma decode_i8_at:
  "load_byte m pos = Some b \<Longrightarrow> pos + 1 \<le> len \<Longrightarrow> len \<le> int (length m) \<Longrightarrow> len < 2 ^ 31 \<Longrightarrow>
   decode_i8 (Some m) len pos old = Some (OB_SUCCESS, b, pos + 1)"
  using i8.read_enc [where v = b and pos = pos and len = len and m = m]
  by (auto simp: holds_at_def load_bytes_1)

lemma meta_read:
  assumes "holds_at m pos (meta_bytes meta)" and "pos + 4 \<le> len" and "len \<le> int (length m)" and "len < 2 ^ 31"
  shows "deserialize_ObObjMeta old (Some m) len pos = Some (OB_SUCCESS, meta, pos + 4)"
  using assms
  by (simp add: deserialize_ObObjMeta_def decode_uint8_t_def decode_int8_t_def decode_i8_at
      holds_at_Cons meta_bytes_def add.assoc)

lemma obj_funcs_index: "obj_funcs t = Some f \<Longrightarrow> unat t \<le> 47"
  by (simp add: obj_funcs_def OBJ_FUNCS_def split: if_splits)

subsection \<open>Contract of a table entry\<close>

text \<open>
  \<open>good\<close> describes the objects an entry is meant for and \<open>enc\<close> their bytes.  A good object is
  written when it fits, its size is announced, and reading its bytes into any object that
  already carries its meta part restores the value.
\<close>

locale obj_entry =
  fixes f :: ObObjTypeFuncs
    and good :: "ObObj \<Rightarrow> bool"
    and enc :: "ObObj \<Rightarrow> mem"
  assumes ser_fits:
      "\<lbrakk>good obj; 0 \<le> pos; pos + int (length (enc obj)) \<le> len; len \<le> int (length m); len < 2 ^ 31\<rbrakk>
       \<Longrightarrow> serialize f obj (Some m) len pos
           = Some (OB_SUCCESS, Some (put m pos (enc obj)), pos + int (length (enc obj)))"
    and ser_size: "good obj \<Longrightarrow> get_serialize_size f obj = Some (int (length (enc obj)))"
    and deser_enc:
      "\<lbrakk>good obj; meta' obj' = meta' obj; holds_at m pos (enc obj); pos + int (length (enc obj)) \<le> len;
        len \<le> int (length m); len < 2 ^ 31\<rbrakk>
       \<Longrightarrow> deserialize f junk obj' (Some m) len pos
           = Some (OB_SUCCESS, obj'\<lparr>v' := v' obj\<rparr>, pos + int (length (enc obj)))"
begin

lemma obj_fits:
  assumes "good obj" and "obj_funcs (type_' (meta' obj)) = Some f" and "0 \<le> pos"
    and "pos + 4 + int (length (enc obj)) \<le> len" and "len \<le> int (length m)" and "len < 2 ^ 31"
  shows "serialize_ObObj obj (Some m) len pos =
      Some (OB_SUCCESS, Some (put m pos (meta_bytes (meta' obj) @ enc obj)), pos + 4 + int (length (enc obj)))"
proof -
  let ?b = "meta_bytes (meta' obj)"
  have "serialize_ObObjMeta (meta' obj) (Some m) len pos = Some (OB_SUCCESS, Some (put m pos ?b), pos + 4)"
    using assms by (intro meta_fits) simp_all
  moreover have "serialize f obj (Some (put m pos ?b)) len (pos + 4) =
      Some (OB_SUCCESS, Some (put (put m pos ?b) (pos + 4) (enc obj)), pos + 4 + int (length (enc obj)))"
    using assms by (intro ser_fits) simp_all
  moreover have "put (put m pos ?b) (pos + 4) (enc obj) = put m pos (?b @ enc obj)"
    using assms put_put_adjacent [of pos ?b "enc obj" m] by simp
  ultimately show ?thesis
    using assms(2) by (simp add: serialize_ObObj_def get_type_def obj_funcs_index)
qed

lemma obj_size:
  assumes "good obj" and "obj_funcs (type_' (meta' obj)) = Some f"
  shows "get_serialize_size_ObObj obj = Some (4 + int (length (enc obj)))"
  using assms ser_size [OF assms(1)]
  by (simp add: get_serialize_size_ObObj_def get_type_def meta_size)

lemma obj_read:
  assumes "good obj" and "obj_funcs (type_' (meta' obj)) = Some f"
    and "holds_at m pos (meta_bytes (meta' obj) @ enc obj)"
    and "pos + 4 + int (length (enc obj)) \<le> len" and "len \<le> int (length m)" and "len < 2 ^ 31"
  shows "deserialize_ObObj junk obj' (Some m) len pos =
      Some (OB_SUCCESS, obj'\<lparr>meta' := meta' obj, v' := v' obj\<rparr>, pos + 4 + int (length (enc obj)))"
proof -
  have "deserialize_ObObjMeta (meta' obj') (Some m) len pos = Some (OB_SUCCESS, meta' obj, pos + 4)"
    using assms by (intro meta_read) (simp_all add: holds_at_append)
  moreover have "deserialize f junk (obj'\<lparr>meta' := meta' obj\<rparr>) (Some m) len (pos + 4) =
      Some (OB_SUCCESS, obj'\<lparr>meta' := meta' obj, v' := v' obj\<rparr>, pos + 4 + int (length (enc obj)))"
    using assms deser_enc [of obj "obj'\<lparr>meta' := meta' obj\<rparr>"] by (simp add: holds_at_append)
  ultimately show ?thesis
    using assms(2) by (simp add: deserialize_ObObj_def get_type_def obj_funcs_index Let_def)
qed

text \<open>An object written is read back, and the size announced is the number of bytes taken.\<close>

lemma obj_roundtrip:
  assumes "good obj" and "obj_funcs (type_' (meta' obj)) = Some f" and "0 \<le> pos"
    and "get_serialize_size_ObObj obj = Some n" and "pos + n \<le> len" and "len \<le> int (length m)" and "len < 2 ^ 31"
  shows "\<exists>m'. serialize_ObObj obj (Some m) len pos = Some (OB_SUCCESS, Some m', pos + n)
    \<and> deserialize_ObObj junk obj' (Some m') len pos
        = Some (OB_SUCCESS, obj'\<lparr>meta' := meta' obj, v' := v' obj\<rparr>, pos + n)"
proof -
  have n: "n = 4 + int (length (enc obj))" using assms obj_size by simp
  then have le: "nat pos + length (meta_bytes (meta' obj) @ enc obj) \<le> length m"
    using assms by simp
  let ?m = "put m pos (meta_bytes (meta' obj) @ enc obj)"
  have "serialize_ObObj obj (Some m) len pos = Some (OB_SUCCESS, Some ?m, pos + n)"
    using obj_fits [OF assms(1-3), of len m] assms(5-7) n by (simp add: add.assoc)
  moreover have "holds_at ?m pos (meta_bytes (meta' obj) @ enc obj)"
    using le assms(3) by (rule holds_at_put [rotated])
  then have "deserialize_ObObj junk obj' (Some ?m) len pos
      = Some (OB_SUCCESS, obj'\<lparr>meta' := meta' obj, v' := v' obj\<rparr>, pos + n)"
    using obj_read [OF assms(1,2), of ?m pos len junk obj'] assms(3,5-7) n le by (simp add: add.assoc)
  ultimately show ?thesis by blast
qed

end

locale numeric_entry = codec wr rd enc "\<lambda>_. True" OB_SIZE_OVERFLOW
  for wr :: "cbuf \<Rightarrow> int \<Rightarrow> int \<Rightarrow> ('a::len) word \<Rightarrow> (int \<times> cbuf \<times> int) option"
    and rd :: "cbuf \<Rightarrow> int \<Rightarrow> int \<Rightarrow> 'a word \<Rightarrow> (int \<times> 'a word \<times> int) option"
    and enc :: "'a word \<Rightarrow> mem" +
  fixes get :: "ObObj \<Rightarrow> 'a word option"
    and setv :: "ObObj \<Rightarrow> 'a word \<Rightarrow> ObObj"
    and lenf :: "'a word \<Rightarrow> int"
  assumes lenf: "lenf v = int (length (enc v))"
    and enc_nonempty: "enc v \<noteq> []"
    and get_set: "get (setv obj v) = Some v"
    and set_value: "meta' obj' = meta' (setv obj v) \<Longrightarrow> setv obj' v = obj'\<lparr>v' := v' (setv obj v)\<rparr>"

definition set_by :: "(ObObj \<Rightarrow> 'v \<Rightarrow> ObObj) \<Rightarrow> ObObj \<Rightarrow> bool" where
  "set_by setv obj \<longleftrightarrow> (\<exists>obj0 v. obj = setv obj0 v)"

sublocale numeric_entry \<subseteq> entry: obj_entry "def_func_entry get setv wr rd lenf" "set_by setv"
  "\<lambda>obj. enc (the (get obj))"
proof unfold_locales
  fix obj pos len and m :: mem
  assume "set_by setv obj" "0 \<le> pos" "pos + int (length (enc (the (get obj)))) \<le> len"
    "len \<le> int (length m)" "len < 2 ^ 31"
  then show "serialize (def_func_entry get setv wr rd lenf) obj (Some m) len pos =
    Some (OB_SUCCESS, Some (put m pos (enc (the (get obj)))), pos + int (length (enc (the (get obj)))))"
    by (auto simp: set_by_def def_func_entry_def def_serialize_def get_set intro!: write_fits)
next
  fix obj
  assume "set_by setv obj"
  then show "get_serialize_size (def_func_entry get setv wr rd lenf) obj = Some (int (length (enc (the (get obj)))))"
    by (auto simp: set_by_def def_func_entry_def def_serialize_size_def get_set lenf)
next
  fix obj obj' :: ObObj and pos len junk and m :: mem
  assume a: "set_by setv obj" "meta' obj' = meta' obj" "holds_at m pos (enc (the (get obj)))"
    "pos + int (length (enc (the (get obj)))) \<le> len" "len \<le> int (length m)" "len < 2 ^ 31"
  from a(1) obtain obj0 v where obj: "obj = setv obj0 v" by (auto simp: set_by_def)
  have "pos < len" using a(4) enc_nonempty [of v] by (simp add: obj get_set) (cases "enc v", auto)
  with a read_enc [where v = v and pos = pos and len = len and m = m] set_value [of obj' obj0 v]
  show "deserialize (def_func_entry get setv wr rd lenf) junk obj' (Some m) len pos =
    Some (OB_SUCCESS, obj'\<lparr>v' := v' obj\<rparr>, pos + int (length (enc (the (get obj)))))"
    by (simp add: obj get_set def_func_entry_def def_deserialize_def)
qed


text \<open>The codecs behind the remaining C types.\<close>

interpretation uint64_t: codec encode_uint64_t decode_uint64_t vi_bytes "\<lambda>_. True" OB_SIZE_OVERFLOW
  unfolding encode_uint64_t_def decode_uint64_t_def
  by unfold_locales (auto simp: vi64.write_fits vi64.write_full vi64.write_null vi64.read_enc)

interpretation uint32_t: codec encode_uint32_t decode_uint32_t vi_bytes "\<lambda>_. True" OB_SIZE_OVERFLOW
  unfolding encode_uint32_t_def decode_uint32_t_def
  by unfold_locales (auto simp: vi32.write_fits vi32.write_full vi32.write_null vi32.read_enc)

interpretation int8_t: codec encode_int8_t decode_int8_t "\<lambda>v. [v]" "\<lambda>_. True" OB_SIZE_OVERFLOW
  unfolding encode_int8_t_def decode_int8_t_def
  by unfold_locales (auto simp: i8.write_fits i8.write_full i8.write_null i8.read_enc)

interpretation uint8_t: codec encode_uint8_t decode_uint8_t "\<lambda>v. [v]" "\<lambda>_. True" OB_SIZE_OVERFLOW
  unfolding encode_uint8_t_def decode_uint8_t_def
  by unfold_locales (auto simp: i8.write_fits i8.write_full i8.write_null i8.read_enc)

interpretation float_t: codec encode_float decode_float vi_bytes "\<lambda>_. True" OB_SIZE_OVERFLOW
  unfolding encode_float_def decode_float_def
  by unfold_locales (auto simp: vi32.write_fits vi32.write_full vi32.write_null vi32.read_enc)

interpretation double_t: codec encode_double decode_double vi_bytes "\<lambda>_. True" OB_SIZE_OVERFLOW
  unfolding encode_double_def decode_double_def
  by unfold_locales (auto simp: vi64.write_fits vi64.write_full vi64.write_null vi64.read_enc)

lemma ucast_scast_word:
  "LENGTH('a::len) \<le> LENGTH('b::len) \<Longrightarrow> ucast (scast (v :: 'a word) :: 'b word) = v"
  by (rule bit_word_eqI) (auto simp: bit_simps)

lemma ucast_ucast_word:
  "LENGTH('a::len) \<le> LENGTH('b::len) \<Longrightarrow> ucast (ucast (v :: 'a word) :: 'b word) = v"
  by (rule bit_word_eqI) (auto simp: bit_simps)

lemma vi_bytes_nonempty [simp]: "vi_bytes v \<noteq> []"
  by (simp add: vi_bytes_def)

lemmas encoded_length_defs =
  encoded_length_int64_t_def encoded_length_uint64_t_def encoded_length_int32_t_def
  encoded_length_uint32_t_def encoded_length_int16_t_def encoded_length_uint16_t_def
  encoded_length_int8_t_def encoded_length_uint8_t_def encoded_length_float_def
  encoded_length_double_def encoded_length_vi64_eq encoded_length_vi32_eq

lemmas getter_setter_defs =
  get_tinyint_def get_smallint_def get_mediumint_def get_int32_def get_int_def get_utinyint_def
  get_usmallint_def get_umediumint_def get_uint32_def get_uint64_def get_float_def
  get_double_def get_ufloat_def get_udouble_def set_tinyint_def set_tinyint_meta_def
  set_smallint_def set_smallint_meta_def set_mediumint_def set_mediumint_meta_def set_int32_def
  set_int32_meta_def set_int_def set_int_meta_def set_utinyint_def set_utinyint_meta_def
  set_usmallint_def set_usmallint_meta_def set_umediumint_def set_umediumint_meta_def
  set_uint32_def set_uint32_meta_def set_uint64_def set_uint64_meta_def set_float_def
  set_float_meta_def set_double_def set_double_meta_def set_ufloat_def set_ufloat_meta_def
  set_udouble_def set_udouble_meta_def set_meta_def

lemmas numeric_entry_simps = encoded_length_defs getter_setter_defs ucast_scast_word ucast_ucast_word

interpretation tinyint_entry: numeric_entry encode_int8_t decode_int8_t "\<lambda>v. [v]" get_tinyint set_tinyint encoded_length_int8_t
  by unfold_locales (simp_all add: numeric_entry_simps)

interpretation smallint_entry: numeric_entry encode_int16_t decode_int16_t "\<lambda>v. vi_bytes (scast v :: 32 word)" get_smallint set_smallint encoded_length_int16_t
  by unfold_locales (simp_all add: numeric_entry_simps)

interpretation mediumint_entry: numeric_entry encode_int32_t decode_int32_t "vi_bytes" get_mediumint set_mediumint encoded_length_int32_t
  by unfold_locales (simp_all add: numeric_entry_simps)

interpretation int32_entry: numeric_entry encode_int32_t decode_int32_t "vi_bytes" get_int32 set_int32 encoded_length_int32_t
  by unfold_locales (simp_all add: numeric_entry_simps)

interpretation int_entry: numeric_entry encode_int64_t decode_int64_t "vi_bytes" get_int set_int encoded_length_int64_t
  by unfold_locales (simp_all add: numeric_entry_simps)

interpretation utinyint_entry: numeric_entry encode_uint8_t decode_uint8_t "\<lambda>v. [v]" get_utinyint set_utinyint encoded_length_uint8_t
  by unfold_locales (simp_all add: numeric_entry_simps)

interpretation usmallint_entry: numeric_entry encode_uint16_t decode_uint16_t "\<lambda>v. vi_bytes (ucast v :: 32 word)" get_usmallint set_usmallint encoded_length_uint16_t
  by unfold_locales (simp_all add: numeric_entry_simps)

interpretation umediumint_entry: numeric_entry encode_uint32_t decode_uint32_t "vi_bytes" get_umediumint set_umediumint encoded_length_uint32_t
  by unfold_locales (simp_all add: numeric_entry_simps)

interpretation uint32_entry: numeric_entry encode_uint32_t decode_uint32_t "vi_bytes" get_uint32 set_uint32 encoded_length_uint32_t
  by unfold_locales (simp_all add: numeric_entry_simps)

interpretation uint64_entry: numeric_entry encode_uint64_t decode_uint64_t "vi_bytes" get_uint64 set_uint64 encoded_length_uint64_t
  by unfold_locales (simp_all add: numeric_entry_simps)

interpretation float_entry: numeric_entry encode_float decode_float "vi_bytes" get_float set_float encoded_length_float
  by unfold_locales (simp_all add: numeric_entry_simps)

interpretation double_entry: numeric_entry encode_double decode_double "vi_bytes" get_double set_double encoded_length_double
  by unfold_locales (simp_all add: numeric_entry_simps)

interpretation ufloat_entry: numeric_entry encode_float decode_float "vi_bytes" get_ufloat set_ufloat encoded_length_float
  by unfold_locales (simp_all add: numeric_entry_simps)

interpretation udouble_entry: numeric_entry encode_double decode_double "vi_bytes" get_udouble set_udouble encoded_length_double
  by unfold_locales (simp_all add: numeric_entry_simps)

subsection \<open>All numeric objects\<close>

text \<open>The objects that the typed setters produce.\<close>

definition numeric_obj :: "ObObj \<Rightarrow> bool" where
  "numeric_obj obj \<longleftrightarrow>
     set_by set_tinyint obj \<or> set_by set_smallint obj \<or> set_by set_mediumint obj
     \<or> set_by set_int32 obj \<or> set_by set_int obj \<or> set_by set_utinyint obj
     \<or> set_by set_usmallint obj \<or> set_by set_umediumint obj \<or> set_by set_uint32 obj
     \<or> set_by set_uint64 obj \<or> set_by set_float obj \<or> set_by set_double obj
     \<or> set_by set_ufloat obj \<or> set_by set_udouble obj"

lemmas obj_val_defs =
  obj_val_ObTinyIntType_def obj_val_ObSmallIntType_def obj_val_ObMediumIntType_def
  obj_val_ObInt32Type_def obj_val_ObIntType_def obj_val_ObUTinyIntType_def
  obj_val_ObUSmallIntType_def obj_val_ObUMediumIntType_def obj_val_ObUInt32Type_def
  obj_val_ObUInt64Type_def obj_val_ObFloatType_def obj_val_ObDoubleType_def
  obj_val_ObUFloatType_def obj_val_ObUDoubleType_def

lemma obj_funcs_numeric:
  "set_by set_tinyint obj \<Longrightarrow> obj_funcs (type_' (meta' obj)) = Some obj_val_ObTinyIntType"
  "set_by set_smallint obj \<Longrightarrow> obj_funcs (type_' (meta' obj)) = Some obj_val_ObSmallIntType"
  "set_by set_mediumint obj \<Longrightarrow> obj_funcs (type_' (meta' obj)) = Some obj_val_ObMediumIntType"
  "set_by set_int32 obj \<Longrightarrow> obj_funcs (type_' (meta' obj)) = Some obj_val_ObInt32Type"
  "set_by set_int obj \<Longrightarrow> obj_funcs (type_' (meta' obj)) = Some obj_val_ObIntType"
  "set_by set_utinyint obj \<Longrightarrow> obj_funcs (type_' (meta' obj)) = Some obj_val_ObUTinyIntType"
  "set_by set_usmallint obj \<Longrightarrow> obj_funcs (type_' (meta' obj)) = Some obj_val_ObUSmallIntType"
  "set_by set_umediumint obj \<Longrightarrow> obj_funcs (type_' (meta' obj)) = Some obj_val_ObUMediumIntType"
  "set_by set_uint32 obj \<Longrightarrow> obj_funcs (type_' (meta' obj)) = Some obj_val_ObUInt32Type"
  "set_by set_uint64 obj \<Longrightarrow> obj_funcs (type_' (meta' obj)) = Some obj_val_ObUInt64Type"
  "set_by set_float obj \<Longrightarrow> obj_funcs (type_' (meta' obj)) = Some obj_val_ObFloatType"
  "set_by set_double obj \<Longrightarrow> obj_funcs (type_' (meta' obj)) = Some obj_val_ObDoubleType"
  "set_by set_ufloat obj \<Longrightarrow> obj_funcs (type_' (meta' obj)) = Some obj_val_ObUFloatType"
  "set_by set_udouble obj \<Longrightarrow> obj_funcs (type_' (meta' obj)) = Some obj_val_ObUDoubleType"
  by (auto simp: set_by_def getter_setter_defs obj_funcs_def OBJ_FUNCS_def)

lemmas numeric_roundtrips =
  tinyint_entry.entry.obj_roundtrip [folded obj_val_ObTinyIntType_def]
  smallint_entry.entry.obj_roundtrip [folded obj_val_ObSmallIntType_def]
  mediumint_entry.entry.obj_roundtrip [folded obj_val_ObMediumIntType_def]
  int32_entry.entry.obj_roundtrip [folded obj_val_ObInt32Type_def]
  int_entry.entry.obj_roundtrip [folded obj_val_ObIntType_def]
  utinyint_entry.entry.obj_roundtrip [folded obj_val_ObUTinyIntType_def]
  usmallint_entry.entry.obj_roundtrip [folded obj_val_ObUSmallIntType_def]
  umediumint_entry.entry.obj_roundtrip [folded obj_val_ObUMediumIntType_def]
  uint32_entry.entry.obj_roundtrip [folded obj_val_ObUInt32Type_def]
  uint64_entry.entry.obj_roundtrip [folded obj_val_ObUInt64Type_def]
  float_entry.entry.obj_roundtrip [folded obj_val_ObFloatType_def]
  double_entry.entry.obj_roundtrip [folded obj_val_ObDoubleType_def]
  ufloat_entry.entry.obj_roundtrip [folded obj_val_ObUFloatType_def]
  udouble_entry.entry.obj_roundtrip [folded obj_val_ObUDoubleType_def]

text \<open>C3: Numeric objects survive the wire.  For an object filled by any of the 14 integer and floating-point setters,
  \<^verbatim>\<open>serialize_ObObj\<close> succeeds when the announced \<^verbatim>\<open>get_serialize_size_ObObj\<close> bytes are left and uses exactly these, and
  \<^verbatim>\<open>deserialize_ObObj\<close> into any other object restores its meta part and its value and stops at the same position.\<close>

theorem numeric_obj_roundtrip:
  assumes "numeric_obj obj" and "0 \<le> pos" and "get_serialize_size_ObObj obj = Some n" and "pos + n \<le> len"
    and "len \<le> int (length m)" and "len < 2 ^ 31"
  shows "\<exists>m'. serialize_ObObj obj (Some m) len pos = Some (OB_SUCCESS, Some m', pos + n)
    \<and> deserialize_ObObj junk obj' (Some m') len pos
        = Some (OB_SUCCESS, obj'\<lparr>meta' := meta' obj, v' := v' obj\<rparr>, pos + n)"
  using assms(1) unfolding numeric_obj_def
  by (elim disjE) (rule numeric_roundtrips [OF _ _ assms(2-)], assumption, erule obj_funcs_numeric)+

subsection \<open>Character strings\<close>

lemma sint_length32: "n < 2 ^ 31 \<Longrightarrow> sint (word_of_nat n :: 32 word) = int n"
  using int_word_sint [of "int n", where ?'a = 32] by simp

lemma set_varchar_simps:
  "type_' (meta' (set_varchar obj s n)) = 22" "v' (set_varchar obj s n) = VStr s"
  "val_len' (set_varchar obj s n) = n"
  by (simp_all add: set_varchar_def set_varchar_meta_def)

lemma obj_funcs_varchar: "obj_funcs 22 = Some obj_val_ObVarcharType"
  by (simp add: obj_funcs_def OBJ_FUNCS_def nth_append)

lemma holds_at_drop:
  "holds_at m a bs \<Longrightarrow> take (length bs) (drop (nat a) m) = bs"
  by (simp add: holds_at_def load_bytes_def split: if_splits)

text \<open>C13: String objects survive the wire.  \<^verbatim>\<open>serialize_ObObj\<close> of a varchar object writes meta part and string, and
  \<^verbatim>\<open>deserialize_ObObj\<close> gives an object with the same meta part and length whose pointer is at the string's bytes
  inside the message.\<close>

theorem varchar_obj_roundtrip:
  assumes "vstr_ok s" and "0 \<le> pos" and "obj = set_varchar obj0 (Some s) (of_nat (length s))"
    and "pos + 4 + encoded_length_vstr_with_len (int (length s)) \<le> len"
    and "len \<le> int (length m)" and "len < 2 ^ 31"
  shows "\<exists>m' obj'' t. serialize_ObObj obj (Some m) len pos
        = Some (OB_SUCCESS, Some m', pos + 4 + encoded_length_vstr_with_len (int (length s)))
    \<and> deserialize_ObObj junk obj' (Some m') len pos
        = Some (OB_SUCCESS, obj'', pos + 4 + encoded_length_vstr_with_len (int (length s)))
    \<and> meta' obj'' = meta' obj \<and> val_len' obj'' = val_len' obj
    \<and> v' obj'' = VStr (Some t) \<and> take (length s) t = s"
proof -
  let ?b = "meta_bytes (meta' obj)" and ?e = "vstr_bytes s"
  let ?m = "put m pos (?b @ ?e)"
  have le: "nat pos + length (?b @ ?e) \<le> length m" and le2: "pos + 4 + int (length ?e) \<le> len"
    using assms by (simp_all add: encoded_length_vstr_eq)
  have n: "length s < 2 ^ 31" using assms(1) by simp
  have w1: "serialize_ObObjMeta (meta' obj) (Some m) len pos = Some (OB_SUCCESS, Some (put m pos ?b), pos + 4)"
    using assms le2 by (intro meta_fits) simp_all
  have "encode_vstr_with_len (Some (put m pos ?b)) len (pos + 4) (Some s) (int (length s)) =
      Some (OB_SUCCESS, Some (put (put m pos ?b) (pos + 4) ?e), pos + 4 + int (length ?e))"
    using assms le2 by (intro encode_vstr_fits) simp_all
  moreover have "put (put m pos ?b) (pos + 4) ?e = ?m"
    using assms(2) le put_put_adjacent [of pos ?b ?e m] by simp
  ultimately have w: "serialize_ObObj obj (Some m) len pos = Some (OB_SUCCESS, Some ?m, pos + 4 + int (length ?e))"
    using w1 n by (simp add: serialize_ObObj_def get_type_def assms(3) set_varchar_simps obj_funcs_varchar
        obj_val_ObVarcharType_def obj_val_serialize_ObVarcharType_def sint_length32)
  have h: "holds_at ?m pos ?b" "holds_at ?m (pos + 4) ?e"
    using holds_at_put [OF assms(2) le] by (simp_all add: holds_at_append)
  have r1: "deserialize_ObObjMeta (meta' obj') (Some ?m) len pos = Some (OB_SUCCESS, meta' obj, pos + 4)"
    using h assms le le2 by (intro meta_read) simp_all
  define off where "off = pos + 4 + int (length ?e) - int (length s) - 1"
  have r2: "decode_vstr_nocopy (Some ?m) len (pos + 4) (Some 0) =
      Some (Some off, Some (int (length s)), pos + 4 + int (length ?e))"
    unfolding off_def using h(2) assms le le2 by (intro decode_vstr_nocopy_bytes) simp_all
  have "off = pos + 4 + int (length (vi_bytes (word_of_int (int (length s)) :: 64 word)))"
    by (simp add: off_def vstr_bytes_def)
  then have "holds_at ?m off s"
    using h(2) by (simp add: vstr_bytes_def holds_at_append)
  then have t: "take (length s) (drop (nat off) ?m) = s" by (rule holds_at_drop)
  have "2 \<le> length ?e" by (simp add: vstr_bytes_def vi_bytes_def)
  then have "2 \<le> len - (pos + 4)" using le2 by simp
  then have "deserialize_ObObj junk obj' (Some ?m) len pos = Some (OB_SUCCESS,
      obj'\<lparr>meta' := meta' obj, v' := VStr (Some (drop (nat off) ?m)), val_len' := val_len' obj\<rparr>,
      pos + 4 + int (length ?e))"
    using r1 r2 by (simp add: deserialize_ObObj_def get_type_def assms(3) set_varchar_simps obj_funcs_varchar
        obj_val_ObVarcharType_def obj_val_deserialize_ObVarcharType_def Let_def)
  with w t show ?thesis by (simp add: encoded_length_vstr_eq)
qed

subsection \<open>Types without an implementation, and the type maps\<close>

text \<open>
  The codes 0, 15 to 21 and 23 to 44 share the entry that always reports an error, codes 45
  to 47 have no entry: the guard against \<^verbatim>\<open>ObMaxType\<close> lets them through to a null function.
\<close>

lemma obj_funcs_null:
  "unat t = 0 \<or> 15 \<le> unat t \<and> unat t \<le> 21 \<or> 23 \<le> unat t \<and> unat t \<le> 44 \<Longrightarrow>
   obj_funcs t = Some obj_val_ObNullType"
  by (auto simp: obj_funcs_def OBJ_FUNCS_def nth_append nth_Cons')

lemma obj_funcs_missing: "45 \<le> unat t \<Longrightarrow> obj_funcs t = None"
  by (auto simp: obj_funcs_def OBJ_FUNCS_def nth_append nth_Cons' less_Suc_eq)

lemma length_type_maps: "length type_maps = ob_type_code ObMaxType"
  by (simp add: type_maps_def)

lemma get_mysql_type_total: "t \<noteq> ObMaxType \<Longrightarrow> fst (get_mysql_type t old) = 0"
  by (cases t) (simp_all add: get_mysql_type_def get_map_def)

subsection \<open>Examples and properties of the tables\<close>

theorem numeric_obj_roundtrip_witness:
  "\<exists>n m'. get_serialize_size_ObObj (set_int \<lparr>meta' = \<lparr>type_' = 0, cs_level' = 0, cs_type' = 0, scale' = 0\<rparr>, val_len' = 0, v' = V64 0\<rparr> 300) = Some n
    \<and> serialize_ObObj (set_int \<lparr>meta' = \<lparr>type_' = 0, cs_level' = 0, cs_type' = 0, scale' = 0\<rparr>, val_len' = 0, v' = V64 0\<rparr> 300)
        (Some (replicate 10 0)) 10 1 = Some (OB_SUCCESS, Some m', 1 + n)
    \<and> deserialize_ObObj 0 \<lparr>meta' = \<lparr>type_' = 9, cs_level' = 9, cs_type' = 9, scale' = 9\<rparr>, val_len' = 7, v' = V64 5\<rparr> (Some m') 10 1
        = Some (OB_SUCCESS, \<lparr>meta' = \<lparr>type_' = 5, cs_level' = 5, cs_type' = 63, scale' = 0\<rparr>, val_len' = 7, v' = V64 300\<rparr>, 1 + n)"
proof -
  let ?o = "set_int \<lparr>meta' = \<lparr>type_' = 0, cs_level' = 0, cs_type' = 0, scale' = 0\<rparr>, val_len' = 0, v' = V64 0\<rparr> 300"
  have o: "?o = \<lparr>meta' = \<lparr>type_' = 5, cs_level' = 5, cs_type' = 63, scale' = 0\<rparr>, val_len' = 0, v' = V64 300\<rparr>" by code_simp
  have n: "numeric_obj ?o" unfolding numeric_obj_def set_by_def by blast
  have s: "get_serialize_size_ObObj ?o = Some 6" by code_simp
  show ?thesis using numeric_obj_roundtrip [OF n _ s, of 1 10 "replicate 10 0" 0
    "\<lparr>meta' = \<lparr>type_' = 9, cs_level' = 9, cs_type' = 9, scale' = 9\<rparr>, val_len' = 7, v' = V64 5\<rparr>"] s
    by (intro exI [of _ 6]) (simp add: o)
qed


theorem varchar_obj_roundtrip_witness:
  "\<exists>m' obj'' t. serialize_ObObj (set_varchar \<lparr>meta' = \<lparr>type_' = 0, cs_level' = 0, cs_type' = 0, scale' = 0\<rparr>, val_len' = 0, v' = V64 0\<rparr>
        (Some [104, 105]) 2) (Some (replicate 12 0)) 12 0 = Some (OB_SUCCESS, Some m', 8)
    \<and> deserialize_ObObj 0 \<lparr>meta' = \<lparr>type_' = 9, cs_level' = 9, cs_type' = 9, scale' = 9\<rparr>, val_len' = 7, v' = V64 5\<rparr> (Some m') 12 0
        = Some (OB_SUCCESS, obj'', 8)
    \<and> v' obj'' = VStr (Some t) \<and> take 2 t = [104, 105] \<and> val_len' obj'' = 2"
proof -
  let ?o = "\<lparr>meta' = \<lparr>type_' = 0, cs_level' = 0, cs_type' = 0, scale' = 0\<rparr>, val_len' = 0, v' = V64 0\<rparr>"
  have n: "encoded_length_vstr_with_len 2 = 4" by code_simp
  have "val_len' (set_varchar ?o (Some [104, 105]) 2) = 2" by (simp add: set_varchar_simps)
  then show ?thesis
    using varchar_obj_roundtrip [of "[104, 105]" 0 "set_varchar ?o (Some [104, 105]) 2" ?o 12 "replicate 12 0" 0
      "\<lparr>meta' = \<lparr>type_' = 9, cs_level' = 9, cs_type' = 9, scale' = 9\<rparr>, val_len' = 7, v' = V64 5\<rparr>"] n
    by (auto simp: numeral_2_eq_2)
qed

text \<open>C20: \<^verbatim>\<open>deserialize_ObObj\<close> on a message with an out-of-range type byte: for 45 to 47 the guard
  \<^verbatim>\<open>type_ <= ObMaxType\<close> lets the type through although \<^verbatim>\<open>OBJ_FUNCS\<close> has no function there, and a null pointer (or
  what lies past the table) is called; only above 47 is \<^verbatim>\<open>OB_ERROR\<close> returned.\<close>

theorem deserialize_unknown_type:
  assumes "holds_at m pos (meta_bytes meta)" and "pos + 4 \<le> len" and "len \<le> int (length m)" and "len < 2 ^ 31"
    and "45 \<le> unat (type_' meta)"
  shows "deserialize_ObObj junk obj (Some m) len pos =
    (if unat (type_' meta) \<le> 47 then None else Some (OB_ERROR, obj\<lparr>meta' := meta\<rparr>, pos + 4))"
  using meta_read [OF assms(1-4)] obj_funcs_missing [OF assms(5)]
  by (simp add: deserialize_ObObj_def get_type_def)

theorem deserialize_unknown_type_witness:
  "deserialize_ObObj 0 \<lparr>meta' = \<lparr>type_' = 0, cs_level' = 0, cs_type' = 0, scale' = 0\<rparr>, val_len' = 0, v' = V64 0\<rparr> (Some [46, 5, 63, 0]) 4 0 = None
   \<and> deserialize_ObObj 0 \<lparr>meta' = \<lparr>type_' = 0, cs_level' = 0, cs_type' = 0, scale' = 0\<rparr>, val_len' = 0, v' = V64 0\<rparr> (Some [48, 5, 63, 0]) 4 0
     = Some (OB_ERROR, \<lparr>meta' = \<lparr>type_' = 48, cs_level' = 5, cs_type' = 63, scale' = 0\<rparr>, val_len' = 0, v' = V64 0\<rparr>, 4)"
proof -
  have h: "holds_at [46, 5, 63, 0] 0 (meta_bytes \<lparr>type_' = 46, cs_level' = 5, cs_type' = 63, scale' = 0\<rparr>)"
    "holds_at [48, 5, 63, 0] 0 (meta_bytes \<lparr>type_' = 48, cs_level' = 5, cs_type' = 63, scale' = 0\<rparr>)"
    by (simp_all add: holds_at_def load_bytes_def meta_bytes_def)
  show ?thesis using deserialize_unknown_type [OF h(1), of 4] deserialize_unknown_type [OF h(2), of 4] by simp
qed

text \<open>C19: Type mapping there and back: a MySQL type with an OB type is recovered by \<^verbatim>\<open>get_mysql_type\<close>, except that the
  string types all come back as \<^verbatim>\<open>MYSQL_TYPE_VAR_STRING\<close>, the old decimal as the new one, objects as the table's last
  entry, and every OB type past the 27 entries of \<^verbatim>\<open>type_maps_\<close> as \<^verbatim>\<open>MYSQL_TYPE_DECIMAL\<close> (the zero entry).\<close>

theorem type_map_back:
  assumes "get_ob_type old mt = (0, t)"
  shows "get_mysql_type t x = (0,
     if mt \<in> {MYSQL_TYPE_VARCHAR, MYSQL_TYPE_STRING} then MYSQL_TYPE_VAR_STRING
     else if mt = MYSQL_TYPE_DECIMAL then MYSQL_TYPE_NEWDECIMAL
     else if mt = MYSQL_TYPE_OBJECT then MAX_NO_FIELD_TYPES
     else if 26 < ob_type_code t then MYSQL_TYPE_DECIMAL
     else mt)"
  using assms by (cases mt) (auto simp: get_ob_type_def get_mysql_type_def get_map_def type_maps_def ob_map_def)

theorem type_map_back_witness:
  "get_ob_type ObNullType MYSQL_TYPE_TINY_BLOB = (0, ObTinyTextType) \<and> get_mysql_type ObTinyTextType MYSQL_TYPE_NULL = (0, MYSQL_TYPE_DECIMAL)
   \<and> get_ob_type ObNullType MYSQL_TYPE_LONG = (0, ObInt32Type) \<and> get_mysql_type ObInt32Type MYSQL_TYPE_NULL = (0, MYSQL_TYPE_LONG)"
  using type_map_back [of ObNullType MYSQL_TYPE_TINY_BLOB ObTinyTextType MYSQL_TYPE_NULL]
    type_map_back [of ObNullType MYSQL_TYPE_LONG ObInt32Type MYSQL_TYPE_NULL]
  by (simp add: get_ob_type_def)

end
