(* ===== verification/FltCodec.thy ===== *)
theory FltCodec
  imports ObSerialize
begin

unbundle bit_operations_syntax

section \<open>Full-link-trace items (libmariadb/ob_full_link_trace.c, lines 36 to 1310)\<close>

text \<open>
  Trace information travels as items of a 2-byte id, a 4-byte length and a value, all
  little-endian; a group of items is itself an item whose id is the type of the group.  The
  first part holds the store and fetch functions for single items, the second the three
  functions (size, serialize, deserialize field) of each of the six groups and the table that
  dispatches on the group type.

  A string member is a pointer, modelled by the object it points to.  A group structure passed
  through a \<^verbatim>\<open>void *\<close> to a function for another structure type is undefined (\<open>None\<close>).
\<close>

subsection \<open>Identifiers\<close>

datatype (plugins only: code) FullLinkTraceExtraInfoId =
    FLT_DRIVER_SPAN | FLT_DRIVER_END
  | FLT_CLIENT_IDENTIFIER | FLT_MODULE | FLT_ACTION | FLT_CLIENT_INFO | FLT_APPINFO_TYPE
  | FLT_QUERY_START_TIMESTAMP | FLT_QUERY_END_TIMESTAMP
  | FLT_LEVEL | FLT_SAMPLE_PERCENTAGE | FLT_RECORD_POLICY | FLT_PRINT_SAMPLE_PCT
  | FLT_SLOW_QUERY_THRES | FLT_SHOW_TRACE_ENABLE
  | FLT_TRACE_ENABLE | FLT_FORCE_PRINT | FLT_TRACE_ID | FLT_REF_TYPE | FLT_SPAN_ID
  | FLT_DRV_SHOW_TRACE_SPAN | FLT_PROXY_SHOW_TRACE_SPAN | FLT_EXTRA_INFO_ID_END

primrec flt_id :: "FullLinkTraceExtraInfoId \<Rightarrow> 16 word" where
  "flt_id FLT_DRIVER_SPAN = 1"
| "flt_id FLT_DRIVER_END = 1000"
| "flt_id FLT_CLIENT_IDENTIFIER = 2001"
| "flt_id FLT_MODULE = 2002"
| "flt_id FLT_ACTION = 2003"
| "flt_id FLT_CLIENT_INFO = 2004"
| "flt_id FLT_APPINFO_TYPE = 2005"
| "flt_id FLT_QUERY_START_TIMESTAMP = 2010"
| "flt_id FLT_QUERY_END_TIMESTAMP = 2011"
| "flt_id FLT_LEVEL = 2020"
| "flt_id FLT_SAMPLE_PERCENTAGE = 2021"
| "flt_id FLT_RECORD_POLICY = 2022"
| "flt_id FLT_PRINT_SAMPLE_PCT = 2023"
| "flt_id FLT_SLOW_QUERY_THRES = 2024"
| "flt_id FLT_SHOW_TRACE_ENABLE = 2025"
| "flt_id FLT_TRACE_ENABLE = 2030"
| "flt_id FLT_FORCE_PRINT = 2031"
| "flt_id FLT_TRACE_ID = 2032"
| "flt_id FLT_REF_TYPE = 2033"
| "flt_id FLT_SPAN_ID = 2034"
| "flt_id FLT_DRV_SHOW_TRACE_SPAN = 2050"
| "flt_id FLT_PROXY_SHOW_TRACE_SPAN = 2051"
| "flt_id FLT_EXTRA_INFO_ID_END = 2052"

datatype FullLinkTraceExtraInfoType =
    FLT_DRIVER_SPAN_INFO | FLT_EXTRA_INFO_DRIVE_END | FLT_APP_INFO | FLT_QUERY_INFO
  | FLT_CONTROL_INFO | FLT_SPAN_INFO | FLT_TYPE_SHOW_TRACE_SPAN | FLT_EXTRA_INFO_TYPE_END

primrec flt_type :: "FullLinkTraceExtraInfoType \<Rightarrow> 16 word" where
  "flt_type FLT_DRIVER_SPAN_INFO = 1"
| "flt_type FLT_EXTRA_INFO_DRIVE_END = 1000"
| "flt_type FLT_APP_INFO = 2001"
| "flt_type FLT_QUERY_INFO = 2002"
| "flt_type FLT_CONTROL_INFO = 2003"
| "flt_type FLT_SPAN_INFO = 2004"
| "flt_type FLT_TYPE_SHOW_TRACE_SPAN = 2005"
| "flt_type FLT_EXTRA_INFO_TYPE_END = 2006"

subsection \<open>Storing one item\<close>

type_synonym wresult = "(int \<times> cbuf \<times> int) option"

abbreviation (input) TYPE_LENGTH :: int where "TYPE_LENGTH \<equiv> 2"
abbreviation (input) LEN_LENGTH :: int where "LEN_LENGTH \<equiv> 4"
abbreviation (input) DBL_SIZE :: int where "DBL_SIZE \<equiv> 8"
abbreviation (input) FLT_SIZE :: int where "FLT_SIZE \<equiv> 4"

definition to_uint64 :: "int \<Rightarrow> int" where
  "to_uint64 x = uint (word_of_int x :: 64 word)"

definition flt_store_int :: "cbuf \<Rightarrow> int \<Rightarrow> int \<Rightarrow> 64 word \<Rightarrow> 16 word \<Rightarrow> int \<Rightarrow> wresult" where
  "flt_store_int buf len ppos v type v_len = (case buf of
     None \<Rightarrow> Some (OB_ERROR, buf, ppos)
   | Some m \<Rightarrow>
       if len < ppos + TYPE_LENGTH + LEN_LENGTH + v_len then Some (OB_ERROR, buf, ppos)
       else do {
         m \<leftarrow> int2store m ppos (scast type);
         m \<leftarrow> int4store m (ppos + 2) (word_of_int v_len);
         m \<leftarrow> (if v_len = 1 then int1store m (ppos + 6) v
               else if v_len = 2 then int2store m (ppos + 6) v
               else if v_len = 3 then int3store m (ppos + 6) v
               else if v_len = 4 then int4store m (ppos + 6) v
               else if v_len = 5 then int5store m (ppos + 6) v
               else if v_len = 6 then int6store m (ppos + 6) v
               else if v_len = 8 then int8store m (ppos + 6) v
               else Some m);
         Some (OB_SUCCESS, Some m, ppos + 6 + v_len) })"

definition flt_store_type_and_len :: "cbuf \<Rightarrow> int \<Rightarrow> int \<Rightarrow> 16 word \<Rightarrow> 32 word \<Rightarrow> wresult" where
  "flt_store_type_and_len buf len ppos type v_len = (case buf of
     None \<Rightarrow> Some (OB_ERROR, buf, ppos)
   | Some m \<Rightarrow>
       if len < ppos + TYPE_LENGTH + LEN_LENGTH then Some (OB_ERROR, buf, ppos)
       else do {
         m \<leftarrow> int2store m ppos (scast type);
         m \<leftarrow> int4store m (ppos + 2) (scast v_len);
         Some (OB_SUCCESS, Some m, ppos + 6) })"

definition flt_store_str :: "cbuf \<Rightarrow> int \<Rightarrow> int \<Rightarrow> cbuf \<Rightarrow> 64 word \<Rightarrow> 16 word \<Rightarrow> wresult" where
  "flt_store_str buf len ppos str str_len type = (case buf of
     None \<Rightarrow> Some (OB_ERROR, buf, ppos)
   | Some m \<Rightarrow>
       if len < ppos + TYPE_LENGTH + LEN_LENGTH + sint str_len then Some (OB_ERROR, buf, ppos)
       else do {
         m \<leftarrow> int2store m ppos (scast type);
         m \<leftarrow> int4store m (ppos + 2) str_len;
         s \<leftarrow> str;
         bs \<leftarrow> load_bytes s 0 (unat str_len);
         m \<leftarrow> store_bytes m (ppos + 6) bs;
         Some (OB_SUCCESS, Some m, ppos + 6 + uint str_len) })"

definition flt_store_int1 :: "cbuf \<Rightarrow> int \<Rightarrow> int \<Rightarrow> 8 word \<Rightarrow> 16 word \<Rightarrow> wresult" where
  "flt_store_int1 buf len pos v type = flt_store_int buf len pos (scast v) type 1"

definition flt_store_int2 :: "cbuf \<Rightarrow> int \<Rightarrow> int \<Rightarrow> 16 word \<Rightarrow> 16 word \<Rightarrow> wresult" where
  "flt_store_int2 buf len pos v type = flt_store_int buf len pos (scast v) type 2"

definition flt_store_int3 :: "cbuf \<Rightarrow> int \<Rightarrow> int \<Rightarrow> 32 word \<Rightarrow> 16 word \<Rightarrow> wresult" where
  "flt_store_int3 buf len pos v type = flt_store_int buf len pos (scast v) type 3"

definition flt_store_int4 :: "cbuf \<Rightarrow> int \<Rightarrow> int \<Rightarrow> 32 word \<Rightarrow> 16 word \<Rightarrow> wresult" where
  "flt_store_int4 buf len pos v type = flt_store_int buf len pos (scast v) type 4"

definition flt_store_int5 :: "cbuf \<Rightarrow> int \<Rightarrow> int \<Rightarrow> 64 word \<Rightarrow> 16 word \<Rightarrow> wresult" where
  "flt_store_int5 buf len pos v type = flt_store_int buf len pos v type 5"

definition flt_store_int6 :: "cbuf \<Rightarrow> int \<Rightarrow> int \<Rightarrow> 64 word \<Rightarrow> 16 word \<Rightarrow> wresult" where
  "flt_store_int6 buf len pos v type = flt_store_int buf len pos v type 6"

text \<open>The source passes 7 here, a width for which \<^verbatim>\<open>flt_store_int\<close> has no branch.\<close>

definition flt_store_int8 :: "cbuf \<Rightarrow> int \<Rightarrow> int \<Rightarrow> 64 word \<Rightarrow> 16 word \<Rightarrow> wresult" where
  "flt_store_int8 buf len pos v type = flt_store_int buf len pos v type 7"

text \<open>The comparison is unsigned here: \<^verbatim>\<open>DBL_SIZE\<close> is a \<^verbatim>\<open>size_t\<close>.\<close>

definition flt_store_double :: "cbuf \<Rightarrow> int \<Rightarrow> int \<Rightarrow> 64 word \<Rightarrow> 16 word \<Rightarrow> wresult" where
  "flt_store_double buf len ppos val type = (case buf of
     None \<Rightarrow> Some (OB_ERROR, buf, ppos)
   | Some m \<Rightarrow>
       if to_uint64 len < to_uint64 (ppos + DBL_SIZE + TYPE_LENGTH + LEN_LENGTH) then Some (OB_ERROR, buf, ppos)
       else do {
         m \<leftarrow> int2store m ppos (scast type);
         m \<leftarrow> int4store m (ppos + 2) 8;
         m \<leftarrow> store_bytes m (ppos + 6) (le_bytes 8 val);
         Some (OB_SUCCESS, Some m, ppos + 6 + DBL_SIZE) })"

definition flt_store_float :: "cbuf \<Rightarrow> int \<Rightarrow> int \<Rightarrow> 32 word \<Rightarrow> 16 word \<Rightarrow> wresult" where
  "flt_store_float buf len ppos val type = (case buf of
     None \<Rightarrow> Some (OB_ERROR, buf, ppos)
   | Some m \<Rightarrow>
       if to_uint64 len < to_uint64 (ppos + FLT_SIZE + TYPE_LENGTH + LEN_LENGTH) then Some (OB_ERROR, buf, ppos)
       else do {
         m \<leftarrow> int2store m ppos (scast type);
         m \<leftarrow> int4store m (ppos + 2) 4;
         m \<leftarrow> store_bytes m (ppos + 6) (le_bytes 4 val);
         Some (OB_SUCCESS, Some m, ppos + 6 + FLT_SIZE) })"

definition flt_get_store_str_size :: "64 word \<Rightarrow> 32 word" where
  "flt_get_store_str_size str_len = ucast (str_len + 6)"

definition flt_get_store_int1_size :: "32 word" where "flt_get_store_int1_size = 2 + 4 + 1"
definition flt_get_store_int2_size :: "32 word" where "flt_get_store_int2_size = 2 + 4 + 2"
definition flt_get_store_int3_size :: "32 word" where "flt_get_store_int3_size = 2 + 4 + 3"
definition flt_get_store_int4_size :: "32 word" where "flt_get_store_int4_size = 2 + 4 + 4"
definition flt_get_store_int5_size :: "32 word" where "flt_get_store_int5_size = 2 + 4 + 5"
definition flt_get_store_int6_size :: "32 word" where "flt_get_store_int6_size = 2 + 4 + 6"
definition flt_get_store_int8_size :: "32 word" where "flt_get_store_int8_size = 2 + 4 + 8"
definition flt_get_store_double_size :: "32 word" where "flt_get_store_double_size = 2 + 4 + 8"
definition flt_get_store_float_size :: "32 word" where "flt_get_store_float_size = 2 + 4 + 4"

subsection \<open>Fetching one item\<close>

text \<open>
  The destination of \<^verbatim>\<open>flt_get_int\<close> is a \<^verbatim>\<open>void *\<close> that it writes at the width it reads; the
  value is returned sign-extended, and the old content for a width with no branch.
\<close>

definition flt_get_int :: "cbuf \<Rightarrow> int \<Rightarrow> int \<Rightarrow> int \<Rightarrow> 64 word \<Rightarrow> (int \<times> 64 word \<times> int) option" where
  "flt_get_int buf len ppos v_len val = (case buf of
     None \<Rightarrow> Some (OB_ERROR, val, ppos)
   | Some m \<Rightarrow>
       if ppos + v_len > len then Some (OB_ERROR, val, ppos)
       else do {
         val \<leftarrow> (if v_len = 1 then map_option scast (sint1korr m ppos)
                 else if v_len = 2 then map_option scast (sint2korr m ppos)
                 else if v_len = 3 then map_option scast (sint3korr m ppos)
                 else if v_len = 4 then map_option scast (sint4korr m ppos)
                 else if v_len = 8 then sint8korr m ppos
                 else Some val);
         Some (OB_SUCCESS, val, ppos + v_len) })"

definition flt_resolve_type_and_len ::
  "cbuf \<Rightarrow> int \<Rightarrow> int \<Rightarrow> 16 word \<Rightarrow> 32 word \<Rightarrow> (int \<times> 16 word \<times> 32 word \<times> int) option" where
  "flt_resolve_type_and_len buf len ppos type v_len = (case buf of
     None \<Rightarrow> Some (OB_ERROR, type, v_len, ppos)
   | Some m \<Rightarrow>
       if ppos + TYPE_LENGTH + LEN_LENGTH > len then Some (OB_ERROR, type, v_len, ppos)
       else do {
         type \<leftarrow> sint2korr m ppos;
         v_len \<leftarrow> sint4korr m (ppos + 2);
         Some (OB_SUCCESS, type, v_len, ppos + 6) })"

text \<open>The string pointer that is handed out is the start of the buffer, not the item.\<close>

definition flt_get_str :: "cbuf \<Rightarrow> int \<Rightarrow> int \<Rightarrow> int \<Rightarrow> cbuf \<Rightarrow> (int \<times> cbuf \<times> int) option" where
  "flt_get_str buf len ppos str_len str = (case buf of
     None \<Rightarrow> Some (OB_ERROR, str, ppos)
   | Some m \<Rightarrow>
       if ppos + str_len > len then Some (OB_ERROR, str, ppos)
       else Some (OB_SUCCESS, Some m, ppos + str_len))"

definition flt_get_int1 :: "cbuf \<Rightarrow> int \<Rightarrow> int \<Rightarrow> int \<Rightarrow> 8 word \<Rightarrow> (int \<times> 8 word \<times> int) option" where
  "flt_get_int1 buf len pos v_len val =
     (if v_len \<noteq> 1 then Some (OB_ERROR, val, pos)
      else map_option (\<lambda>(r, v, p). (r, ucast v, p)) (flt_get_int buf len pos v_len (scast val)))"

definition flt_get_int2 :: "cbuf \<Rightarrow> int \<Rightarrow> int \<Rightarrow> int \<Rightarrow> 16 word \<Rightarrow> (int \<times> 16 word \<times> int) option" where
  "flt_get_int2 buf len pos v_len val =
     (if v_len \<noteq> 2 then Some (OB_ERROR, val, pos)
      else map_option (\<lambda>(r, v, p). (r, ucast v, p)) (flt_get_int buf len pos v_len (scast val)))"

definition flt_get_int3 :: "cbuf \<Rightarrow> int \<Rightarrow> int \<Rightarrow> int \<Rightarrow> 32 word \<Rightarrow> (int \<times> 32 word \<times> int) option" where
  "flt_get_int3 buf len pos v_len val =
     (if v_len \<noteq> 3 then Some (OB_ERROR, val, pos)
      else map_option (\<lambda>(r, v, p). (r, ucast v, p)) (flt_get_int buf len pos v_len (scast val)))"

definition flt_get_int4 :: "cbuf \<Rightarrow> int \<Rightarrow> int \<Rightarrow> int \<Rightarrow> 32 word \<Rightarrow> (int \<times> 32 word \<times> int) option" where
  "flt_get_int4 buf len pos v_len val =
     (if v_len \<noteq> 4 then Some (OB_ERROR, val, pos)
      else map_option (\<lambda>(r, v, p). (r, ucast v, p)) (flt_get_int buf len pos v_len (scast val)))"

definition flt_get_int8 :: "cbuf \<Rightarrow> int \<Rightarrow> int \<Rightarrow> int \<Rightarrow> 64 word \<Rightarrow> (int \<times> 64 word \<times> int) option" where
  "flt_get_int8 buf len pos v_len val =
     (if v_len \<noteq> 8 then Some (OB_ERROR, val, pos) else flt_get_int buf len pos v_len val)"

definition flt_get_double :: "cbuf \<Rightarrow> int \<Rightarrow> int \<Rightarrow> int \<Rightarrow> 64 word \<Rightarrow> (int \<times> 64 word \<times> int) option" where
  "flt_get_double buf len ppos v_len val = (case buf of
     None \<Rightarrow> Some (OB_ERROR, val, ppos)
   | Some m \<Rightarrow>
       if ppos + v_len > len \<or> v_len \<noteq> 8 then Some (OB_ERROR, val, ppos)
       else do { bs \<leftarrow> load_bytes m ppos 8; Some (OB_SUCCESS, le_word bs, ppos + v_len) })"

definition flt_get_float :: "cbuf \<Rightarrow> int \<Rightarrow> int \<Rightarrow> int \<Rightarrow> 32 word \<Rightarrow> (int \<times> 32 word \<times> int) option" where
  "flt_get_float buf len ppos v_len val = (case buf of
     None \<Rightarrow> Some (OB_ERROR, val, ppos)
   | Some m \<Rightarrow>
       if ppos + v_len > len \<or> v_len \<noteq> 4 then Some (OB_ERROR, val, ppos)
       else do { bs \<leftarrow> load_bytes m ppos 4; Some (OB_SUCCESS, le_word bs, ppos + v_len) })"

subsection \<open>The groups\<close>

datatype RecordPolicy = RP_ALL | RP_ONLY_SLOW_QUERY | RP_SAMPLE_AND_SLOW_QUERY | MAX_RECORD_POLICY

primrec record_policy :: "RecordPolicy \<Rightarrow> 32 word" where
  "record_policy RP_ALL = 1"
| "record_policy RP_ONLY_SLOW_QUERY = 2"
| "record_policy RP_SAMPLE_AND_SLOW_QUERY = 3"
| "record_policy MAX_RECORD_POLICY = 4"

record FLTControlInfo =
  ctl_type :: FullLinkTraceExtraInfoType
  level' :: "8 word"
  sample_pct' :: "64 word"
  rp' :: "32 word"
  print_sample_pct' :: "64 word"
  slow_query_threshold' :: "64 word"
  flt_show_trace_enable' :: "8 word"

record FLTAppInfo =
  app_type :: FullLinkTraceExtraInfoType
  identifier' :: cbuf
  module' :: cbuf
  action' :: cbuf
  client_info' :: cbuf

record FLTQueryInfo =
  qry_type :: FullLinkTraceExtraInfoType
  query_start_timestamp' :: "64 word"
  query_end_timestamp' :: "64 word"

record FLTSpanInfo =
  spn_type :: FullLinkTraceExtraInfoType
  spn_trace_enable :: "8 word"
  spn_force_print :: "8 word"
  spn_trace_id :: cbuf
  ref_type' :: "8 word"
  spn_span_id :: cbuf

record FLTDriverSpanInfo =
  drv_type :: FullLinkTraceExtraInfoType
  client_span' :: cbuf

record FLTShowTraceSpan =
  shw_type :: FullLinkTraceExtraInfoType
  client_span_json' :: cbuf

text \<open>
  The chain \<^verbatim>\<open>else if (OB_FAIL(flt_store_...)) ret = OB_ERROR\<close> of the serialisers: the next
  store runs only when all before it succeeded, and every failure becomes \<^verbatim>\<open>OB_ERROR\<close>.
  \<open>flt_reserve\<close> leaves room for the group's own header, \<open>flt_finish\<close> fills it in.
\<close>

definition flt_reserve :: "cbuf \<Rightarrow> int \<Rightarrow> int \<Rightarrow> wresult" where
  "flt_reserve buf len pos =
     (if pos + 6 > len then Some (OB_SIZE_OVERFLOW, buf, pos) else Some (OB_SUCCESS, buf, pos + 6))"

definition flt_then :: "wresult \<Rightarrow> (cbuf \<Rightarrow> int \<Rightarrow> wresult) \<Rightarrow> wresult" where
  "flt_then r store = do {
     (ret, buf, pos) \<leftarrow> r;
     if ret \<noteq> OB_SUCCESS then Some (ret, buf, pos)
     else do {
       (ret, buf, pos) \<leftarrow> store buf pos;
       Some (if ret \<noteq> OB_SUCCESS then OB_ERROR else OB_SUCCESS, buf, pos) } }"

definition flt_finish :: "wresult \<Rightarrow> int \<Rightarrow> int \<Rightarrow> FullLinkTraceExtraInfoType \<Rightarrow> wresult" where
  "flt_finish r len org_pos type = do {
     (ret, buf, pos) \<leftarrow> r;
     if ret \<noteq> OB_SUCCESS then Some (ret, buf, pos)
     else do {
       (ret, buf, _) \<leftarrow> flt_store_type_and_len buf len org_pos (flt_type type) (word_of_int (pos - org_pos - 6));
       Some (if ret \<noteq> OB_SUCCESS then OB_ERROR else OB_SUCCESS, buf, pos) } }"

subsubsection \<open>Control information\<close>

definition flt_get_serialize_size_controlinfo :: "FLTControlInfo \<Rightarrow> (int \<times> 32 word) option" where
  "flt_get_serialize_size_controlinfo info = Some (OB_SUCCESS,
     6 + flt_get_store_int1_size + flt_get_store_double_size + flt_get_store_int1_size
     + flt_get_store_double_size + flt_get_store_int8_size + flt_get_store_int8_size)"

definition flt_serialize_controlinfo :: "cbuf \<Rightarrow> int \<Rightarrow> int \<Rightarrow> FLTControlInfo \<Rightarrow> wresult" where
  "flt_serialize_controlinfo buf len pos info =
     (let r = flt_reserve buf len pos;
          r = flt_then r (\<lambda>buf pos. flt_store_int1 buf len pos (level' info) (flt_id FLT_LEVEL));
          r = flt_then r (\<lambda>buf pos. flt_store_double buf len pos (sample_pct' info) (flt_id FLT_SAMPLE_PERCENTAGE));
          r = flt_then r (\<lambda>buf pos. flt_store_int1 buf len pos (ucast (rp' info)) (flt_id FLT_RECORD_POLICY));
          r = flt_then r (\<lambda>buf pos. flt_store_double buf len pos (print_sample_pct' info) (flt_id FLT_PRINT_SAMPLE_PCT));
          r = flt_then r (\<lambda>buf pos. flt_store_int8 buf len pos (slow_query_threshold' info) (flt_id FLT_SLOW_QUERY_THRES));
          r = flt_then r (\<lambda>buf pos. flt_store_int8 buf len pos (scast (flt_show_trace_enable' info)) (flt_id FLT_SHOW_TRACE_ENABLE))
      in flt_finish r len pos (ctl_type info))"

text \<open>
  The \<^verbatim>\<open>switch\<close> of a field function: a fetch into one member, whose failure becomes
  \<^verbatim>\<open>OB_ERROR\<close>; and the default branch, which adds the position to itself.
\<close>

definition flt_field :: "(int \<times> 'v \<times> int) option \<Rightarrow> ('v \<Rightarrow> 'i) \<Rightarrow> (int \<times> 'i \<times> int) option" where
  "flt_field r setv = do {
     (ret, v, pos) \<leftarrow> r;
     Some (if ret \<noteq> OB_SUCCESS then OB_ERROR else OB_SUCCESS, setv v, pos) }"

definition flt_skip :: "int \<Rightarrow> int \<Rightarrow> 'i \<Rightarrow> (int \<times> 'i \<times> int) option" where
  "flt_skip v_len pos info = Some (OB_SUCCESS, info, pos + (pos + v_len))"

definition flt_deserialize_field_controlinfo ::
  "16 word \<Rightarrow> int \<Rightarrow> cbuf \<Rightarrow> int \<Rightarrow> int \<Rightarrow> FLTControlInfo \<Rightarrow> (int \<times> FLTControlInfo \<times> int) option" where
  "flt_deserialize_field_controlinfo extra_id v_len buf len pos info =
     (if extra_id = flt_id FLT_LEVEL then
        flt_field (flt_get_int1 buf len pos v_len (level' info)) (\<lambda>v. info\<lparr>level' := v\<rparr>)
      else if extra_id = flt_id FLT_SAMPLE_PERCENTAGE then
        flt_field (flt_get_double buf len pos v_len (sample_pct' info)) (\<lambda>v. info\<lparr>sample_pct' := v\<rparr>)
      else if extra_id = flt_id FLT_RECORD_POLICY then do {
        (ret, v, pos) \<leftarrow> flt_get_int1 buf len pos v_len 0;
        Some (if ret \<noteq> OB_SUCCESS then (OB_ERROR, info, pos) else (OB_SUCCESS, info\<lparr>rp' := scast v\<rparr>, pos)) }
      else if extra_id = flt_id FLT_PRINT_SAMPLE_PCT then
        flt_field (flt_get_double buf len pos v_len (print_sample_pct' info)) (\<lambda>v. info\<lparr>print_sample_pct' := v\<rparr>)
      else if extra_id = flt_id FLT_SLOW_QUERY_THRES then
        flt_field (flt_get_int8 buf len pos v_len (slow_query_threshold' info)) (\<lambda>v. info\<lparr>slow_query_threshold' := v\<rparr>)
      else if extra_id = flt_id FLT_SHOW_TRACE_ENABLE then
        flt_field (flt_get_int1 buf len pos v_len (flt_show_trace_enable' info)) (\<lambda>v. info\<lparr>flt_show_trace_enable' := v\<rparr>)
      else flt_skip v_len pos info)"

subsubsection \<open>Application information\<close>

definition str_item_size :: "int \<Rightarrow> cbuf \<Rightarrow> 32 word option" where
  "str_item_size extra str = (case str of
     None \<Rightarrow> Some 0
   | Some s \<Rightarrow> map_option (\<lambda>n. flt_get_store_str_size (word_of_int (n + extra))) (c_strlen s))"

definition flt_get_serialize_size_appinfo :: "FLTAppInfo \<Rightarrow> (int \<times> 32 word) option" where
  "flt_get_serialize_size_appinfo info = do {
     a \<leftarrow> str_item_size 0 (identifier' info);
     b \<leftarrow> str_item_size 0 (module' info);
     c \<leftarrow> str_item_size 0 (action' info);
     d \<leftarrow> str_item_size 0 (client_info' info);
     let local_size = a + b + c + d;
     Some (OB_SUCCESS, if local_size \<noteq> 0 then local_size + 6 else local_size) }"

text \<open>A string member is stored when it is not null: \<^verbatim>\<open>OB_NOT_NULL(s) && OB_FAIL(flt_store_str(...))\<close>.\<close>

definition flt_store_opt_str :: "cbuf \<Rightarrow> int \<Rightarrow> int \<Rightarrow> cbuf \<Rightarrow> 16 word \<Rightarrow> wresult" where
  "flt_store_opt_str buf len pos str type = (case str of
     None \<Rightarrow> Some (OB_SUCCESS, buf, pos)
   | Some s \<Rightarrow> do { n \<leftarrow> c_strlen s; flt_store_str buf len pos str (word_of_int n) type })"

definition flt_serialize_appinfo :: "cbuf \<Rightarrow> int \<Rightarrow> int \<Rightarrow> FLTAppInfo \<Rightarrow> wresult" where
  "flt_serialize_appinfo buf len pos info =
     (let r = flt_reserve buf len pos;
          r = flt_then r (\<lambda>buf pos. flt_store_opt_str buf len pos (identifier' info) (flt_id FLT_CLIENT_IDENTIFIER));
          r = flt_then r (\<lambda>buf pos. flt_store_opt_str buf len pos (module' info) (flt_id FLT_MODULE));
          r = flt_then r (\<lambda>buf pos. flt_store_opt_str buf len pos (action' info) (flt_id FLT_ACTION));
          r = flt_then r (\<lambda>buf pos. flt_store_opt_str buf len pos (client_info' info) (flt_id FLT_CLIENT_INFO))
      in flt_finish r len pos (app_type info))"

definition flt_deserialize_field_appinfo ::
  "16 word \<Rightarrow> int \<Rightarrow> cbuf \<Rightarrow> int \<Rightarrow> int \<Rightarrow> FLTAppInfo \<Rightarrow> (int \<times> FLTAppInfo \<times> int) option" where
  "flt_deserialize_field_appinfo extra_id v_len buf len pos info =
     (if extra_id = flt_id FLT_CLIENT_IDENTIFIER then
        flt_field (flt_get_str buf len pos v_len (identifier' info)) (\<lambda>v. info\<lparr>identifier' := v\<rparr>)
      else if extra_id = flt_id FLT_MODULE then
        flt_field (flt_get_str buf len pos v_len (module' info)) (\<lambda>v. info\<lparr>module' := v\<rparr>)
      else if extra_id = flt_id FLT_ACTION then
        flt_field (flt_get_str buf len pos v_len (action' info)) (\<lambda>v. info\<lparr>action' := v\<rparr>)
      else if extra_id = flt_id FLT_CLIENT_INFO then
        flt_field (flt_get_str buf len pos v_len (client_info' info)) (\<lambda>v. info\<lparr>client_info' := v\<rparr>)
      else flt_skip v_len pos info)"

subsubsection \<open>Query information\<close>

definition flt_get_serialize_size_queryinfo :: "FLTQueryInfo \<Rightarrow> (int \<times> 32 word) option" where
  "flt_get_serialize_size_queryinfo info =
     Some (OB_SUCCESS, 6 + flt_get_store_int8_size + flt_get_store_int8_size)"

definition flt_serialize_queryinfo :: "cbuf \<Rightarrow> int \<Rightarrow> int \<Rightarrow> FLTQueryInfo \<Rightarrow> wresult" where
  "flt_serialize_queryinfo buf len pos info =
     (let r = flt_reserve buf len pos;
          r = flt_then r (\<lambda>buf pos. flt_store_int8 buf len pos (query_start_timestamp' info) (flt_id FLT_QUERY_START_TIMESTAMP));
          r = flt_then r (\<lambda>buf pos. flt_store_int8 buf len pos (query_end_timestamp' info) (flt_id FLT_QUERY_END_TIMESTAMP))
      in flt_finish r len pos (qry_type info))"

definition flt_deserialize_field_queryinfo ::
  "16 word \<Rightarrow> int \<Rightarrow> cbuf \<Rightarrow> int \<Rightarrow> int \<Rightarrow> FLTQueryInfo \<Rightarrow> (int \<times> FLTQueryInfo \<times> int) option" where
  "flt_deserialize_field_queryinfo extra_id v_len buf len pos info =
     (if extra_id = flt_id FLT_QUERY_START_TIMESTAMP then
        flt_field (flt_get_int8 buf len pos v_len (query_start_timestamp' info)) (\<lambda>v. info\<lparr>query_start_timestamp' := v\<rparr>)
      else if extra_id = flt_id FLT_QUERY_END_TIMESTAMP then
        flt_field (flt_get_int8 buf len pos v_len (query_end_timestamp' info)) (\<lambda>v. info\<lparr>query_end_timestamp' := v\<rparr>)
      else flt_skip v_len pos info)"

subsubsection \<open>Span information\<close>

abbreviation (input) UUID4_SERIALIZE_LEN :: "64 word" where "UUID4_SERIALIZE_LEN \<equiv> 16"

definition flt_get_serialize_size_spaninfo :: "FLTSpanInfo \<Rightarrow> (int \<times> 32 word) option" where
  "flt_get_serialize_size_spaninfo info = Some (OB_SUCCESS,
     if spn_trace_enable info = 1 then
       6 + flt_get_store_int1_size + flt_get_store_int1_size + flt_get_store_str_size UUID4_SERIALIZE_LEN
       + flt_get_store_int1_size + flt_get_store_str_size UUID4_SERIALIZE_LEN
     else 0)"

definition flt_serialize_spaninfo :: "cbuf \<Rightarrow> int \<Rightarrow> int \<Rightarrow> FLTSpanInfo \<Rightarrow> wresult" where
  "flt_serialize_spaninfo buf len pos info =
     (if spn_trace_enable info = 1 then
       (let r = flt_reserve buf len pos;
            r = flt_then r (\<lambda>buf pos. flt_store_int1 buf len pos (spn_trace_enable info) (flt_id FLT_TRACE_ENABLE));
            r = flt_then r (\<lambda>buf pos. flt_store_int1 buf len pos (spn_force_print info) (flt_id FLT_FORCE_PRINT));
            r = flt_then r (\<lambda>buf pos. flt_store_str buf len pos (spn_trace_id info) UUID4_SERIALIZE_LEN (flt_id FLT_TRACE_ID));
            r = flt_then r (\<lambda>buf pos. flt_store_int1 buf len pos (ref_type' info) (flt_id FLT_REF_TYPE));
            r = flt_then r (\<lambda>buf pos. flt_store_str buf len pos (spn_span_id info) UUID4_SERIALIZE_LEN (flt_id FLT_SPAN_ID))
        in flt_finish r len pos (spn_type info))
      else Some (OB_SUCCESS, buf, pos))"

definition flt_deserialize_field_spaninfo ::
  "16 word \<Rightarrow> int \<Rightarrow> cbuf \<Rightarrow> int \<Rightarrow> int \<Rightarrow> FLTSpanInfo \<Rightarrow> (int \<times> FLTSpanInfo \<times> int) option" where
  "flt_deserialize_field_spaninfo extra_id v_len buf len pos info =
     (if extra_id = flt_id FLT_TRACE_ENABLE then
        flt_field (flt_get_int1 buf len pos v_len (spn_trace_enable info)) (\<lambda>v. info\<lparr>spn_trace_enable := v\<rparr>)
      else if extra_id = flt_id FLT_FORCE_PRINT then
        flt_field (flt_get_int1 buf len pos v_len (spn_force_print info)) (\<lambda>v. info\<lparr>spn_force_print := v\<rparr>)
      else if extra_id = flt_id FLT_TRACE_ID then
        flt_field (flt_get_str buf len pos v_len (spn_trace_id info)) (\<lambda>v. info\<lparr>spn_trace_id := v\<rparr>)
      else if extra_id = flt_id FLT_REF_TYPE then
        flt_field (flt_get_int1 buf len pos v_len (ref_type' info)) (\<lambda>v. info\<lparr>ref_type' := v\<rparr>)
      else if extra_id = flt_id FLT_SPAN_ID then
        flt_field (flt_get_str buf len pos v_len (spn_span_id info)) (\<lambda>v. info\<lparr>spn_span_id := v\<rparr>)
      else flt_skip v_len pos info)"

subsubsection \<open>Driver spans and show-trace spans\<close>

definition flt_get_serialize_size_driverspaninfo :: "FLTDriverSpanInfo \<Rightarrow> (int \<times> 32 word) option" where
  "flt_get_serialize_size_driverspaninfo info = do {
     n \<leftarrow> str_item_size 1 (client_span' info);
     Some (OB_SUCCESS, if client_span' info \<noteq> None then 6 + n else 0) }"

text \<open>\<^verbatim>\<open>strlen\<close> of a null pointer is undefined: the serialiser itself does not test for null.\<close>

definition flt_store_cstr :: "cbuf \<Rightarrow> int \<Rightarrow> int \<Rightarrow> cbuf \<Rightarrow> 16 word \<Rightarrow> wresult" where
  "flt_store_cstr buf len pos str type = do {
     s \<leftarrow> str;
     n \<leftarrow> c_strlen s;
     flt_store_str buf len pos str (word_of_int (n + 1)) type }"

definition flt_serialize_driverspaninfo :: "cbuf \<Rightarrow> int \<Rightarrow> int \<Rightarrow> FLTDriverSpanInfo \<Rightarrow> wresult" where
  "flt_serialize_driverspaninfo buf len pos info =
     (let r = flt_reserve buf len pos;
          r = flt_then r (\<lambda>buf pos. flt_store_cstr buf len pos (client_span' info) (flt_id FLT_DRIVER_SPAN))
      in flt_finish r len pos (drv_type info))"

definition flt_deserialize_field_driverspaninfo ::
  "16 word \<Rightarrow> int \<Rightarrow> cbuf \<Rightarrow> int \<Rightarrow> int \<Rightarrow> FLTDriverSpanInfo \<Rightarrow> (int \<times> FLTDriverSpanInfo \<times> int) option" where
  "flt_deserialize_field_driverspaninfo extra_id v_len buf len pos info =
     (if extra_id = flt_id FLT_CLIENT_IDENTIFIER then
        flt_field (flt_get_str buf len pos v_len (client_span' info)) (\<lambda>v. info\<lparr>client_span' := v\<rparr>)
      else flt_skip v_len pos info)"

definition flt_get_serialize_size_showtracespan :: "FLTShowTraceSpan \<Rightarrow> (int \<times> 32 word) option" where
  "flt_get_serialize_size_showtracespan info = do {
     n \<leftarrow> str_item_size 1 (client_span_json' info);
     Some (OB_SUCCESS, if client_span_json' info \<noteq> None then 6 + n else 0) }"

definition flt_serialize_showtracespan :: "cbuf \<Rightarrow> int \<Rightarrow> int \<Rightarrow> FLTShowTraceSpan \<Rightarrow> wresult" where
  "flt_serialize_showtracespan buf len pos info =
     (let r = flt_reserve buf len pos;
          r = flt_then r (\<lambda>buf pos. flt_store_cstr buf len pos (client_span_json' info) (flt_id FLT_DRV_SHOW_TRACE_SPAN))
      in flt_finish r len pos (shw_type info))"

definition flt_deserialize_field_showtracespan ::
  "16 word \<Rightarrow> int \<Rightarrow> cbuf \<Rightarrow> int \<Rightarrow> int \<Rightarrow> FLTShowTraceSpan \<Rightarrow> (int \<times> FLTShowTraceSpan \<times> int) option" where
  "flt_deserialize_field_showtracespan extra_id v_len buf len pos info =
     (if extra_id = flt_id FLT_CLIENT_IDENTIFIER then
        flt_field (flt_get_str buf len pos v_len (client_span_json' info)) (\<lambda>v. info\<lparr>client_span_json' := v\<rparr>)
      else flt_skip v_len pos info)"

subsection \<open>Dispatch on the group type\<close>

datatype flt_info =
    ControlInfo FLTControlInfo | AppInfo FLTAppInfo | QueryInfo FLTQueryInfo
  | SpanInfo FLTSpanInfo | DriverSpanInfo FLTDriverSpanInfo | ShowTraceSpan FLTShowTraceSpan

text \<open>Every structure starts with its type (\<^verbatim>\<open>FLTInfoBase\<close>).\<close>

fun info_type :: "flt_info \<Rightarrow> FullLinkTraceExtraInfoType" where
  "info_type (ControlInfo i) = ctl_type i"
| "info_type (AppInfo i) = app_type i"
| "info_type (QueryInfo i) = qry_type i"
| "info_type (SpanInfo i) = spn_type i"
| "info_type (DriverSpanInfo i) = drv_type i"
| "info_type (ShowTraceSpan i) = shw_type i"

type_synonym flt_field_func = "16 word \<Rightarrow> int \<Rightarrow> cbuf \<Rightarrow> int \<Rightarrow> int \<Rightarrow> flt_info \<Rightarrow> (int \<times> flt_info \<times> int) option"

record FLTFunc =
  deserialize_field_func :: flt_field_func
  serialize_func :: "cbuf \<Rightarrow> int \<Rightarrow> int \<Rightarrow> flt_info \<Rightarrow> wresult"
  get_serialize_size_func :: "flt_info \<Rightarrow> (int \<times> 32 word) option"

text \<open>The casts from \<^verbatim>\<open>void *\<close>: a structure of another type is undefined.\<close>

definition cast_field :: "(flt_info \<Rightarrow> 'i option) \<Rightarrow> ('i \<Rightarrow> flt_info)
    \<Rightarrow> (16 word \<Rightarrow> int \<Rightarrow> cbuf \<Rightarrow> int \<Rightarrow> int \<Rightarrow> 'i \<Rightarrow> (int \<times> 'i \<times> int) option) \<Rightarrow> flt_field_func" where
  "cast_field dest mk f extra_id v_len buf len pos info = do {
     i \<leftarrow> dest info;
     (ret, i, pos) \<leftarrow> f extra_id v_len buf len pos i;
     Some (ret, mk i, pos) }"

fun as_control :: "flt_info \<Rightarrow> FLTControlInfo option" where
  "as_control (ControlInfo i) = Some i" | "as_control _ = None"
fun as_app :: "flt_info \<Rightarrow> FLTAppInfo option" where
  "as_app (AppInfo i) = Some i" | "as_app _ = None"
fun as_query :: "flt_info \<Rightarrow> FLTQueryInfo option" where
  "as_query (QueryInfo i) = Some i" | "as_query _ = None"
fun as_span :: "flt_info \<Rightarrow> FLTSpanInfo option" where
  "as_span (SpanInfo i) = Some i" | "as_span _ = None"
fun as_driver :: "flt_info \<Rightarrow> FLTDriverSpanInfo option" where
  "as_driver (DriverSpanInfo i) = Some i" | "as_driver _ = None"
fun as_show :: "flt_info \<Rightarrow> FLTShowTraceSpan option" where
  "as_show (ShowTraceSpan i) = Some i" | "as_show _ = None"

definition flt_entry :: "(flt_info \<Rightarrow> 'i option) \<Rightarrow> ('i \<Rightarrow> flt_info)
    \<Rightarrow> (16 word \<Rightarrow> int \<Rightarrow> cbuf \<Rightarrow> int \<Rightarrow> int \<Rightarrow> 'i \<Rightarrow> (int \<times> 'i \<times> int) option)
    \<Rightarrow> (cbuf \<Rightarrow> int \<Rightarrow> int \<Rightarrow> 'i \<Rightarrow> wresult) \<Rightarrow> ('i \<Rightarrow> (int \<times> 32 word) option) \<Rightarrow> FLTFunc" where
  "flt_entry dest mk des ser sz = \<lparr>
     deserialize_field_func = cast_field dest mk des,
     serialize_func = (\<lambda>buf len pos info. do { i \<leftarrow> dest info; ser buf len pos i }),
     get_serialize_size_func = (\<lambda>info. do { i \<leftarrow> dest info; sz i })\<rparr>"

text \<open>
  The table \<^verbatim>\<open>flt_funcs\<close> as \<^verbatim>\<open>FLT_SERIALIZE_FUNC_INIT\<close> fills it; all other entries are null
  pointers.
\<close>

fun flt_funcs :: "FullLinkTraceExtraInfoType \<Rightarrow> FLTFunc option" where
  "flt_funcs FLT_DRIVER_SPAN_INFO = Some (flt_entry as_driver DriverSpanInfo
     flt_deserialize_field_driverspaninfo flt_serialize_driverspaninfo flt_get_serialize_size_driverspaninfo)"
| "flt_funcs FLT_APP_INFO = Some (flt_entry as_app AppInfo
     flt_deserialize_field_appinfo flt_serialize_appinfo flt_get_serialize_size_appinfo)"
| "flt_funcs FLT_QUERY_INFO = Some (flt_entry as_query QueryInfo
     flt_deserialize_field_queryinfo flt_serialize_queryinfo flt_get_serialize_size_queryinfo)"
| "flt_funcs FLT_CONTROL_INFO = Some (flt_entry as_control ControlInfo
     flt_deserialize_field_controlinfo flt_serialize_controlinfo flt_get_serialize_size_controlinfo)"
| "flt_funcs FLT_SPAN_INFO = Some (flt_entry as_span SpanInfo
     flt_deserialize_field_spaninfo flt_serialize_spaninfo flt_get_serialize_size_spaninfo)"
| "flt_funcs FLT_TYPE_SHOW_TRACE_SPAN = Some (flt_entry as_show ShowTraceSpan
     flt_deserialize_field_showtracespan flt_serialize_showtracespan flt_get_serialize_size_showtracespan)"
| "flt_funcs _ = None"

definition flt_serialize_extra_info :: "cbuf \<Rightarrow> int \<Rightarrow> int \<Rightarrow> flt_info \<Rightarrow> wresult" where
  "flt_serialize_extra_info buf len pos info = do {
     f \<leftarrow> flt_funcs (info_type info);
     serialize_func f buf len pos info }"

definition flt_get_serialize_size_extra_info :: "flt_info \<Rightarrow> (int \<times> 32 word) option" where
  "flt_get_serialize_size_extra_info info = do {
     f \<leftarrow> flt_funcs (info_type info);
     get_serialize_size_func f info }"

text \<open>
  The loop over the items of a group.  A length may be negative and the skip of an unknown
  item adds the position twice, so the position need not grow: the loop is a partial function,
  and not returning is \<open>None\<close> as well.
\<close>

partial_function (option) flt_deserialize_loop ::
  "(16 word \<Rightarrow> int \<Rightarrow> cbuf \<Rightarrow> int \<Rightarrow> int \<Rightarrow> 'i \<Rightarrow> (int \<times> 'i \<times> int) option)
   \<Rightarrow> cbuf \<Rightarrow> int \<Rightarrow> int \<Rightarrow> 'i \<Rightarrow> (int \<times> 'i \<times> int) option" where
  "flt_deserialize_loop f buf len pos info =
     (if pos < len then do {
        (ret, extra_id, val_len, pos) \<leftarrow> flt_resolve_type_and_len buf len pos 0 0;
        if ret \<noteq> OB_SUCCESS then Some (OB_ERROR, info, pos)
        else do {
          (ret, info, pos) \<leftarrow> f extra_id (sint val_len) buf len pos info;
          if ret \<noteq> OB_SUCCESS then Some (OB_ERROR, info, pos)
          else flt_deserialize_loop f buf len pos info } }
      else Some (OB_SUCCESS, info, pos))"

definition flt_deserialize_extra_info ::
  "cbuf \<Rightarrow> int \<Rightarrow> int \<Rightarrow> FullLinkTraceExtraInfoType \<Rightarrow> flt_info \<Rightarrow> (int \<times> flt_info \<times> int) option" where
  "flt_deserialize_extra_info buf len pos type info =
     flt_deserialize_loop
       (\<lambda>extra_id v_len buf len pos info. do {
          f \<leftarrow> flt_funcs type;
          deserialize_field_func f extra_id v_len buf len pos info })
       buf len pos info"

subsection \<open>The encoding of an item, and the contracts of the store functions\<close>

definition tlv :: "16 word \<Rightarrow> mem \<Rightarrow> mem" where
  "tlv type bs = le_bytes 2 type @ le_bytes 4 (word_of_nat (length bs) :: 32 word) @ bs"

lemma length_tlv [simp]: "length (tlv type bs) = 6 + length bs"
  by (simp add: tlv_def)

lemma le_bytes_cong:
  "(\<And>i. i < 8 * n \<Longrightarrow> bit v i \<longleftrightarrow> bit w i) \<Longrightarrow> le_bytes n (v :: 'a::len word) = le_bytes n (w :: 'b::len word)"
  by (auto simp: le_bytes_def bit_simps intro!: bit_word_eqI)

lemma le_bytes_scast:
  "8 * n \<le> LENGTH('a) \<Longrightarrow> 8 * n \<le> LENGTH('b) \<Longrightarrow>
   le_bytes n (scast (v :: 'a::len word) :: 'b::len word) = le_bytes n v"
  by (rule le_bytes_cong) (auto simp: bit_simps)

lemma le_bytes_word_of_nat:
  "8 * n \<le> LENGTH('a) \<Longrightarrow> 8 * n \<le> LENGTH('b) \<Longrightarrow>
   le_bytes n (word_of_nat k :: 'a::len word) = le_bytes n (word_of_nat k :: 'b::len word)"
  by (rule le_bytes_cong) (auto simp: bit_simps)

lemma store_tlv:
  assumes "0 \<le> pos" and "pos + 6 + int (length bs) \<le> int (length m)"
  shows "do { m \<leftarrow> int2store m pos (scast type);
              m \<leftarrow> int4store m (pos + 2) (word_of_nat (length bs));
              m \<leftarrow> store_bytes m (pos + 6) bs;
              f m } = f (put m pos (tlv type bs))"
proof -
  have h: "le_bytes 2 (scast type :: 64 word) = le_bytes 2 type"
    "le_bytes 4 (word_of_nat (length bs) :: 64 word) = le_bytes 4 (word_of_nat (length bs) :: 32 word)"
    by (simp_all add: le_bytes_scast le_bytes_word_of_nat [where ?'a = 64 and ?'b = 32])
  let ?a = "le_bytes 2 type" and ?b = "le_bytes 4 (word_of_nat (length bs) :: 32 word)"
  have "store_bytes m pos ?a = Some (put m pos ?a)"
    using assms by (simp add: store_bytes_def)
  moreover have "store_bytes (put m pos ?a) (pos + 2) ?b = Some (put m pos (?a @ ?b))"
    using assms put_put_adjacent [of pos ?a ?b m] by (simp add: store_bytes_def)
  moreover have "store_bytes (put m pos (?a @ ?b)) (pos + 6) bs = Some (put m pos (tlv type bs))"
    using assms put_put_adjacent [of pos "?a @ ?b" bs m] by (simp add: store_bytes_def tlv_def)
  ultimately show ?thesis by (simp add: le_simps h)
qed

lemma flt_store_int_tlv:
  assumes "n \<in> {1, 2, 3, 4, 5, 6, 8}" and "0 \<le> pos" and "len \<le> int (length m)"
  shows "flt_store_int (Some m) len pos v type (int n) =
    (if pos + 6 + int n \<le> len
     then Some (OB_SUCCESS, Some (put m pos (tlv type (le_bytes n v))), pos + 6 + int n)
     else Some (OB_ERROR, Some m, pos))"
proof (cases "pos + 6 + int n \<le> len")
  case True
  have "(if int n = 1 then int1store m' (pos + 6) v else if int n = 2 then int2store m' (pos + 6) v
      else if int n = 3 then int3store m' (pos + 6) v else if int n = 4 then int4store m' (pos + 6) v
      else if int n = 5 then int5store m' (pos + 6) v else if int n = 6 then int6store m' (pos + 6) v
      else if int n = 8 then int8store m' (pos + 6) v else Some m') = store_bytes m' (pos + 6) (le_bytes n v)" for m'
    using assms(1) by (auto simp: le_simps)
  moreover have "pos + 6 + int (length (le_bytes n v)) \<le> int (length m)"
    using True assms by simp
  note store_tlv [OF assms(2) this, of type "\<lambda>m. Some (OB_SUCCESS, Some m, pos + 6 + int n)"]
  ultimately show ?thesis
    using True by (simp add: flt_store_int_def)
next
  case False
  then show ?thesis by (simp add: flt_store_int_def)
qed

lemma le_bytes_1: "le_bytes 1 (scast (v :: byte) :: 64 word) = [v]"
  by (simp add: le_bytes_def) (rule bit_word_eqI, simp add: bit_simps)

lemma store_null [simp]:
  "flt_store_int None len pos v type n = Some (OB_ERROR, None, pos)"
  "flt_store_str None len pos s n' type = Some (OB_ERROR, None, pos)"
  "flt_store_double None len pos d type = Some (OB_ERROR, None, pos)"
  "flt_store_float None len pos f type = Some (OB_ERROR, None, pos)"
  by (simp_all add: flt_store_int_def flt_store_str_def flt_store_double_def flt_store_float_def)

interpretation flt_int1: byte_writer "\<lambda>buf len pos v. flt_store_int1 buf len pos v type"
    "\<lambda>v. tlv type [v]" "\<lambda>_. True" OB_ERROR for type
  by unfold_locales
    (auto simp: flt_store_int1_def flt_store_int_tlv [where n = 1, simplified] le_bytes_1 [simplified])

interpretation flt_int2: byte_writer "\<lambda>buf len pos v. flt_store_int2 buf len pos v type"
    "\<lambda>v. tlv type (le_bytes 2 v)" "\<lambda>_. True" OB_ERROR for type
  by unfold_locales (auto simp: flt_store_int2_def flt_store_int_tlv [where n = 2, simplified] le_bytes_scast)

interpretation flt_int3: byte_writer "\<lambda>buf len pos v. flt_store_int3 buf len pos v type"
    "\<lambda>v. tlv type (le_bytes 3 v)" "\<lambda>_. True" OB_ERROR for type
  by unfold_locales (auto simp: flt_store_int3_def flt_store_int_tlv [where n = 3, simplified] le_bytes_scast)

interpretation flt_int4: byte_writer "\<lambda>buf len pos v. flt_store_int4 buf len pos v type"
    "\<lambda>v. tlv type (le_bytes 4 v)" "\<lambda>_. True" OB_ERROR for type
  by unfold_locales (auto simp: flt_store_int4_def flt_store_int_tlv [where n = 4, simplified] le_bytes_scast)

interpretation flt_int5: byte_writer "\<lambda>buf len pos v. flt_store_int5 buf len pos v type"
    "\<lambda>v. tlv type (le_bytes 5 v)" "\<lambda>_. True" OB_ERROR for type
  by unfold_locales (auto simp: flt_store_int5_def flt_store_int_tlv [where n = 5, simplified])

interpretation flt_int6: byte_writer "\<lambda>buf len pos v. flt_store_int6 buf len pos v type"
    "\<lambda>v. tlv type (le_bytes 6 v)" "\<lambda>_. True" OB_ERROR for type
  by unfold_locales (auto simp: flt_store_int6_def flt_store_int_tlv [where n = 6, simplified])

text \<open>
  \<^verbatim>\<open>flt_store_int8\<close>: the header announces 7 bytes, none is written, and the position moves
  over whatever the buffer held.
\<close>

lemma flt_store_int8_keeps_value:
  assumes "0 \<le> pos" and "pos + 13 \<le> len" and "len \<le> int (length m)"
  shows "flt_store_int8 (Some m) len pos v type =
    Some (OB_SUCCESS, Some (put m pos (le_bytes 2 type @ le_bytes 4 (7 :: 32 word))), pos + 13)"
proof -
  let ?a = "le_bytes 2 type" and ?b = "le_bytes 4 (7 :: 32 word)"
  have h: "le_bytes 2 (scast type :: 64 word) = ?a" "le_bytes 4 (7 :: 64 word) = ?b"
    using le_bytes_word_of_nat [where n = 4 and k = 7 and ?'a = 64 and ?'b = 32]
    by (simp_all add: le_bytes_scast)
  have "store_bytes m pos ?a = Some (put m pos ?a)"
    using assms by (simp add: store_bytes_def)
  moreover have "store_bytes (put m pos ?a) (pos + 2) ?b = Some (put m pos (?a @ ?b))"
    using assms put_put_adjacent [of pos ?a ?b m] by (simp add: store_bytes_def)
  ultimately show ?thesis
    using assms by (simp add: flt_store_int8_def flt_store_int_def le_simps h)
qed

lemma to_uint64_id [simp]: "0 \<le> x \<Longrightarrow> x < 2 ^ 64 \<Longrightarrow> to_uint64 x = x"
  unfolding to_uint64_def by (simp add: unsigned_of_int take_bit_int_eq_self)

lemma flt_store_double_tlv:
  assumes "0 \<le> pos" and "pos \<le> len" and "len \<le> int (length m)" and "len < 2 ^ 31"
  shows "flt_store_double (Some m) len pos v type =
    (if pos + 14 \<le> len
     then Some (OB_SUCCESS, Some (put m pos (tlv type (le_bytes 8 v))), pos + 14)
     else Some (OB_ERROR, Some m, pos))"
proof (cases "pos + 14 \<le> len")
  case True
  then have "pos + 6 + int (length (le_bytes 8 v)) \<le> int (length m)" using assms by simp
  note store_tlv [OF assms(1) this, of type "\<lambda>m. Some (OB_SUCCESS, Some m, pos + 6 + DBL_SIZE)"]
  then show ?thesis
    using True assms by (simp add: flt_store_double_def add.commute [of _ pos])
next
  case False
  then show ?thesis using assms by (simp add: flt_store_double_def)
qed

lemma flt_store_float_tlv:
  assumes "0 \<le> pos" and "pos \<le> len" and "len \<le> int (length m)" and "len < 2 ^ 31"
  shows "flt_store_float (Some m) len pos v type =
    (if pos + 10 \<le> len
     then Some (OB_SUCCESS, Some (put m pos (tlv type (le_bytes 4 v))), pos + 10)
     else Some (OB_ERROR, Some m, pos))"
proof (cases "pos + 10 \<le> len")
  case True
  then have "pos + 6 + int (length (le_bytes 4 v)) \<le> int (length m)" using assms by simp
  note store_tlv [OF assms(1) this, of type "\<lambda>m. Some (OB_SUCCESS, Some m, pos + 6 + FLT_SIZE)"]
  then show ?thesis
    using True assms by (simp add: flt_store_float_def add.commute [of _ pos])
next
  case False
  then show ?thesis using assms by (simp add: flt_store_float_def)
qed

interpretation flt_double: byte_writer "\<lambda>buf len pos v. flt_store_double buf len pos v type"
    "\<lambda>v. tlv type (le_bytes 8 v)" "\<lambda>_. True" OB_ERROR for type
  by unfold_locales (auto simp: flt_store_double_tlv)

interpretation flt_float: byte_writer "\<lambda>buf len pos v. flt_store_float buf len pos v type"
    "\<lambda>v. tlv type (le_bytes 4 v)" "\<lambda>_. True" OB_ERROR for type
  by unfold_locales (auto simp: flt_store_float_tlv)

text \<open>A string is given with a length; the object it lies in may go on behind it.\<close>

lemma flt_store_str_tlv:
  assumes "0 \<le> pos" and "len \<le> int (length m)" and "len < 2 ^ 31"
    and s: "load_bytes s 0 n = Some bs" and n: "n < 2 ^ 31"
  shows "flt_store_str (Some m) len pos (Some s) (word_of_nat n) type =
    (if pos + 6 + int n \<le> len
     then Some (OB_SUCCESS, Some (put m pos (tlv type bs)), pos + 6 + int n)
     else Some (OB_ERROR, Some m, pos))"
proof -
  have un: "unat (word_of_nat n :: 64 word) = n" "uint (word_of_nat n :: 64 word) = int n"
    using n by (simp_all add: unat_of_nat unsigned_of_nat take_bit_nat_eq_self)
  have bs: "length bs = n" using s by (auto simp: load_bytes_def split: if_splits)
  show ?thesis
  proof (cases "pos + 6 + int n \<le> len")
    case True
    then have "pos + 6 + int (length bs) \<le> int (length m)" using assms bs by simp
    note store_tlv [OF assms(1) this, of type "\<lambda>m. Some (OB_SUCCESS, Some m, pos + 6 + int n)"]
    then show ?thesis
      using True s bs un by (simp add: flt_store_str_def sint_word_of_length [OF n])
  next
    case False
    then show ?thesis by (simp add: flt_store_str_def sint_word_of_length [OF n])
  qed
qed

interpretation flt_str: byte_writer "\<lambda>buf len pos s. flt_store_str buf len pos (Some s) (word_of_nat (length s)) type"
    "tlv type" "\<lambda>s. length s < 2 ^ 31" OB_ERROR for type
proof -
  have "load_bytes s 0 (length s) = Some s" for s by (simp add: load_bytes_def)
  note str = flt_store_str_tlv [OF _ _ _ this]
  show "byte_writer (\<lambda>buf len pos s. flt_store_str buf len pos (Some s) (word_of_nat (length s)) type)
      (tlv type) (\<lambda>s. length s < 2 ^ 31) OB_ERROR"
    by unfold_locales (auto simp: str)
qed

subsection \<open>Serialising a group\<close>

text \<open>\<open>written len m a xs r\<close>: the chain has come as far as writing \<open>xs\<close> at \<open>a\<close>.\<close>

definition written :: "int \<Rightarrow> mem \<Rightarrow> int \<Rightarrow> mem \<Rightarrow> wresult \<Rightarrow> bool" where
  "written len m a xs r \<longleftrightarrow> r = Some (OB_SUCCESS, Some (put m a xs), a + int (length xs))
     \<and> 0 \<le> a \<and> len \<le> int (length m) \<and> len < 2 ^ 31"

lemma writtenD:
  assumes "written len m a xs r"
  shows "r = Some (OB_SUCCESS, Some (put m a xs), a + int (length xs))"
    and "0 \<le> a" and "len \<le> int (length m)" and "len < 2 ^ 31"
  using assms by (simp_all add: written_def)

context byte_writer begin

lemma then_written:
  assumes "written len m a xs r" and "ok v" and "a + int (length xs) + int (length (enc v)) \<le> len"
  shows "written len m a (xs @ enc v) (flt_then r (\<lambda>buf pos. wr buf len pos v))"
proof -
  note assms = assms(2-) writtenD [OF assms(1)]
  have "wr (Some (put m a xs)) len (a + int (length xs)) v =
      Some (OB_SUCCESS, Some (put (put m a xs) (a + int (length xs)) (enc v)), a + int (length xs) + int (length (enc v)))"
    using assms by (intro write_fits) simp_all
  then show ?thesis
    using assms put_put_adjacent [of a xs "enc v" m] by (simp add: written_def flt_then_def)
qed

end

lemma put_put_before:
  assumes "0 \<le> a" and "nat a + length xs + length ys \<le> length m"
  shows "put (put m (a + int (length xs)) ys) a xs = put m a (xs @ ys)"
proof -
  from assms(1) obtain n where n: "a = int n" by (metis nonneg_int_cases)
  have "nat (int n + int (length xs)) = n + length xs" by simp
  then show ?thesis using assms(2) by (simp add: put_def n ac_simps)
qed

lemma finish_written:
  assumes "written len m (pos + 6) xs r" and "0 \<le> pos" and "pos + 6 + int (length xs) \<le> len"
  shows "flt_finish r len pos type
    = Some (OB_SUCCESS, Some (put m pos (tlv (flt_type type) xs)), pos + 6 + int (length xs))"
proof -
  let ?a = "le_bytes 2 (flt_type type)" and ?b = "le_bytes 4 (word_of_nat (length xs) :: 32 word)"
  let ?m = "put m (pos + 6) xs"
  note assms = assms(2-) writtenD [OF assms(1)]
  have h: "le_bytes 2 (scast (flt_type type) :: 64 word) = ?a"
    "le_bytes 4 (scast (word_of_nat (length xs) :: 32 word) :: 64 word) = ?b"
    by (simp_all add: le_bytes_scast)
  have len: "length ?m = length m" using assms by simp
  have "store_bytes ?m pos ?a = Some (put ?m pos ?a)"
    using assms len by (simp add: store_bytes_def)
  moreover have "store_bytes (put ?m pos ?a) (pos + 2) ?b = Some (put ?m pos (?a @ ?b))"
    using assms len put_put_adjacent [of pos ?a ?b ?m] by (simp add: store_bytes_def)
  moreover have "put ?m pos (?a @ ?b) = put m pos (tlv (flt_type type) xs)"
    using assms put_put_before [of pos "?a @ ?b" xs m] by (simp add: tlv_def)
  ultimately show ?thesis
    using assms by (simp add: flt_finish_def flt_store_type_and_len_def le_simps h)
qed

lemma reserve_written:
  "0 \<le> pos \<Longrightarrow> pos + 6 \<le> len \<Longrightarrow> len \<le> int (length m) \<Longrightarrow> len < 2 ^ 31 \<Longrightarrow>
   written len m (pos + 6) [] (flt_reserve (Some m) len pos)"
  by (simp add: flt_reserve_def written_def)

text \<open>C strings: the bytes before the terminator.\<close>

definition cstr :: "mem \<Rightarrow> mem" where
  "cstr s = takeWhile (\<lambda>b. b \<noteq> 0) s"

lemma c_strlen_eq: "c_strlen s = (if 0 \<in> set s then Some (int (length (cstr s))) else None)"
  by (induction s) (auto simp: cstr_def)

lemma load_cstr: "load_bytes s 0 (length (cstr s)) = Some (cstr s)"
  by (simp add: load_bytes_def cstr_def takeWhile_eq_take [symmetric] length_takeWhile_le)

lemma load_cstr_nul: "0 \<in> set s \<Longrightarrow> load_bytes s 0 (Suc (length (cstr s))) = Some (cstr s @ [0])"
proof (induction s)
  case (Cons b s)
  then show ?case
  proof (cases "b = 0")
    case False
    with Cons show ?thesis by (auto simp: load_bytes_def cstr_def split: if_splits)
  qed (simp add: load_bytes_def cstr_def)
qed simp

definition str_item :: "16 word \<Rightarrow> cbuf \<Rightarrow> mem" where
  "str_item type s = (case s of None \<Rightarrow> [] | Some s \<Rightarrow> tlv type (cstr s))"

definition str_ok :: "cbuf \<Rightarrow> bool" where
  "str_ok s \<longleftrightarrow> (case s of None \<Rightarrow> True | Some s \<Rightarrow> 0 \<in> set s \<and> length s < 2 ^ 31)"

lemma cstr_le: "length (cstr s) \<le> length s"
  by (simp add: cstr_def length_takeWhile_le)

lemma flt_store_opt_str_tlv:
  assumes "str_ok s" and "0 \<le> pos" and "pos \<le> len" and "len \<le> int (length m)" and "len < 2 ^ 31"
  shows "flt_store_opt_str (Some m) len pos s type =
    (if pos + int (length (str_item type s)) \<le> len
     then Some (OB_SUCCESS, Some (put m pos (str_item type s)), pos + int (length (str_item type s)))
     else Some (OB_ERROR, Some m, pos))"
proof (cases s)
  case None
  with assms show ?thesis by (simp add: flt_store_opt_str_def str_item_def)
next
  case (Some t)
  with assms(1) have t: "0 \<in> set t" "length (cstr t) < 2 ^ 31"
    using cstr_le [of t] by (auto simp: str_ok_def)
  show ?thesis
    using flt_store_str_tlv [OF assms(2,4,5) load_cstr t(2), of type] t
    by (simp add: Some flt_store_opt_str_def str_item_def c_strlen_eq add.assoc)
qed

lemma then_opt_str:
  assumes "written len m a xs r" and "str_ok s" and "a + int (length xs) + int (length (str_item type s)) \<le> len"
  shows "written len m a (xs @ str_item type s) (flt_then r (\<lambda>buf pos. flt_store_opt_str buf len pos s type))"
  using assms(2-) writtenD [OF assms(1)] put_put_adjacent [of a xs "str_item type s" m]
  by (simp add: written_def flt_then_def flt_store_opt_str_tlv)

lemma then_str:
  assumes "written len m a xs r" and s: "load_bytes s 0 n = Some bs"
    and "a + int (length xs) + 6 + int n \<le> len"
  shows "written len m a (xs @ tlv type bs)
    (flt_then r (\<lambda>buf pos. flt_store_str buf len pos (Some s) (word_of_nat n) type))"
proof -
  note assms = assms(2-) writtenD [OF assms(1)]
  have n: "length bs = n" using s by (auto simp: load_bytes_def split: if_splits)
  then have "n < 2 ^ 31" using assms by simp
  then have "flt_store_str (Some (put m a xs)) len (a + int (length xs)) (Some s) (word_of_nat n) type =
      Some (OB_SUCCESS, Some (put (put m a xs) (a + int (length xs)) (tlv type bs)), a + int (length xs) + 6 + int n)"
    using flt_store_str_tlv [OF _ _ _ s, of "a + int (length xs)" len "put m a xs"] assms by simp
  then show ?thesis
    using assms n put_put_adjacent [of a xs "tlv type bs" m] by (simp add: written_def flt_then_def ac_simps)
qed

lemma then_cstr:
  assumes "written len m a xs r" and "str_ok (Some s)" and "a + int (length xs) + 7 + int (length (cstr s)) \<le> len"
  shows "written len m a (xs @ tlv type (cstr s @ [0])) (flt_then r (\<lambda>buf pos. flt_store_cstr buf len pos (Some s) type))"
proof -
  have s: "0 \<in> set s" using assms(2) by (simp add: str_ok_def)
  have "flt_store_cstr buf len pos (Some s) type =
      flt_store_str buf len pos (Some s) (word_of_nat (Suc (length (cstr s)))) type" for buf pos
    using s by (simp add: flt_store_cstr_def c_strlen_eq ac_simps)
  then show ?thesis
    using then_str [OF assms(1) load_cstr_nul [OF s]] assms(3) by simp
qed

text \<open>The bodies of the groups.\<close>

definition app_body :: "FLTAppInfo \<Rightarrow> mem" where
  "app_body info = str_item (flt_id FLT_CLIENT_IDENTIFIER) (identifier' info)
     @ str_item (flt_id FLT_MODULE) (module' info)
     @ str_item (flt_id FLT_ACTION) (action' info)
     @ str_item (flt_id FLT_CLIENT_INFO) (client_info' info)"

definition app_ok :: "FLTAppInfo \<Rightarrow> bool" where
  "app_ok info \<longleftrightarrow> str_ok (identifier' info) \<and> str_ok (module' info) \<and> str_ok (action' info)
     \<and> str_ok (client_info' info)"

definition span_body :: "FLTSpanInfo \<Rightarrow> mem" where
  "span_body info = tlv (flt_id FLT_TRACE_ENABLE) [spn_trace_enable info]
     @ tlv (flt_id FLT_FORCE_PRINT) [spn_force_print info]
     @ tlv (flt_id FLT_TRACE_ID) (take 16 (the (spn_trace_id info)))
     @ tlv (flt_id FLT_REF_TYPE) [ref_type' info]
     @ tlv (flt_id FLT_SPAN_ID) (take 16 (the (spn_span_id info)))"

definition span_ok :: "FLTSpanInfo \<Rightarrow> bool" where
  "span_ok info \<longleftrightarrow> spn_trace_enable info = 1
     \<and> (case spn_trace_id info of None \<Rightarrow> False | Some s \<Rightarrow> 16 \<le> length s)
     \<and> (case spn_span_id info of None \<Rightarrow> False | Some s \<Rightarrow> 16 \<le> length s)"

lemma appinfo_fits:
  assumes "app_ok info" and "0 \<le> pos" and "pos + 6 + int (length (app_body info)) \<le> len"
    and "len \<le> int (length m)" and "len < 2 ^ 31"
  shows "flt_serialize_appinfo (Some m) len pos info =
    Some (OB_SUCCESS, Some (put m pos (tlv (flt_type (app_type info)) (app_body info))),
      pos + 6 + int (length (app_body info)))"
proof -
  have "written len m (pos + 6)
      (((([] @ str_item (flt_id FLT_CLIENT_IDENTIFIER) (identifier' info)) @ str_item (flt_id FLT_MODULE) (module' info))
        @ str_item (flt_id FLT_ACTION) (action' info)) @ str_item (flt_id FLT_CLIENT_INFO) (client_info' info))
      (flt_then (flt_then (flt_then (flt_then (flt_reserve (Some m) len pos)
        (\<lambda>buf pos. flt_store_opt_str buf len pos (identifier' info) (flt_id FLT_CLIENT_IDENTIFIER)))
        (\<lambda>buf pos. flt_store_opt_str buf len pos (module' info) (flt_id FLT_MODULE)))
        (\<lambda>buf pos. flt_store_opt_str buf len pos (action' info) (flt_id FLT_ACTION)))
        (\<lambda>buf pos. flt_store_opt_str buf len pos (client_info' info) (flt_id FLT_CLIENT_INFO)))"
    by (intro then_opt_str reserve_written) (use assms in \<open>simp_all add: app_ok_def app_body_def\<close>)
  from finish_written [OF this assms(2), of "app_type info"] assms show ?thesis
    unfolding flt_serialize_appinfo_def Let_def by (simp add: app_body_def add.assoc)
qed

lemma spaninfo_fits:
  assumes "span_ok info" and "0 \<le> pos" and "pos + 71 \<le> len" and "len \<le> int (length m)" and "len < 2 ^ 31"
  shows "flt_serialize_spaninfo (Some m) len pos info =
    Some (OB_SUCCESS, Some (put m pos (tlv (flt_type (spn_type info)) (span_body info))), pos + 71)"
proof -
  from assms(1) obtain s t where s: "spn_trace_id info = Some s" "16 \<le> length s"
    and t: "spn_span_id info = Some t" "16 \<le> length t" and en: "spn_trace_enable info = 1"
    by (auto simp: span_ok_def split: option.splits)
  have ld: "load_bytes s 0 16 = Some (take 16 s)" "load_bytes t 0 16 = Some (take 16 t)"
    using s t by (simp_all add: load_bytes_def)
  note str = then_str [where n = 16, simplified]
  have "written len m (pos + 6)
      ((((([] @ tlv (flt_id FLT_TRACE_ENABLE) [spn_trace_enable info]) @ tlv (flt_id FLT_FORCE_PRINT) [spn_force_print info])
        @ tlv (flt_id FLT_TRACE_ID) (take 16 s)) @ tlv (flt_id FLT_REF_TYPE) [ref_type' info])
        @ tlv (flt_id FLT_SPAN_ID) (take 16 t))
      (flt_then (flt_then (flt_then (flt_then (flt_then (flt_reserve (Some m) len pos)
        (\<lambda>buf pos. flt_store_int1 buf len pos (spn_trace_enable info) (flt_id FLT_TRACE_ENABLE)))
        (\<lambda>buf pos. flt_store_int1 buf len pos (spn_force_print info) (flt_id FLT_FORCE_PRINT)))
        (\<lambda>buf pos. flt_store_str buf len pos (Some s) 16 (flt_id FLT_TRACE_ID)))
        (\<lambda>buf pos. flt_store_int1 buf len pos (ref_type' info) (flt_id FLT_REF_TYPE)))
        (\<lambda>buf pos. flt_store_str buf len pos (Some t) 16 (flt_id FLT_SPAN_ID)))"
    by (intro str flt_int1.then_written reserve_written) (use assms s t ld in simp_all)
  from finish_written [OF this assms(2), of "spn_type info"] assms s t show ?thesis
    unfolding flt_serialize_spaninfo_def Let_def using en by (simp add: span_body_def)
qed

lemma driverspaninfo_fits:
  assumes "client_span' info = Some s" and "str_ok (Some s)" and "0 \<le> pos"
    and "pos + 13 + int (length (cstr s)) \<le> len" and "len \<le> int (length m)" and "len < 2 ^ 31"
  shows "flt_serialize_driverspaninfo (Some m) len pos info =
    Some (OB_SUCCESS, Some (put m pos (tlv (flt_type (drv_type info)) (tlv (flt_id FLT_DRIVER_SPAN) (cstr s @ [0])))),
      pos + 13 + int (length (cstr s)))"
proof -
  have "written len m (pos + 6) ([] @ tlv (flt_id FLT_DRIVER_SPAN) (cstr s @ [0]))
      (flt_then (flt_reserve (Some m) len pos)
        (\<lambda>buf pos. flt_store_cstr buf len pos (Some s) (flt_id FLT_DRIVER_SPAN)))"
    by (intro then_cstr reserve_written) (use assms in simp_all)
  from finish_written [OF this assms(3), of "drv_type info"] assms show ?thesis
    unfolding flt_serialize_driverspaninfo_def Let_def by (simp add: add.assoc)
qed

lemma showtracespan_fits:
  assumes "client_span_json' info = Some s" and "str_ok (Some s)" and "0 \<le> pos"
    and "pos + 13 + int (length (cstr s)) \<le> len" and "len \<le> int (length m)" and "len < 2 ^ 31"
  shows "flt_serialize_showtracespan (Some m) len pos info =
    Some (OB_SUCCESS, Some (put m pos (tlv (flt_type (shw_type info)) (tlv (flt_id FLT_DRV_SHOW_TRACE_SPAN) (cstr s @ [0])))),
      pos + 13 + int (length (cstr s)))"
proof -
  have "written len m (pos + 6) ([] @ tlv (flt_id FLT_DRV_SHOW_TRACE_SPAN) (cstr s @ [0]))
      (flt_then (flt_reserve (Some m) len pos)
        (\<lambda>buf pos. flt_store_cstr buf len pos (Some s) (flt_id FLT_DRV_SHOW_TRACE_SPAN)))"
    by (intro then_cstr reserve_written) (use assms in simp_all)
  from finish_written [OF this assms(3), of "shw_type info"] assms show ?thesis
    unfolding flt_serialize_showtracespan_def Let_def by (simp add: add.assoc)
qed

subsection \<open>The announced sizes\<close>

lemma store_str_size: "flt_get_store_str_size (word_of_nat n) = word_of_nat (6 + n)"
proof -
  have "(word_of_nat n + 6 :: 64 word) = word_of_nat (6 + n)" by simp
  moreover have "ucast (word_of_nat k :: 64 word) = (word_of_nat k :: 32 word)" for k
    by (rule bit_word_eqI) (simp add: bit_simps)
  ultimately show ?thesis
    unfolding flt_get_store_str_size_def by (simp only:)
qed

lemma str_item_size_eq:
  "str_ok s \<Longrightarrow> str_item_size 0 s = Some (word_of_nat (length (str_item type s)))"
  using store_str_size
  by (auto simp: str_ok_def str_item_size_def str_item_def c_strlen_eq split: option.splits)

lemma appinfo_size:
  assumes "app_ok info" and "6 + length (app_body info) < 2 ^ 32"
  shows "flt_get_serialize_size_appinfo info =
    Some (OB_SUCCESS, word_of_nat (if app_body info = [] then 0 else 6 + length (app_body info)))"
proof -
  let ?n = "length (app_body info)"
  have sz: "str_item_size 0 (identifier' info) = Some (word_of_nat (length (str_item (flt_id FLT_CLIENT_IDENTIFIER) (identifier' info))))"
    "str_item_size 0 (module' info) = Some (word_of_nat (length (str_item (flt_id FLT_MODULE) (module' info))))"
    "str_item_size 0 (action' info) = Some (word_of_nat (length (str_item (flt_id FLT_ACTION) (action' info))))"
    "str_item_size 0 (client_info' info) = Some (word_of_nat (length (str_item (flt_id FLT_CLIENT_INFO) (client_info' info))))"
    using assms(1) by (simp_all add: app_ok_def str_item_size_eq)
  have "(word_of_nat ?n :: 32 word) = 0 \<longleftrightarrow> app_body info = []"
    using assms(2) by (simp add: word_unat_eq_iff unsigned_of_nat take_bit_nat_eq_self)
  then show ?thesis
    unfolding flt_get_serialize_size_appinfo_def sz by (simp add: app_body_def Let_def ac_simps)
qed

lemma spaninfo_size: "span_ok info \<Longrightarrow> flt_get_serialize_size_spaninfo info = Some (OB_SUCCESS, 71)"
  by (simp add: flt_get_serialize_size_spaninfo_def span_ok_def flt_get_store_int1_size_def flt_get_store_str_size_def)

lemma cstr_item_size:
  "str_ok (Some s) \<Longrightarrow> str_item_size 1 (Some s) = Some (word_of_nat (7 + length (cstr s)))"
  using store_str_size [of "Suc (length (cstr s))"]
  by (auto simp: str_ok_def str_item_size_def c_strlen_eq ac_simps)

lemma null_item_size: "str_item_size extra None = Some 0"
  by (simp add: str_item_size_def)

lemma driverspaninfo_size:
  "str_ok (client_span' info) \<Longrightarrow> flt_get_serialize_size_driverspaninfo info = Some (OB_SUCCESS,
     case client_span' info of None \<Rightarrow> 0 | Some s \<Rightarrow> word_of_nat (13 + length (cstr s)))"
  by (cases "client_span' info")
    (simp_all add: flt_get_serialize_size_driverspaninfo_def cstr_item_size null_item_size)

lemma showtracespan_size:
  "str_ok (client_span_json' info) \<Longrightarrow> flt_get_serialize_size_showtracespan info = Some (OB_SUCCESS,
     case client_span_json' info of None \<Rightarrow> 0 | Some s \<Rightarrow> word_of_nat (13 + length (cstr s)))"
  by (cases "client_span_json' info")
    (simp_all add: flt_get_serialize_size_showtracespan_def cstr_item_size null_item_size)

subsection \<open>Deserialising a group\<close>

text \<open>
  The contract of a field function: an item, given by its id and value bytes, is accepted and
  applied, and the position moves to its end.  A sequence of items is then consumed by the
  loop, whatever their order and number.
\<close>

lemma korr_holds_full:
  assumes "holds_at m a (le_bytes n (v :: 'a::len word))" and "LENGTH('a) = 8 * n"
  shows "map_option le_word (load_bytes m a n) = Some v"
proof -
  have "take_bit (8 * n) v = v" using assms(2) by (intro bit_word_eqI) (auto simp: bit_simps)
  then show ?thesis using korr_holds_at [OF assms(1), where ?'b = 'a] by simp
qed

lemma resolve_tlv:
  assumes h: "holds_at m pos (tlv x v)" and len: "pos + 6 \<le> len" and small: "length v < 2 ^ 31"
  shows "flt_resolve_type_and_len (Some m) len pos t l = Some (OB_SUCCESS, x, word_of_nat (length v), pos + 6)"
    and "sint (word_of_nat (length v) :: 32 word) = int (length v)" and "holds_at m (pos + 6) v"
proof -
  have id: "holds_at m pos (le_bytes 2 x)"
    and vl: "holds_at m (pos + 2) (le_bytes 4 (word_of_nat (length v) :: 32 word))"
    using h by (simp_all add: tlv_def holds_at_append add.assoc)
  have "sint2korr m pos = Some x" "sint4korr m (pos + 2) = Some (word_of_nat (length v))"
    using korr_holds_full [OF id] korr_holds_full [OF vl] by (simp_all only: le_simps) simp_all
  then show "flt_resolve_type_and_len (Some m) len pos t l = Some (OB_SUCCESS, x, word_of_nat (length v), pos + 6)"
    using len by (simp add: flt_resolve_type_and_len_def)
  show "sint (word_of_nat (length v) :: 32 word) = int (length v)"
    using small int_word_sint [of "int (length v)", where ?'a = 32] by simp
  show "holds_at m (pos + 6) v" using h by (simp add: tlv_def holds_at_append add.assoc)
qed

locale field_reader =
  fixes f :: "16 word \<Rightarrow> int \<Rightarrow> cbuf \<Rightarrow> int \<Rightarrow> int \<Rightarrow> 'i \<Rightarrow> (int \<times> 'i \<times> int) option"
    and iid :: "'t \<Rightarrow> 16 word"
    and ival :: "'t \<Rightarrow> mem"
    and app :: "mem \<Rightarrow> 't \<Rightarrow> 'i \<Rightarrow> 'i"
  assumes field:
    "\<lbrakk>holds_at m pos (ival t); pos + int (length (ival t)) \<le> len; len \<le> int (length m); len < 2 ^ 31\<rbrakk>
     \<Longrightarrow> f (iid t) (int (length (ival t))) (Some m) len pos i
         = Some (OB_SUCCESS, app m t i, pos + int (length (ival t)))"
begin

lemma loop_items:
  assumes "holds_at m pos (concat (map (\<lambda>t. tlv (iid t) (ival t)) ts))"
    and "len = pos + int (length (concat (map (\<lambda>t. tlv (iid t) (ival t)) ts)))"
    and "len \<le> int (length m)" and "len < 2 ^ 31"
  shows "flt_deserialize_loop f (Some m) len pos i = Some (OB_SUCCESS, fold (app m) ts i, len)"
  using assms(1,2)
proof (induction ts arbitrary: pos i)
  case Nil
  then show ?case by (simp add: flt_deserialize_loop.simps)
next
  case (Cons t ts)
  let ?v = "ival t" and ?rest = "concat (map (\<lambda>t. tlv (iid t) (ival t)) ts)"
  have h: "holds_at m pos (tlv (iid t) ?v)" and r: "holds_at m (pos + 6 + int (length ?v)) ?rest"
    using Cons.prems(1) by (simp_all add: holds_at_append ac_simps)
  have len: "len = pos + 6 + int (length ?v) + int (length ?rest)" using Cons.prems(2) by simp
  have pos: "0 \<le> pos" using h by (rule holds_at_nonneg)
  have small: "length ?v < 2 ^ 31" using len pos assms(4) by simp
  have "pos + 6 \<le> len" using len by simp
  note res = resolve_tlv [OF h this small]
  have v: "holds_at m (pos + 6) ?v" by (rule res(3))
  note res(1) [of 0 0] res(2)
  moreover have "f (iid t) (int (length ?v)) (Some m) len (pos + 6) i = Some (OB_SUCCESS, app m t i, pos + 6 + int (length ?v))"
    using v len assms(3,4) by (intro field) simp_all
  moreover have "flt_deserialize_loop f (Some m) len (pos + 6 + int (length ?v)) (app m t i)
      = Some (OB_SUCCESS, fold (app m) ts (app m t i), len)"
    using r len by (rule Cons.IH)
  moreover have "pos < len" using len by simp
  ultimately show ?case by (subst flt_deserialize_loop.simps) simp
qed

end

text \<open>Control items as the server sends them.\<close>

datatype control_item =
    Level "8 word" | SamplePct "64 word" | Policy "8 word" | PrintPct "64 word"
  | SlowThreshold "64 word" | ShowTrace "8 word"

fun control_id :: "control_item \<Rightarrow> 16 word" where
  "control_id (Level _) = flt_id FLT_LEVEL"
| "control_id (SamplePct _) = flt_id FLT_SAMPLE_PERCENTAGE"
| "control_id (Policy _) = flt_id FLT_RECORD_POLICY"
| "control_id (PrintPct _) = flt_id FLT_PRINT_SAMPLE_PCT"
| "control_id (SlowThreshold _) = flt_id FLT_SLOW_QUERY_THRES"
| "control_id (ShowTrace _) = flt_id FLT_SHOW_TRACE_ENABLE"

fun control_val :: "control_item \<Rightarrow> mem" where
  "control_val (Level v) = [v]"
| "control_val (SamplePct v) = le_bytes 8 v"
| "control_val (Policy v) = [v]"
| "control_val (PrintPct v) = le_bytes 8 v"
| "control_val (SlowThreshold v) = le_bytes 8 v"
| "control_val (ShowTrace v) = [v]"

fun control_apply :: "control_item \<Rightarrow> FLTControlInfo \<Rightarrow> FLTControlInfo" where
  "control_apply (Level v) i = i\<lparr>level' := v\<rparr>"
| "control_apply (SamplePct v) i = i\<lparr>sample_pct' := v\<rparr>"
| "control_apply (Policy v) i = i\<lparr>rp' := scast v\<rparr>"
| "control_apply (PrintPct v) i = i\<lparr>print_sample_pct' := v\<rparr>"
| "control_apply (SlowThreshold v) i = i\<lparr>slow_query_threshold' := v\<rparr>"
| "control_apply (ShowTrace v) i = i\<lparr>flt_show_trace_enable' := v\<rparr>"

lemma get_int1_item:
  assumes "holds_at m pos [v]" and "pos + 1 \<le> len"
  shows "flt_get_int1 (Some m) len pos 1 old = Some (OB_SUCCESS, v, pos + 1)"
proof -
  have "sint1korr m pos = Some v" using assms(1) by (simp add: holds_at_Cons sint1korr_def)
  moreover have "ucast (scast v :: 64 word) = v"
    by (rule bit_word_eqI) (auto simp: bit_simps)
  ultimately show ?thesis
    using assms(2) by (simp add: flt_get_int1_def flt_get_int_def)
qed

lemma get_int8_item:
  assumes "holds_at m pos (le_bytes 8 v)" and "pos + 8 \<le> len"
  shows "flt_get_int8 (Some m) len pos 8 old = Some (OB_SUCCESS, v, pos + 8)"
proof -
  have "sint8korr m pos = Some v"
    using korr_holds_full [OF assms(1)] by (simp add: le_simps)
  then show ?thesis
    using assms(2) by (simp add: flt_get_int8_def flt_get_int_def)
qed

lemma get_double_item:
  assumes "holds_at m pos (le_bytes 8 v)" and "pos + 8 \<le> len"
  shows "flt_get_double (Some m) len pos 8 old = Some (OB_SUCCESS, v, pos + 8)"
proof -
  have "load_bytes m pos 8 = Some (le_bytes 8 v)" "le_word (le_bytes 8 v) = v"
    using assms(1) korr_holds_full [OF assms(1)] by (simp_all add: holds_at_def)
  then show ?thesis
    using assms(2) by (simp add: flt_get_double_def)
qed

lemmas get_item_simps = get_int1_item get_int8_item get_double_item

interpretation control_reader: field_reader flt_deserialize_field_controlinfo control_id control_val "\<lambda>_. control_apply"
proof unfold_locales
  fix m pos t len i
  assume "holds_at m pos (control_val t)" "pos + int (length (control_val t)) \<le> len"
  then show "flt_deserialize_field_controlinfo (control_id t) (int (length (control_val t))) (Some m) len pos i
      = Some (OB_SUCCESS, control_apply t i, pos + int (length (control_val t)))"
    by (cases t) (simp_all add: flt_deserialize_field_controlinfo_def flt_field_def get_item_simps)
qed

text \<open>Query items, with the 8-byte values that the fetch function asks for.\<close>

datatype query_item = QueryStart "64 word" | QueryEnd "64 word"

fun query_id :: "query_item \<Rightarrow> 16 word" where
  "query_id (QueryStart _) = flt_id FLT_QUERY_START_TIMESTAMP"
| "query_id (QueryEnd _) = flt_id FLT_QUERY_END_TIMESTAMP"

fun query_val :: "query_item \<Rightarrow> mem" where
  "query_val (QueryStart v) = le_bytes 8 v"
| "query_val (QueryEnd v) = le_bytes 8 v"

fun query_apply :: "query_item \<Rightarrow> FLTQueryInfo \<Rightarrow> FLTQueryInfo" where
  "query_apply (QueryStart v) i = i\<lparr>query_start_timestamp' := v\<rparr>"
| "query_apply (QueryEnd v) i = i\<lparr>query_end_timestamp' := v\<rparr>"

interpretation query_reader: field_reader flt_deserialize_field_queryinfo query_id query_val "\<lambda>_. query_apply"
proof unfold_locales
  fix m pos t len i
  assume "holds_at m pos (query_val t)" "pos + int (length (query_val t)) \<le> len"
  then show "flt_deserialize_field_queryinfo (query_id t) (int (length (query_val t))) (Some m) len pos i
      = Some (OB_SUCCESS, query_apply t i, pos + int (length (query_val t)))"
    by (cases t) (simp_all add: flt_deserialize_field_queryinfo_def flt_field_def get_item_simps)
qed

text \<open>
  Span items.  The two identifiers are strings, and what a string item leaves in the member is
  a pointer to the start of the buffer: the object \<open>m\<close>, whatever the item holds.
\<close>

datatype span_item =
    TraceEnable "8 word" | ForcePrint "8 word" | TraceId mem | RefType "8 word" | SpanId mem

fun span_id :: "span_item \<Rightarrow> 16 word" where
  "span_id (TraceEnable _) = flt_id FLT_TRACE_ENABLE"
| "span_id (ForcePrint _) = flt_id FLT_FORCE_PRINT"
| "span_id (TraceId _) = flt_id FLT_TRACE_ID"
| "span_id (RefType _) = flt_id FLT_REF_TYPE"
| "span_id (SpanId _) = flt_id FLT_SPAN_ID"

fun span_val :: "span_item \<Rightarrow> mem" where
  "span_val (TraceEnable v) = [v]"
| "span_val (ForcePrint v) = [v]"
| "span_val (TraceId s) = s"
| "span_val (RefType v) = [v]"
| "span_val (SpanId s) = s"

fun span_apply :: "mem \<Rightarrow> span_item \<Rightarrow> FLTSpanInfo \<Rightarrow> FLTSpanInfo" where
  "span_apply m (TraceEnable v) i = i\<lparr>spn_trace_enable := v\<rparr>"
| "span_apply m (ForcePrint v) i = i\<lparr>spn_force_print := v\<rparr>"
| "span_apply m (TraceId s) i = i\<lparr>spn_trace_id := Some m\<rparr>"
| "span_apply m (RefType v) i = i\<lparr>ref_type' := v\<rparr>"
| "span_apply m (SpanId s) i = i\<lparr>spn_span_id := Some m\<rparr>"

lemma get_str_item: "pos + n \<le> len \<Longrightarrow> flt_get_str (Some m) len pos n old = Some (OB_SUCCESS, Some m, pos + n)"
  by (simp add: flt_get_str_def)

interpretation span_reader: field_reader flt_deserialize_field_spaninfo span_id span_val span_apply
proof unfold_locales
  fix m pos t len i
  assume "holds_at m pos (span_val t)" "pos + int (length (span_val t)) \<le> len"
  then show "flt_deserialize_field_spaninfo (span_id t) (int (length (span_val t))) (Some m) len pos i
      = Some (OB_SUCCESS, span_apply m t i, pos + int (length (span_val t)))"
    by (cases t)
      (simp_all add: flt_deserialize_field_spaninfo_def flt_field_def get_item_simps get_str_item)
qed

text \<open>Application items: four strings.\<close>

datatype app_item = Identifier mem | Module mem | Action mem | ClientInfo mem

fun app_id :: "app_item \<Rightarrow> 16 word" where
  "app_id (Identifier _) = flt_id FLT_CLIENT_IDENTIFIER"
| "app_id (Module _) = flt_id FLT_MODULE"
| "app_id (Action _) = flt_id FLT_ACTION"
| "app_id (ClientInfo _) = flt_id FLT_CLIENT_INFO"

fun app_val :: "app_item \<Rightarrow> mem" where
  "app_val (Identifier s) = s"
| "app_val (Module s) = s"
| "app_val (Action s) = s"
| "app_val (ClientInfo s) = s"

fun app_apply :: "mem \<Rightarrow> app_item \<Rightarrow> FLTAppInfo \<Rightarrow> FLTAppInfo" where
  "app_apply m (Identifier _) i = i\<lparr>identifier' := Some m\<rparr>"
| "app_apply m (Module _) i = i\<lparr>module' := Some m\<rparr>"
| "app_apply m (Action _) i = i\<lparr>action' := Some m\<rparr>"
| "app_apply m (ClientInfo _) i = i\<lparr>client_info' := Some m\<rparr>"

interpretation app_reader: field_reader flt_deserialize_field_appinfo app_id app_val app_apply
proof unfold_locales
  fix m pos t len i
  assume "holds_at m pos (app_val t)" "pos + int (length (app_val t)) \<le> len"
  then show "flt_deserialize_field_appinfo (app_id t) (int (length (app_val t))) (Some m) len pos i
      = Some (OB_SUCCESS, app_apply m t i, pos + int (length (app_val t)))"
    by (cases t) (simp_all add: flt_deserialize_field_appinfo_def flt_field_def get_str_item)
qed

text \<open>
  Through the dispatch table: the loop for a type runs on the structure of that type as it runs
  on the bare record.
\<close>

lemma deserialize_loop_map:
  assumes g: "\<And>x v buf len pos i. g x v buf len pos (mk i) =
      do { (ret, i, pos) \<leftarrow> f x v buf len pos i; Some (ret, mk i, pos) }"
    and "flt_deserialize_loop f buf len pos i = Some (ret, i', pos')"
  shows "flt_deserialize_loop g buf len pos (mk i) = Some (ret, mk i', pos')"
proof -
  have "fn = f \<longrightarrow> flt_deserialize_loop g buf len pos (mk i) = Some (fst r, mk (fst (snd r)), snd (snd r))"
    if "flt_deserialize_loop fn buf len pos i = Some r" for fn buf len pos i r
    using that
  proof (rule flt_deserialize_loop.raw_induct [rotated])
    fix loop fn buf len pos i and r :: "int \<times> 'a \<times> int"
    assume IH: "\<And>fn buf len pos i r. loop fn buf len pos i = Some r \<Longrightarrow>
        fn = f \<longrightarrow> flt_deserialize_loop g buf len pos (mk i) = Some (fst r, mk (fst (snd r)), snd (snd r))"
      and eq: "(if pos < len then do {
        (ret, extra_id, val_len, pos) \<leftarrow> flt_resolve_type_and_len buf len pos 0 0;
        if ret \<noteq> 0 then Some (- 4000, i, pos)
        else do {
          (ret, i, pos) \<leftarrow> fn extra_id (sint val_len) buf len pos i;
          if ret \<noteq> 0 then Some (- 4000, i, pos) else loop fn buf len pos i } }
      else Some (0, i, pos)) = Some r"
    show "fn = f \<longrightarrow> flt_deserialize_loop g buf len pos (mk i) = Some (fst r, mk (fst (snd r)), snd (snd r))"
      using eq IH
      by (subst flt_deserialize_loop.simps)
        (auto simp: g split: if_splits bind_splits prod.splits)
  qed
  from this [of f buf len pos i "(ret, i', pos')"] assms(2) show ?thesis by simp
qed

lemma deserialize_extra_info_loop:
  assumes "flt_funcs type = Some (flt_entry dest mk des ser sz)" and "\<And>i. dest (mk i) = Some i"
    and "flt_deserialize_loop des buf len pos i = Some (ret, i', pos')"
  shows "flt_deserialize_extra_info buf len pos type (mk i) = Some (ret, mk i', pos')"
  unfolding flt_deserialize_extra_info_def
  by (rule deserialize_loop_map [OF _ assms(3)]) (simp add: assms(1,2) flt_entry_def cast_field_def)

text \<open>
  An item after which the position is where it was: the loop never returns.  A negative length
  does it, for a string item as for one that is skipped.
\<close>

lemma deserialize_loop_diverges:
  assumes "pos < len" and "flt_resolve_type_and_len buf len pos 0 0 = Some (OB_SUCCESS, x, vl, p)"
    and step: "\<And>i. P i \<Longrightarrow> \<exists>i'. f x (sint vl) buf len p i = Some (OB_SUCCESS, i', pos) \<and> P i'" and "P i"
  shows "flt_deserialize_loop f buf len pos i = None"
proof (rule ccontr)
  assume "flt_deserialize_loop f buf len pos i \<noteq> None"
  then obtain r where "flt_deserialize_loop f buf len pos i = Some r" by auto
  then have "\<not> (f = f \<and> buf = buf \<and> len = len \<and> pos = pos \<and> P i)"
  proof (rule flt_deserialize_loop.raw_induct
      [of "\<lambda>fn b l p i r. \<not> (fn = f \<and> b = buf \<and> l = len \<and> p = pos \<and> P i)", rotated])
    fix loop fn b l q i r
    assume IH: "\<And>fn b l q i r. loop fn b l q i = Some r \<Longrightarrow> \<not> (fn = f \<and> b = buf \<and> l = len \<and> q = pos \<and> P i)"
      and eq: "(if q < l then do {
        (ret, extra_id, val_len, p) \<leftarrow> flt_resolve_type_and_len b l q 0 0;
        if ret \<noteq> 0 then Some (- 4000, i, p)
        else do {
          (ret, i, p) \<leftarrow> fn extra_id (sint val_len) b l p i;
          if ret \<noteq> 0 then Some (- 4000, i, p) else loop fn b l p i } }
      else Some (0, i, q)) = Some r"
    show "\<not> (fn = f \<and> b = buf \<and> l = len \<and> q = pos \<and> P i)"
    proof
      assume same: "fn = f \<and> b = buf \<and> l = len \<and> q = pos \<and> P i"
      then obtain i' where "f x (sint vl) buf len p i = Some (OB_SUCCESS, i', pos)" "P i'" using step by blast
      moreover from this have "loop f buf len pos i' = Some r" using eq same assms(1,2) by simp
      ultimately show False using IH by blast
    qed
  qed
  then show False using assms(4) by simp
qed

subsection \<open>Properties\<close>



text \<open>Span information: with trace and span identifiers of 16 bytes the announced size is 71 and the serialiser
  writes exactly these 71 bytes: the group header and five items.\<close>

theorem spaninfo_size_exact:
  assumes "spn_type info = FLT_SPAN_INFO" and "span_ok info"
    and "0 \<le> pos" and "pos + 71 \<le> len" and "len \<le> int (length m)" and "len < 2 ^ 31"
  shows "flt_get_serialize_size_extra_info (SpanInfo info) = Some (OB_SUCCESS, 71)
    \<and> flt_serialize_extra_info (Some m) len pos (SpanInfo info) =
        Some (OB_SUCCESS, Some (put m pos (tlv (flt_type FLT_SPAN_INFO) (span_body info))), pos + 71)"
  using assms spaninfo_fits [of info pos len m] spaninfo_size [of info]
  by (simp add: flt_get_serialize_size_extra_info_def flt_serialize_extra_info_def flt_entry_def)

theorem spaninfo_size_exact_witness:
  "\<exists>m'. flt_serialize_extra_info (Some (replicate 80 0)) 80 4 (SpanInfo \<lparr>spn_type = FLT_SPAN_INFO, spn_trace_enable = 1,
       spn_force_print = 0, spn_trace_id = Some (replicate 16 7), ref_type' = 0, spn_span_id = Some (replicate 16 8)\<rparr>)
     = Some (OB_SUCCESS, Some m', 75)"
  using spaninfo_size_exact [of "\<lparr>spn_type = FLT_SPAN_INFO, spn_trace_enable = 1,
       spn_force_print = 0, spn_trace_id = Some (replicate 16 7), ref_type' = 0, spn_span_id = Some (replicate 16 8)\<rparr>" 4 80 "replicate 80 0"]
  by (simp add: span_ok_def)

text \<open>C8: \<^verbatim>\<open>flt_deserialize_extra_info\<close> on control information: a buffer that holds any sequence of well-formed items
  (level, sampling percentages, record policy, slow-query threshold, show-trace switch, in any order, repeated
  or missing) up to its end is accepted, the loop ends, and the structure holds the last value of each item.\<close>

theorem control_info_parsed:
  assumes "holds_at m pos (concat (map (\<lambda>t. tlv (control_id t) (control_val t)) ts))"
    and "len = pos + int (length (concat (map (\<lambda>t. tlv (control_id t) (control_val t)) ts)))"
    and "len \<le> int (length m)" and "len < 2 ^ 31"
  shows "flt_deserialize_extra_info (Some m) len pos FLT_CONTROL_INFO (ControlInfo i)
    = Some (OB_SUCCESS, ControlInfo (fold control_apply ts i), len)"
  by (rule deserialize_extra_info_loop [OF flt_funcs.simps(4) as_control.simps(1) control_reader.loop_items [OF assms]])

theorem control_info_parsed_witness:
  "flt_deserialize_extra_info (Some (tlv 2020 [3] @ tlv 2022 [2] @ tlv 2020 [1])) 21 0 FLT_CONTROL_INFO
     (ControlInfo \<lparr>ctl_type = FLT_CONTROL_INFO, level' = 0, sample_pct' = 0, rp' = 0, print_sample_pct' = 0,
        slow_query_threshold' = 0, flt_show_trace_enable' = 0\<rparr>)
   = Some (OB_SUCCESS, ControlInfo \<lparr>ctl_type = FLT_CONTROL_INFO, level' = 1, sample_pct' = 0, rp' = 2, print_sample_pct' = 0,
        slow_query_threshold' = 0, flt_show_trace_enable' = 0\<rparr>, 21)"
proof -
  let ?i = "\<lparr>ctl_type = FLT_CONTROL_INFO, level' = 0, sample_pct' = 0, rp' = 0, print_sample_pct' = 0,
        slow_query_threshold' = 0, flt_show_trace_enable' = 0\<rparr>"
  let ?ts = "[Level 3, Policy 2, Level 1]"
  have c: "concat (map (\<lambda>t. tlv (control_id t) (control_val t)) ?ts) = tlv 2020 [3] @ tlv 2022 [2] @ tlv 2020 [1]" by simp
  then have h1: "holds_at (tlv 2020 [3] @ tlv 2022 [2] @ tlv 2020 [1]) 0 (concat (map (\<lambda>t. tlv (control_id t) (control_val t)) ?ts))"
    by (simp add: holds_at_def load_bytes_def)
  have h2: "(21 :: int) = 0 + int (length (concat (map (\<lambda>t. tlv (control_id t) (control_val t)) ?ts)))" unfolding c by simp
  have h3: "(21 :: int) \<le> int (length (tlv 2020 [3] @ tlv 2022 [2] @ tlv 2020 [1]))" "(21 :: int) < 2 ^ 31" by simp_all
  have f: "fold control_apply ?ts ?i = \<lparr>ctl_type = FLT_CONTROL_INFO, level' = 1, sample_pct' = 0, rp' = 2, print_sample_pct' = 0,
        slow_query_threshold' = 0, flt_show_trace_enable' = 0\<rparr>" by code_simp
  show ?thesis using control_info_parsed [OF h1 h2 h3, of ?i] unfolding f .
qed



text \<open>C21: An item of application information with the announced length -6 makes \<^verbatim>\<open>flt_deserialize_extra_info\<close> loop
  for ever: the negative length passes the bounds test of \<^verbatim>\<open>flt_get_str\<close> and takes the position back to the
  item, so a six-byte message from the peer stops the client.\<close>

theorem app_info_negative_length_loops:
  assumes "holds_at m pos (le_bytes 2 (app_id t) @ le_bytes 4 (- 6 :: 32 word))" and "pos + 6 \<le> len"
  shows "flt_deserialize_extra_info (Some m) len pos FLT_APP_INFO (AppInfo i) = None"
  unfolding flt_deserialize_extra_info_def
proof (rule deserialize_loop_diverges [where P = "\<lambda>i. \<exists>a. i = AppInfo a"])
  show "pos < len" using assms(2) by simp
  have "sint2korr m pos = Some (app_id t)" "sint4korr m (pos + 2) = Some (- 6)"
    using assms(1) korr_holds_full [of m pos 2 "app_id t"] korr_holds_full [of m "pos + 2" 4 "- 6 :: 32 word"]
    by (simp_all only: holds_at_append le_simps) simp_all
  then show "flt_resolve_type_and_len (Some m) len pos 0 0 = Some (OB_SUCCESS, app_id t, - 6, pos + 6)"
    using assms(2) by (simp add: flt_resolve_type_and_len_def)
  show "\<exists>i'. do { f \<leftarrow> flt_funcs FLT_APP_INFO; deserialize_field_func f (app_id t) (sint (- 6 :: 32 word)) (Some m) len (pos + 6) info }
      = Some (OB_SUCCESS, i', pos) \<and> (\<exists>a. i' = AppInfo a)" if "\<exists>a. info = AppInfo a" for info
  proof -
    have "sint (- 6 :: 32 word) = - 6" by simp
    then show ?thesis using that assms(2)
      by (cases t) (auto simp: flt_entry_def cast_field_def flt_deserialize_field_appinfo_def flt_field_def flt_get_str_def)
  qed
qed simp

theorem app_info_negative_length_loops_witness:
  "flt_deserialize_extra_info (Some [0xD2, 0x07, 0xFA, 0xFF, 0xFF, 0xFF]) 6 0 FLT_APP_INFO
     (AppInfo \<lparr>app_type = FLT_APP_INFO, identifier' = None, module' = None, action' = None, client_info' = None\<rparr>) = None"
proof -
  have "le_bytes 2 (app_id (Module [])) @ le_bytes 4 (- 6 :: 32 word) = [0xD2, 0x07, 0xFA, 0xFF, 0xFF, 0xFF]" by code_simp
  then show ?thesis
    using app_info_negative_length_loops [of "[0xD2, 0x07, 0xFA, 0xFF, 0xFF, 0xFF]" 0 "Module []" 6]
    by (simp add: holds_at_def load_bytes_def)
qed

end
