(* ===== verification/MaList.thy ===== *)
theory MaList
  imports Prelude
begin

section \<open>Doubly linked lists (libmariadb/ma_list.c, include/ma_list.h)\<close>

text \<open>
  The list nodes live in an explicit heap, a partial map from addresses to nodes, so that
  aliasing and dangling pointers are visible.  \<open>None\<close> as a pointer is the null pointer;
  \<open>None\<close> as the result of an operation means that a null or freed node was dereferenced
  or that the loop does not end (a cyclic list).  \<open>links\<close> relates a heap to the sequence of
  addresses a list has, and each operation refines the operation on sequences.
\<close>

type_synonym addr = nat

record 'd LIST =
  prev :: "addr option"
  nxt :: "addr option"
  data :: 'd

type_synonym 'd heap = "addr \<rightharpoonup> 'd LIST"

definition upd :: "'d heap \<Rightarrow> addr \<Rightarrow> ('d LIST \<Rightarrow> 'd LIST) \<Rightarrow> 'd heap option" where
  "upd h a f = (case h a of None \<Rightarrow> None | Some n \<Rightarrow> Some (h(a \<mapsto> f n)))"

definition list_add :: "'d heap \<Rightarrow> addr option \<Rightarrow> addr \<Rightarrow> ('d heap \<times> addr option) option" where
  "list_add h root element = do {
     h \<leftarrow> (case root of
        None \<Rightarrow> upd h element (\<lambda>n. n\<lparr>prev := None\<rparr>)
      | Some r \<Rightarrow> do {
          rn \<leftarrow> h r;
          h \<leftarrow> (case prev rn of None \<Rightarrow> Some h | Some p \<Rightarrow> upd h p (\<lambda>n. n\<lparr>nxt := Some element\<rparr>));
          rn \<leftarrow> h r;
          h \<leftarrow> upd h element (\<lambda>n. n\<lparr>prev := prev rn\<rparr>);
          upd h r (\<lambda>n. n\<lparr>prev := Some element\<rparr>) });
     h \<leftarrow> upd h element (\<lambda>n. n\<lparr>nxt := root\<rparr>);
     Some (h, Some element) }"

definition list_delete :: "'d heap \<Rightarrow> addr option \<Rightarrow> addr \<Rightarrow> ('d heap \<times> addr option) option" where
  "list_delete h root element = do {
     e \<leftarrow> h element;
     (h, root) \<leftarrow> (case prev e of
        Some p \<Rightarrow> do { h \<leftarrow> upd h p (\<lambda>n. n\<lparr>nxt := nxt e\<rparr>); Some (h, root) }
      | None \<Rightarrow> Some (h, nxt e));
     e \<leftarrow> h element;
     h \<leftarrow> (case nxt e of
        Some x \<Rightarrow> upd h x (\<lambda>n. n\<lparr>prev := prev e\<rparr>)
      | None \<Rightarrow> Some h);
     Some (h, root) }"

text \<open>\<^verbatim>\<open>list_free\<close> also returns the data pointers it passed to \<^verbatim>\<open>free\<close>.\<close>

partial_function (option) list_free :: "'d heap \<Rightarrow> addr option \<Rightarrow> bool \<Rightarrow> ('d heap \<times> 'd list) option" where
  "list_free h root free_data =
     (case root of
        None \<Rightarrow> Some (h, [])
      | Some r \<Rightarrow> do {
          n \<leftarrow> h r;
          (h, ds) \<leftarrow> list_free (h(r := None)) (nxt n) free_data;
          Some (h, (if free_data then [data n] else []) @ ds) })"

text \<open>\<^verbatim>\<open>malloc\<close> is a parameter: the address of the new block, or null.\<close>

definition list_cons :: "('d heap \<Rightarrow> addr option) \<Rightarrow> 'd heap \<Rightarrow> 'd \<Rightarrow> addr option
    \<Rightarrow> ('d heap \<times> addr option) option" where
  "list_cons malloc h d list =
     (case malloc h of
        None \<Rightarrow> Some (h, None)
      | Some a \<Rightarrow> list_add (h(a \<mapsto> \<lparr>prev = None, nxt = None, data = d\<rparr>)) list a)"

partial_function (option) list_reverse_loop
    :: "'d heap \<Rightarrow> addr option \<Rightarrow> addr option \<Rightarrow> ('d heap \<times> addr option) option" where
  "list_reverse_loop h root lst =
     (case root of
        None \<Rightarrow> Some (h, lst)
      | Some r \<Rightarrow> do {
          n \<leftarrow> h r;
          list_reverse_loop (h(r \<mapsto> n\<lparr>nxt := prev n, prev := nxt n\<rparr>)) (nxt n) root })"

definition list_reverse :: "'d heap \<Rightarrow> addr option \<Rightarrow> ('d heap \<times> addr option) option" where
  "list_reverse h root = list_reverse_loop h root root"

partial_function (option) list_length_loop :: "'d heap \<Rightarrow> addr option \<Rightarrow> 32 word \<Rightarrow> 32 word option" where
  "list_length_loop h list count =
     (case list of
        None \<Rightarrow> Some count
      | Some a \<Rightarrow> do { n \<leftarrow> h a; list_length_loop h (nxt n) (count + 1) })"

definition list_length :: "'d heap \<Rightarrow> addr option \<Rightarrow> 32 word option" where
  "list_length h list = list_length_loop h list 0"

text \<open>The callback of \<^verbatim>\<open>list_walk\<close> sees the data and the argument, whose state it may change.\<close>

partial_function (option) list_walk
    :: "'d heap \<Rightarrow> addr option \<Rightarrow> ('d \<Rightarrow> 's \<Rightarrow> int \<times> 's) \<Rightarrow> 's \<Rightarrow> (int \<times> 's) option" where
  "list_walk h list action argument =
     (case list of
        None \<Rightarrow> Some (0, argument)
      | Some a \<Rightarrow> do {
          n \<leftarrow> h a;
          let (error, argument) = action (data n) argument in
            (if error \<noteq> 0 then Some (error, argument)
             else list_walk h (nxt n) action argument) })"

definition list_pop :: "'d heap \<Rightarrow> addr option \<Rightarrow> ('d heap \<times> addr option) option" where
  "list_pop h A = do {
     old \<leftarrow> A;
     (h, A) \<leftarrow> list_delete h A old;
     Some (h(old := None), A) }"

subsection \<open>The sequence a list stands for\<close>

fun hd_or :: "addr list \<Rightarrow> addr option \<Rightarrow> addr option" where
  "hd_or [] q = q"
| "hd_or (a # as) q = Some a"

fun last_or :: "addr option \<Rightarrow> addr list \<Rightarrow> addr option" where
  "last_or p [] = p"
| "last_or p (a # as) = last_or (Some a) as"

fun links :: "'d heap \<Rightarrow> addr option \<Rightarrow> addr list \<Rightarrow> addr option \<Rightarrow> bool" where
  "links h p [] q \<longleftrightarrow> True"
| "links h p (a # as) q \<longleftrightarrow>
     (case h a of None \<Rightarrow> False | Some n \<Rightarrow> prev n = p \<and> nxt n = hd_or as q)
     \<and> links h (Some a) as q"

definition is_list :: "'d heap \<Rightarrow> addr option \<Rightarrow> addr list \<Rightarrow> bool" where
  "is_list h root xs \<longleftrightarrow> root = hd_or xs None \<and> links h None xs None \<and> distinct xs"

definition data_of :: "'d heap \<Rightarrow> addr list \<Rightarrow> 'd option list" where
  "data_of h xs = map (\<lambda>a. map_option data (h a)) xs"

lemma hd_or_append [simp]: "hd_or (xs @ ys) q = hd_or xs (hd_or ys q)"
  by (cases xs) simp_all

lemma last_or_append [simp]: "last_or p (xs @ ys) = last_or (last_or p xs) ys"
  by (induction xs arbitrary: p) simp_all

lemma links_append [simp]:
  "links h p (xs @ ys) q \<longleftrightarrow> links h p xs (hd_or ys q) \<and> links h (last_or p xs) ys q"
  by (induction xs arbitrary: p) (auto split: option.splits)

lemma links_cong:
  "(\<And>a. a \<in> set xs \<Longrightarrow> h a = h' a) \<Longrightarrow> links h p xs q \<longleftrightarrow> links h' p xs q"
  by (induction xs arbitrary: p) auto

lemma links_upd [simp]: "a \<notin> set xs \<Longrightarrow> links (h(a := v)) p xs q \<longleftrightarrow> links h p xs q"
  by (rule links_cong) auto

lemma links_dom: "links h p xs q \<Longrightarrow> a \<in> set xs \<Longrightarrow> a \<in> dom h"
  by (induction xs arbitrary: p) (auto split: option.splits)


lemma data_of_upd [simp]: "a \<notin> set xs \<Longrightarrow> data_of (h(a := v)) xs = data_of h xs"
  by (auto simp: data_of_def)

lemma is_list_Nil [simp]: "is_list h root [] \<longleftrightarrow> root = None"
  by (simp add: is_list_def)

lemma is_list_append_cases:
  assumes "is_list h root (xs @ e # ys)"
  obtains n where "h e = Some n" and "prev n = last_or None xs" and "nxt n = hd_or ys None"
  using assms by (auto simp: is_list_def split: option.splits)

subsection \<open>Each operation on sequences\<close>

lemma list_add_front:
  assumes "is_list h root xs" and "h e = Some n" and "e \<notin> set xs"
  obtains h' where "list_add h root e = Some (h', Some e)" and "is_list h' (Some e) (e # xs)"
    and "data_of h' (e # xs) = data_of h (e # xs)" and "\<And>a. a \<notin> set (e # xs) \<Longrightarrow> h' a = h a"
proof (cases xs)
  case Nil
  show thesis
    by (rule that [of "h(e \<mapsto> n\<lparr>prev := None, nxt := None\<rparr>)"])
      (use assms Nil in \<open>simp_all add: list_add_def upd_def is_list_def data_of_def\<close>)
next
  case (Cons r rs)
  with assms obtain m where m: "root = Some r" "h r = Some m" "prev m = None" "nxt m = hd_or rs None"
    "links h (Some r) rs None" "e \<noteq> r" "r \<notin> set rs" "e \<notin> set rs" "distinct rs"
    by (auto simp: is_list_def split: option.splits)
  show thesis
    by (rule that [of "h(e \<mapsto> n\<lparr>prev := None, nxt := Some r\<rparr>, r \<mapsto> m\<lparr>prev := Some e\<rparr>)"])
      (use assms(2) Cons m in \<open>simp_all add: list_add_def upd_def is_list_def data_of_def fun_upd_twist\<close>)
qed

lemma relink_left:
  assumes "links h None xs q" and "distinct xs"
  obtains h' where "(case last_or None xs of Some p \<Rightarrow> upd h p (\<lambda>n. n\<lparr>nxt := q'\<rparr>) | None \<Rightarrow> Some h) = Some h'"
    and "links h' None xs q'" and "\<And>a. a \<notin> set xs \<Longrightarrow> h' a = h a"
    and "\<And>as. data_of h' as = data_of h as"
proof (cases xs rule: rev_cases)
  case Nil
  then show thesis by (intro that [of h]) simp_all
next
  case (snoc us l)
  with assms obtain n where n: "h l = Some n" by (auto split: option.splits)
  show thesis
    by (rule that [of "h(l \<mapsto> n\<lparr>nxt := q'\<rparr>)"])
      (use assms snoc n in \<open>auto simp: upd_def data_of_def\<close>)
qed

lemma relink_right:
  assumes "links h p ys None" and "distinct ys"
  obtains h' where "(case hd_or ys None of Some x \<Rightarrow> upd h x (\<lambda>n. n\<lparr>prev := p'\<rparr>) | None \<Rightarrow> Some h) = Some h'"
    and "links h' p' ys None" and "\<And>a. a \<notin> set ys \<Longrightarrow> h' a = h a"
    and "\<And>as. data_of h' as = data_of h as"
proof (cases ys)
  case Nil
  then show thesis by (intro that [of h]) simp_all
next
  case (Cons y us)
  with assms obtain n where n: "h y = Some n" by (auto split: option.splits)
  show thesis
    by (rule that [of "h(y \<mapsto> n\<lparr>prev := p'\<rparr>)"])
      (use assms Cons n in \<open>auto simp: upd_def data_of_def\<close>)
qed

lemma list_delete_seq:
  assumes "is_list h root (xs @ e # ys)"
  obtains h' where "list_delete h root e = Some (h', hd_or (xs @ ys) None)"
    and "is_list h' (hd_or (xs @ ys) None) (xs @ ys)"
    and "\<And>as. data_of h' as = data_of h as" and "\<And>a. a \<notin> set (xs @ ys) \<Longrightarrow> h' a = h a"
proof -
  from assms have dist: "distinct xs" "distinct ys" "set xs \<inter> set ys = {}" "e \<notin> set xs" "e \<notin> set ys"
    and root: "root = hd_or xs (Some e)"
    by (auto simp: is_list_def)
  from assms obtain n where n: "h e = Some n" "prev n = last_or None xs" "nxt n = hd_or ys None"
    by (rule is_list_append_cases)
  have l: "links h None xs (Some e)" and r: "links h (Some e) ys None"
    using assms by (simp_all add: is_list_def)
  from relink_left [OF l dist(1), of "hd_or ys None"] obtain h1 where h1:
    "(case last_or None xs of Some p \<Rightarrow> upd h p (\<lambda>n. n\<lparr>nxt := hd_or ys None\<rparr>) | None \<Rightarrow> Some h) = Some h1"
    "links h1 None xs (hd_or ys None)" "\<And>a. a \<notin> set xs \<Longrightarrow> h1 a = h a"
    "\<And>as. data_of h1 as = data_of h as" by metis
  have "links h1 (Some e) ys None"
    using r dist(3) h1(3) links_cong [of ys h1 h] by blast
  from relink_right [OF this dist(2), of "last_or None xs"] obtain h2 where h2:
    "(case hd_or ys None of Some x \<Rightarrow> upd h1 x (\<lambda>n. n\<lparr>prev := last_or None xs\<rparr>) | None \<Rightarrow> Some h1) = Some h2"
    "links h2 (last_or None xs) ys None" "\<And>a. a \<notin> set ys \<Longrightarrow> h2 a = h1 a"
    "\<And>as. data_of h2 as = data_of h1 as" by metis
  have "links h2 None xs (hd_or ys None)"
    using h1(2) h2(3) dist(3) links_cong [of xs h1 h2] by (metis disjoint_iff)
  with h2(2) dist have il: "is_list h2 (hd_or (xs @ ys) None) (xs @ ys)" by (simp add: is_list_def)
  have h1e: "h1 e = Some n" using h1(3) dist n by simp
  have "list_delete h root e = Some (h2, hd_or (xs @ ys) None)"
  proof (cases "last_or None xs")
    case None
    then have "xs = []" by (cases xs rule: rev_cases) simp_all
    with None show ?thesis using n h1(1) h2(1) h1e by (simp add: list_delete_def cong: option.case_cong)
  next
    case (Some p)
    then obtain a as where "xs = a # as" by (cases xs) simp_all
    with Some show ?thesis using n h1(1) h2(1) h1e root
      by (simp add: list_delete_def cong: option.case_cong)
  qed
  then show thesis by (rule that) (use il h1 h2 in simp_all)
qed

lemma list_cons_front:
  assumes "is_list h root xs" and "malloc h = Some a" and "h a = None"
  obtains h' where "list_cons malloc h d root = Some (h', Some a)" and "is_list h' (Some a) (a # xs)"
    and "data_of h' (a # xs) = Some d # data_of h xs" and "\<And>b. b \<notin> set (a # xs) \<Longrightarrow> h' b = h b"
proof -
  let ?n = "\<lparr>prev = None, nxt = None, data = d\<rparr>"
  have fresh: "a \<notin> set xs" using assms(1,3) links_dom [of h None xs None a] by (auto simp: is_list_def)
  then have "is_list (h(a \<mapsto> ?n)) root xs" using assms(1) by (simp add: is_list_def)
  from list_add_front [OF this _ fresh, of ?n] obtain h' where h':
    "list_add (h(a \<mapsto> ?n)) root a = Some (h', Some a)" "is_list h' (Some a) (a # xs)"
    "data_of h' (a # xs) = data_of (h(a \<mapsto> ?n)) (a # xs)"
    "\<And>b. b \<notin> set (a # xs) \<Longrightarrow> h' b = (h(a \<mapsto> ?n)) b" by (metis fun_upd_same)
  show thesis
  proof (rule that)
    show "list_cons malloc h d root = Some (h', Some a)" using h'(1) assms(2) by (simp add: list_cons_def)
    show "data_of h' (a # xs) = Some d # data_of h xs"
      using h'(3) fresh by (simp add: data_of_def)
    show "h' b = h b" if "b \<notin> set (a # xs)" for b using h'(4) [OF that] that by simp
  qed (rule h'(2))
qed

lemma links_Cons_cases:
  assumes "links h p (a # as) q"
  obtains n where "h a = Some n" and "prev n = p" and "nxt n = hd_or as q" and "links h (Some a) as q"
  using assms by (auto split: option.splits)

lemma list_length_links:
  "links h p xs None \<Longrightarrow> list_length_loop h (hd_or xs None) c = Some (c + of_nat (length xs))"
proof (induction xs arbitrary: p c)
  case Nil
  then show ?case by (simp add: list_length_loop.simps)
next
  case (Cons a as)
  from Cons.prems show ?case
    by (rule links_Cons_cases) (simp add: list_length_loop.simps [of h "Some a"] Cons.IH ac_simps)
qed

lemma list_free_links:
  "links h p xs None \<Longrightarrow> distinct xs \<Longrightarrow>
   list_free h (hd_or xs None) fd =
     Some (\<lambda>a. if a \<in> set xs then None else h a, if fd then map the (data_of h xs) else [])"
proof (induction xs arbitrary: p h)
  case Nil
  then show ?case by (simp add: list_free.simps data_of_def)
next
  case (Cons a as)
  from Cons.prems(1) obtain n where n: "h a = Some n" "nxt n = hd_or as None" "links h (Some a) as None"
    by (rule links_Cons_cases)
  have d: "distinct as" "a \<notin> set as" using Cons.prems(2) by simp_all
  have "links (h(a := None)) (Some a) as None" using n d by simp
  from Cons.IH [OF this d(1)] have
    "list_free (h(a := None)) (hd_or as None) fd =
       Some (\<lambda>b. if b \<in> set as then None else (h(a := None)) b, if fd then map the (data_of h as) else [])"
    unfolding data_of_upd [OF d(2)] .
  then show ?case
    using n by (auto simp: list_free.simps [of h "Some a"] data_of_def)
qed

text \<open>The list walked: the callback runs on the data in order until it reports an error.\<close>

fun walk :: "('d \<Rightarrow> 's \<Rightarrow> int \<times> 's) \<Rightarrow> 'd list \<Rightarrow> 's \<Rightarrow> int \<times> 's" where
  "walk f [] s = (0, s)"
| "walk f (d # ds) s = (let (e, s') = f d s in if e \<noteq> 0 then (e, s') else walk f ds s')"

lemma list_walk_links:
  "links h p xs None \<Longrightarrow> list_walk h (hd_or xs None) f s = Some (walk f (map the (data_of h xs)) s)"
proof (induction xs arbitrary: p s)
  case Nil
  then show ?case by (simp add: list_walk.simps data_of_def)
next
  case (Cons a as)
  from Cons.prems show ?case
    by (rule links_Cons_cases)
      (simp add: list_walk.simps [of h "Some a"] Cons.IH data_of_def split: prod.split)
qed

text \<open>The reversal loop: the nodes passed are linked the other way round.\<close>

lemma list_reverse_links:
  "links h p xs None \<Longrightarrow> distinct xs \<Longrightarrow>
   \<exists>h'. list_reverse_loop h (hd_or xs None) l = Some (h', case xs of [] \<Rightarrow> l | _ \<Rightarrow> last_or None xs)
      \<and> links h' None (rev xs) p \<and> (\<forall>a. a \<notin> set xs \<longrightarrow> h' a = h a)
      \<and> (\<forall>as. data_of h' as = data_of h as)"
proof (induction xs arbitrary: p h l)
  case Nil
  then show ?case by (simp add: list_reverse_loop.simps)
next
  case (Cons a as)
  from Cons.prems(1) obtain n where n: "h a = Some n" "prev n = p" "nxt n = hd_or as None"
      "links h (Some a) as None"
    by (rule links_Cons_cases)
  let ?h = "h(a \<mapsto> n\<lparr>nxt := p, prev := hd_or as None\<rparr>)"
  have d: "distinct as" "a \<notin> set as" using Cons.prems(2) by simp_all
  have "links ?h (Some a) as None" using n d by simp
  from Cons.IH [OF this d(1), of "Some a"] obtain h' where h':
    "list_reverse_loop ?h (hd_or as None) (Some a) = Some (h', case as of [] \<Rightarrow> Some a | _ \<Rightarrow> last_or None as)"
    "links h' None (rev as) (Some a)" "\<forall>b. b \<notin> set as \<longrightarrow> h' b = ?h b"
    "\<forall>bs. data_of h' bs = data_of ?h bs" by blast
  have a: "h' a = Some (n\<lparr>nxt := p, prev := hd_or as None\<rparr>)" using h'(3) Cons.prems(2) by simp
  have lr: "last_or None (rev as) = hd_or as None" by (cases as) simp_all
  have "data_of ?h bs = data_of h bs" for bs using n(1) by (simp add: data_of_def)
  moreover have "(case as of [] \<Rightarrow> Some a | _ \<Rightarrow> last_or None as) = last_or (Some a) as"
    by (cases as) simp_all
  ultimately show ?case
    using n a lr h' by (intro exI [of _ h']) (auto simp: list_reverse_loop.simps [of h "Some a"])
qed

lemma list_reverse_seq:
  assumes "is_list h root xs"
  obtains h' where "list_reverse h root = Some (h', hd_or (rev xs) None)"
    and "is_list h' (hd_or (rev xs) None) (rev xs)"
    and "\<And>as. data_of h' as = data_of h as" and "\<And>a. a \<notin> set xs \<Longrightarrow> h' a = h a"
proof -
  have "(case xs of [] \<Rightarrow> root | _ \<Rightarrow> last_or None xs) = (if xs = [] then root else last_or None xs)"
    by (cases xs) simp_all
  also have "\<dots> = hd_or (rev xs) None"
    using assms by (cases xs rule: rev_cases) (simp_all add: is_list_def)
  finally have "(case xs of [] \<Rightarrow> root | _ \<Rightarrow> last_or None xs) = hd_or (rev xs) None" .
  with list_reverse_links [of h None xs root] assms obtain h' where
    "list_reverse_loop h root root = Some (h', hd_or (rev xs) None)" "links h' None (rev xs) None"
    "\<forall>a. a \<notin> set xs \<longrightarrow> h' a = h a" "\<forall>as. data_of h' as = data_of h as"
    unfolding is_list_def by metis
  then show thesis
    using assms by (intro that [of h']) (simp_all add: is_list_def list_reverse_def)
qed

lemma list_pop_front:
  assumes "is_list h root (a # xs)"
  obtains h' where "list_pop h root = Some (h', hd_or xs None)" and "is_list h' (hd_or xs None) xs"
    and "data_of h' xs = data_of h xs" and "h' a = None"
    and "\<And>b. b \<notin> set (a # xs) \<Longrightarrow> h' b = h b"
proof -
  have fresh: "a \<notin> set xs" and root: "root = Some a" using assms by (auto simp: is_list_def)
  from assms list_delete_seq [of h root "[]" a xs] obtain h1 where h1:
    "list_delete h root a = Some (h1, hd_or xs None)" "is_list h1 (hd_or xs None) xs"
    "\<And>as. data_of h1 as = data_of h as" "\<And>b. b \<notin> set xs \<Longrightarrow> h1 b = h b"
    by (metis append_Nil)
  show thesis
    by (rule that [of "h1(a := None)"])
      (use h1 fresh root in \<open>simp_all add: list_pop_def is_list_def\<close>)
qed

subsection \<open>The contract of a linked list\<close>

text \<open>
  What a client of the list may rely on: a relation between heaps and the data sequence,
  pushing and popping at the front, reversal.  Any sequence of pushes is undone by as many
  pops, and reversing twice gives the sequence back.
\<close>

fun push_all :: "('h \<Rightarrow> 'd \<Rightarrow> 'r \<Rightarrow> ('h \<times> 'r) option) \<Rightarrow> 'h \<Rightarrow> 'd list \<Rightarrow> 'r \<Rightarrow> ('h \<times> 'r) option" where
  "push_all push h [] r = Some (h, r)"
| "push_all push h (d # ds) r = do { (h, r) \<leftarrow> push h d r; push_all push h ds r }"

fun pop_all :: "('h \<Rightarrow> 'r \<Rightarrow> ('h \<times> 'r) option) \<Rightarrow> 'h \<Rightarrow> nat \<Rightarrow> 'r \<Rightarrow> ('h \<times> 'r) option" where
  "pop_all pop h 0 r = Some (h, r)"
| "pop_all pop h (Suc n) r = do { (h, r) \<leftarrow> pop h r; pop_all pop h n r }"

locale linked_stack =
  fixes rep :: "'h \<Rightarrow> 'r \<Rightarrow> 'd list \<Rightarrow> bool"
    and push :: "'h \<Rightarrow> 'd \<Rightarrow> 'r \<Rightarrow> ('h \<times> 'r) option"
    and pop :: "'h \<Rightarrow> 'r \<Rightarrow> ('h \<times> 'r) option"
    and reverse :: "'h \<Rightarrow> 'r \<Rightarrow> ('h \<times> 'r) option"
  assumes push: "rep h r ds \<Longrightarrow> \<exists>h' r'. push h d r = Some (h', r') \<and> rep h' r' (d # ds)"
    and pop: "rep h r (d # ds) \<Longrightarrow> \<exists>h' r'. pop h r = Some (h', r') \<and> rep h' r' ds"
    and reverse: "rep h r ds \<Longrightarrow> \<exists>h' r'. reverse h r = Some (h', r') \<and> rep h' r' (rev ds)"
begin

lemma push_all_rep:
  "rep h r ds \<Longrightarrow> \<exists>h' r'. push_all push h es r = Some (h', r') \<and> rep h' r' (rev es @ ds)"
proof (induction es arbitrary: h r ds)
  case (Cons e es)
  from push [OF Cons.prems, of e] obtain h1 r1 where "push h e r = Some (h1, r1)" "rep h1 r1 (e # ds)"
    by auto
  with Cons.IH [of h1 r1 "e # ds"] show ?case by auto
qed simp

lemma pop_all_rep:
  "rep h r (es @ ds) \<Longrightarrow> \<exists>h' r'. pop_all pop h (length es) r = Some (h', r') \<and> rep h' r' ds"
proof (induction es arbitrary: h r)
  case (Cons e es)
  from pop [of h r e "es @ ds"] Cons.prems obtain h1 r1
    where "pop h r = Some (h1, r1)" "rep h1 r1 (es @ ds)" by auto
  with Cons.IH [of h1 r1] show ?case by auto
qed simp

lemma push_pop_all:
  assumes "rep h r ds"
  shows "\<exists>h1 r1 h2 r2. push_all push h es r = Some (h1, r1)
      \<and> pop_all pop h1 (length es) r1 = Some (h2, r2) \<and> rep h2 r2 ds"
proof -
  from push_all_rep [OF assms, of es] obtain h1 r1
    where 1: "push_all push h es r = Some (h1, r1)" "rep h1 r1 (rev es @ ds)" by auto
  from pop_all_rep [OF 1(2)] 1(1) show ?thesis by auto
qed

lemma reverse_twice:
  assumes "rep h r ds"
  shows "\<exists>h1 r1 h2 r2. reverse h r = Some (h1, r1) \<and> reverse h1 r1 = Some (h2, r2) \<and> rep h2 r2 ds"
  using reverse [OF assms] reverse [of _ _ "rev ds"] by (metis rev_rev_ident)

end

text \<open>The data sequence of a list, whatever its addresses.\<close>

definition list_rep :: "'d heap \<Rightarrow> addr option \<Rightarrow> 'd list \<Rightarrow> bool" where
  "list_rep h root ds \<longleftrightarrow> finite (dom h) \<and> (\<exists>xs. is_list h root xs \<and> data_of h xs = map Some ds)"

text \<open>An allocator that returns an unused address, as \<^verbatim>\<open>malloc\<close> does on a finite heap.\<close>

definition fresh_malloc :: "'d heap \<Rightarrow> addr option" where
  "fresh_malloc h = Some (if dom h = {} then 0 else Suc (Max (dom h)))"

lemma fresh_malloc_unused: "finite (dom h) \<Longrightarrow> h (the (fresh_malloc h)) = None"
proof -
  assume fin: "finite (dom h)"
  have "Suc (Max (dom h)) \<notin> dom h"
    using fin Max_ge [of "dom h" "Suc (Max (dom h))"] by (metis Suc_n_not_le_n)
  then show ?thesis by (auto simp: fresh_malloc_def domIff)
qed

lemma finite_dom_agree:
  "finite (dom h) \<Longrightarrow> (\<And>a. a \<notin> set xs \<Longrightarrow> h' a = h a) \<Longrightarrow> finite (dom h')"
  by (rule finite_subset [of _ "dom h \<union> set xs"]) (auto simp: domIff)

interpretation ma_list: linked_stack list_rep "list_cons fresh_malloc" list_pop list_reverse
proof unfold_locales
  fix h :: "'d heap" and r ds d
  assume "list_rep h r ds"
  then obtain xs where xs: "finite (dom h)" "is_list h r xs" "data_of h xs = map Some ds"
    by (auto simp: list_rep_def)
  have m: "fresh_malloc h = Some (the (fresh_malloc h))" by (simp add: fresh_malloc_def)
  obtain h' where "list_cons fresh_malloc h d r = Some (h', fresh_malloc h)"
    "is_list h' (fresh_malloc h) (the (fresh_malloc h) # xs)"
    "data_of h' (the (fresh_malloc h) # xs) = Some d # data_of h xs"
    "\<And>b. b \<notin> set (the (fresh_malloc h) # xs) \<Longrightarrow> h' b = h b"
    using list_cons_front [where d = d and malloc = fresh_malloc, OF xs(2) m fresh_malloc_unused [OF xs(1)]]
      m by metis
  moreover from this(4) have "finite (dom h')" by (rule finite_dom_agree [OF xs(1)])
  ultimately show "\<exists>h' r'. list_cons fresh_malloc h d r = Some (h', r') \<and> list_rep h' r' (d # ds)"
    using xs(3) by (auto simp: list_rep_def intro!: exI [of _ "the (fresh_malloc h) # xs"])
  obtain h1 where "list_reverse h r = Some (h1, hd_or (rev xs) None)"
    "is_list h1 (hd_or (rev xs) None) (rev xs)"
    "\<And>as. data_of h1 as = data_of h as" "\<And>a. a \<notin> set xs \<Longrightarrow> h1 a = h a"
    using list_reverse_seq [OF xs(2)] by metis
  moreover from this(4) have "finite (dom h1)" by (rule finite_dom_agree [OF xs(1)])
  moreover have "data_of h (rev xs) = map Some (rev ds)" using xs(3) by (metis data_of_def rev_map)
  ultimately show "\<exists>h' r'. list_reverse h r = Some (h', r') \<and> list_rep h' r' (rev ds)"
    by (auto simp: list_rep_def intro!: exI [of _ "rev xs"])
next
  fix h :: "'d heap" and r ds d
  assume "list_rep h r (d # ds)"
  then obtain a xs where xs: "finite (dom h)" "is_list h r (a # xs)" "data_of h (a # xs) = map Some (d # ds)"
    by (auto simp: list_rep_def data_of_def Cons_eq_map_conv)
  obtain h' where "list_pop h r = Some (h', hd_or xs None)" "is_list h' (hd_or xs None) xs"
    "data_of h' xs = data_of h xs" "\<And>b. b \<notin> set (a # xs) \<Longrightarrow> h' b = h b"
    using list_pop_front [OF xs(2)] by metis
  moreover from this(4) have "finite (dom h')" by (rule finite_dom_agree [OF xs(1)])
  moreover have "data_of h xs = map Some ds" using xs(3) by (simp add: data_of_def)
  ultimately show "\<exists>h' r'. list_pop h r = Some (h', r') \<and> list_rep h' r' ds"
    by (auto simp: list_rep_def)
qed

subsection \<open>Properties\<close>

text \<open>C10: \<^verbatim>\<open>list_delete\<close> of any element of a well-formed list (first, middle or last) takes exactly this element out
  of the sequence, returns the new root, keeps all data, and does not touch nodes outside the list.\<close>

theorem list_delete_refines:
  assumes "is_list h root (xs @ a # ys)"
  shows "\<exists>h'. list_delete h root a = Some (h', hd_or (xs @ ys) None) \<and> is_list h' (hd_or (xs @ ys) None) (xs @ ys)
     \<and> (\<forall>as. data_of h' as = data_of h as) \<and> (\<forall>b. b \<notin> set (xs @ ys) \<longrightarrow> h' b = h b)"
  using list_delete_seq [OF assms] by metis

theorem list_delete_refines_witness:
  "\<exists>h'. list_delete [1 \<mapsto> \<lparr>prev = None, nxt = Some 2, data = ''a''\<rparr>, 2 \<mapsto> \<lparr>prev = Some 1, nxt = Some 3, data = ''b''\<rparr>,
        3 \<mapsto> \<lparr>prev = Some 2, nxt = None, data = ''c''\<rparr>] (Some 1) 2 = Some (h', Some 1)
     \<and> is_list h' (Some 1) [1, 3] \<and> data_of h' [1, 3] = [Some ''a'', Some ''c'']"
proof -
  let ?h = "[1 \<mapsto> \<lparr>prev = None, nxt = Some 2, data = ''a''\<rparr>, 2 \<mapsto> \<lparr>prev = Some 1, nxt = Some 3, data = ''b''\<rparr>,
        3 \<mapsto> \<lparr>prev = Some 2, nxt = None, data = ''c''\<rparr>]"
  have "is_list ?h (Some 1) ([1] @ 2 # [3])" by (simp add: is_list_def)
  moreover have "data_of ?h [1, 3] = [Some ''a'', Some ''c'']" by (simp add: data_of_def)
  ultimately show ?thesis using list_delete_refines [of ?h "Some 1" "[1]" 2 "[3]"] by simp metis
qed

text \<open>C11: \<^verbatim>\<open>list_reverse\<close> of a well-formed list ends and returns the root of a well-formed list of the same nodes in
  the opposite order; the data and all other nodes are unchanged.\<close>

theorem list_reverse_refines:
  assumes "is_list h root xs"
  shows "\<exists>h'. list_reverse h root = Some (h', hd_or (rev xs) None) \<and> is_list h' (hd_or (rev xs) None) (rev xs)
     \<and> (\<forall>as. data_of h' as = data_of h as) \<and> (\<forall>a. a \<notin> set xs \<longrightarrow> h' a = h a)"
  using list_reverse_seq [OF assms] by metis

theorem list_reverse_refines_witness:
  "\<exists>h'. list_reverse [1 \<mapsto> \<lparr>prev = None, nxt = Some 2, data = ''a''\<rparr>, 2 \<mapsto> \<lparr>prev = Some 1, nxt = None, data = ''b''\<rparr>] (Some 1)
        = Some (h', Some 2) \<and> is_list h' (Some 2) [2, 1] \<and> data_of h' [2, 1] = [Some ''b'', Some ''a'']"
proof -
  let ?h = "[1 \<mapsto> \<lparr>prev = None, nxt = Some 2, data = ''a''\<rparr>, 2 \<mapsto> \<lparr>prev = Some 1, nxt = None, data = ''b''\<rparr>]"
  have "is_list ?h (Some 1) [1, 2]" by (simp add: is_list_def)
  moreover have "data_of ?h [2, 1] = [Some ''b'', Some ''a'']" by (simp add: data_of_def)
  ultimately show ?thesis using list_reverse_refines [of ?h "Some 1" "[1, 2]"] by simp metis
qed

text \<open>C15: \<^verbatim>\<open>list_free\<close> of a well-formed list ends, frees every node of it exactly once and no other, and passes each
  data pointer to \<^verbatim>\<open>free\<close> exactly when asked to, in list order; a null or freed node is never dereferenced.\<close>

theorem list_free_frees_all:
  assumes "is_list h root xs"
  shows "list_free h root free_data =
    Some (\<lambda>a. if a \<in> set xs then None else h a, if free_data then map the (data_of h xs) else [])"
  using assms list_free_links [of h None xs free_data] by (simp add: is_list_def)

theorem list_free_frees_all_witness:
  "list_free [1 \<mapsto> \<lparr>prev = None, nxt = Some 2, data = ''a''\<rparr>, 2 \<mapsto> \<lparr>prev = Some 1, nxt = None, data = ''b''\<rparr>,
       7 \<mapsto> \<lparr>prev = None, nxt = None, data = ''z''\<rparr>] (Some 1) True
     = Some ([7 \<mapsto> \<lparr>prev = None, nxt = None, data = ''z''\<rparr>], [''a'', ''b''])"
  using list_free_frees_all [of "[1 \<mapsto> \<lparr>prev = None, nxt = Some 2, data = ''a''\<rparr>, 2 \<mapsto> \<lparr>prev = Some 1, nxt = None, data = ''b''\<rparr>,
       7 \<mapsto> \<lparr>prev = None, nxt = None, data = ''z''\<rparr>]" "Some 1" "[1, 2]" True]
  by (auto simp: is_list_def data_of_def fun_eq_iff)

end
