(* ===== verification/FltTrace.thy ===== *)
theory FltTrace
  imports FltCodec MaList
begin

unbundle bit_operations_syntax

section \<open>Traces, spans and tags (libmariadb/ob_full_link_trace.c)\<close>

text \<open>
  A trace owns a pool of four spans and sixteen tags.  The spans hang on two doubly linked
  lists (\<^verbatim>\<open>ma_list.c\<close>), the free ones and the current ones; a tag is on the free list of the
  trace or on the list of one span.  Nodes, spans and tags live in explicit stores, so that
  the pointers of the source are addresses here.  \<^verbatim>\<open>trace_init\<close> carves the stores and three
  buffers out of one block of 5120 bytes; the model keeps them apart, and that the parts do
  not overlap is the lemma \<open>trace_layout\<close>.

  Parameters: the clock (\<^verbatim>\<open>get_current_time_us\<close>, the value of the n-th reading), the bytes of
  \<^verbatim>\<open>/dev/urandom\<close>, and the block that \<^verbatim>\<open>malloc\<close> returns.  \<open>None\<close> is undefined behaviour or a loop that
  does not end.
\<close>

subsection \<open>Identifiers and randomness\<close>

record OBCLIENT_UUID =
  low' :: "64 word"
  high' :: "64 word"

definition uuid_zero :: OBCLIENT_UUID where
  "uuid_zero = \<lparr>low' = 0, high' = 0\<rparr>"

definition uuid_unset :: "OBCLIENT_UUID \<Rightarrow> bool" where
  "uuid_unset u \<longleftrightarrow> low' u = 0 \<and> high' u = 0"

definition xorshift128plus :: "64 word \<times> 64 word \<Rightarrow> 64 word \<times> (64 word \<times> 64 word)" where
  "xorshift128plus s =
     (let s1 = fst s;
          s0 = snd s;
          s1 = s1 XOR push_bit 23 s1;
          n = s1 XOR s0 XOR drop_bit 18 s1 XOR drop_bit 5 s0
      in (n + s0, (s0, n)))"

text \<open>
  \<^verbatim>\<open>flt_get_pct\<close> is \<^verbatim>\<open>(double)rand64 / UINT64_MAX\<close>: the random number rounded to 53 bits (to
  nearest, ties to even), divided by 2 to the 64.  It is only compared with the percentages of
  the control information, which are between 0 and 1 then; both sides are scaled by 2 to the
  1074, where every double in that range is an integer.
\<close>

definition round_even :: "nat \<Rightarrow> nat \<Rightarrow> nat" where
  "round_even k n = (let q = n div 2 ^ k; r = n mod 2 ^ k in
     (if 2 * r < 2 ^ k \<or> (2 * r = 2 ^ k \<and> even q) then q else q + 1) * 2 ^ k)"

fun bits_over :: "nat \<Rightarrow> nat \<Rightarrow> nat" where
  "bits_over 0 n = 0"
| "bits_over (Suc k) n = (if n < 2 ^ (53 + k) then bits_over k n else Suc k)"

definition u64_to_double :: "64 word \<Rightarrow> nat" where
  "u64_to_double r = (let n = unat r; k = bits_over 11 n in if k = 0 then n else round_even k n)"

definition double_scaled :: "64 word \<Rightarrow> nat" where
  "double_scaled d = (let e = unat (drop_bit 52 d AND 2047); f = unat (take_bit 52 d) in
     if e = 0 then f else (2 ^ 52 + f) * 2 ^ (e - 1))"

definition flt_pct_le :: "64 word \<Rightarrow> 64 word \<Rightarrow> bool" where
  "flt_pct_le rand64 pct \<longleftrightarrow> u64_to_double rand64 * 2 ^ 1010 \<le> double_scaled pct"

text \<open>A double between 0 and 1, by its bits: at most those of 1.0, or minus zero.\<close>

definition double_in_unit :: "64 word \<Rightarrow> bool" where
  "double_in_unit d \<longleftrightarrow> d \<le> 0x3FF0000000000000 \<or> d = 0x8000000000000000"

definition flt_is_vaild :: "FLTControlInfo \<Rightarrow> bool" where
  "flt_is_vaild control \<longleftrightarrow> sint (level' control) > 0 \<and> double_in_unit (sample_pct' control)
     \<and> rp' control < record_policy MAX_RECORD_POLICY \<and> double_in_unit (print_sample_pct' control)"

subsection \<open>State\<close>

datatype flt_tagtype = FLT_TAG_COMMAND_NAME | FLT_TAG_CLIENT_HOST | FLT_TAG_MAX_TYPE

record ObTagCtx =
  tag_next :: "addr option"
  tag_type :: "16 word"
  tag_data :: cbuf

record ObSpanCtx =
  sp_type :: "16 word"
  sp_id :: OBCLIENT_UUID
  sp_source :: "addr option"
  sp_follow :: bool
  sp_start :: "64 word"
  sp_end :: "64 word"
  sp_tags :: "addr option"

record ObTrace =
  tr_buffer_size :: "64 word"
  tr_offset :: "64 word"
  tr_seq :: "64 word"
  tr_trace_enable :: bool
  tr_show_trace_enable :: bool
  tr_force_print :: bool
  tr_slow_query_print :: bool
  tr_seed :: "64 word \<times> 64 word"
  tr_trace_id :: OBCLIENT_UUID
  tr_root_span_id :: OBCLIENT_UUID
  tr_current :: "addr option"
  tr_free :: "addr option"
  tr_last_active :: "addr option"
  tr_free_tags :: "addr option"
  tr_level :: "8 word"
  tr_auto_flush :: bool
  tr_log_offset :: nat
  tr_log_buf :: mem
  tr_show_offset :: nat
  tr_show_buf :: mem
  tr_serialize_buf :: mem
  tr_nodes :: "addr heap"
  tr_spans :: "addr \<rightharpoonup> ObSpanCtx"
  tr_tags :: "addr \<rightharpoonup> ObTagCtx"
  tr_clock :: "nat \<Rightarrow> 64 word"
  tr_ticks :: nat

abbreviation (input) MAX_TRACE_LOG_SIZE :: nat where "MAX_TRACE_LOG_SIZE \<equiv> 1024"
abbreviation (input) MAX_FLT_SERIALIZE_SIZE :: nat where "MAX_FLT_SERIALIZE_SIZE \<equiv> 2048"
abbreviation (input) SPAN_CACHE_COUNT :: nat where "SPAN_CACHE_COUNT \<equiv> 4"
abbreviation (input) TAG_CACHE_COUNT :: nat where "TAG_CACHE_COUNT \<equiv> 16"
abbreviation (input) OBTRACE_DEFAULT_BUFFER_SIZE :: nat where "OBTRACE_DEFAULT_BUFFER_SIZE \<equiv> 5120"

text \<open>Sizes of the structures under the usual 64-bit layout.\<close>

abbreviation (input) sizeof_LIST :: nat where "sizeof_LIST \<equiv> 24"
abbreviation (input) sizeof_ObTagCtx :: nat where "sizeof_ObTagCtx \<equiv> 24"
abbreviation (input) sizeof_ObSpanCtx :: nat where "sizeof_ObSpanCtx \<equiv> 64"
abbreviation (input) sizeof_ObTrace :: nat where "sizeof_ObTrace \<equiv> 184"

definition TAG_BUFFER_BEGIN :: nat where
  "TAG_BUFFER_BEGIN = 2 * MAX_TRACE_LOG_SIZE + MAX_FLT_SERIALIZE_SIZE"

definition SPAN_BUFFER_BEGIN :: nat where
  "SPAN_BUFFER_BEGIN = 2 * MAX_TRACE_LOG_SIZE + MAX_FLT_SERIALIZE_SIZE + TAG_CACHE_COUNT * sizeof_ObTagCtx"

definition INIT_OFFSET :: nat where
  "INIT_OFFSET = SPAN_BUFFER_BEGIN + SPAN_CACHE_COUNT * (sizeof_LIST + sizeof_ObSpanCtx)"

definition get_current_time_us :: "ObTrace \<Rightarrow> 64 word \<times> ObTrace" where
  "get_current_time_us t = (tr_clock t (tr_ticks t), t\<lparr>tr_ticks := Suc (tr_ticks t)\<rparr>)"

definition uuid4_generate :: "ObTrace \<Rightarrow> OBCLIENT_UUID \<times> ObTrace" where
  "uuid4_generate t =
     (let (w, seed) = xorshift128plus (tr_seed t);
          (now, t) = get_current_time_us (t\<lparr>tr_seed := seed\<rparr>)
      in (\<lparr>low' = w, high' = now\<rparr>, t))"

definition flt_get_pct :: "ObTrace \<Rightarrow> 64 word \<times> ObTrace" where
  "flt_get_pct t = (let (w, seed) = xorshift128plus (tr_seed t) in (w, t\<lparr>tr_seed := seed\<rparr>))"

definition upd_span :: "ObTrace \<Rightarrow> addr \<Rightarrow> (ObSpanCtx \<Rightarrow> ObSpanCtx) \<Rightarrow> ObTrace option" where
  "upd_span t a f = (case tr_spans t a of
     None \<Rightarrow> None | Some s \<Rightarrow> Some (t\<lparr>tr_spans := (tr_spans t)(a \<mapsto> f s)\<rparr>))"

text \<open>The macro \<^verbatim>\<open>INIT_SPAN\<close>: a span gets its identifier when it is first needed.\<close>

definition INIT_SPAN :: "ObTrace \<Rightarrow> addr option \<Rightarrow> ObTrace option" where
  "INIT_SPAN t span = (case span of
     None \<Rightarrow> Some t
   | Some a \<Rightarrow> do {
       s \<leftarrow> tr_spans t a;
       if high' (sp_id s) = 0 then
         (let (w, seed) = xorshift128plus (tr_seed t)
          in upd_span (t\<lparr>tr_seed := seed\<rparr>) a (\<lambda>s. s\<lparr>sp_id := \<lparr>low' = w, high' = sp_start s\<rparr>\<rparr>))
       else Some t })"

subsection \<open>Initialisation\<close>

text \<open>
  The two loops of \<^verbatim>\<open>trace_init\<close>: tags are pushed one by one on the free tag list, nodes on the
  free span list.  Node \<open>i\<close> carries span \<open>i\<close>.
\<close>

fun init_tags :: "nat \<Rightarrow> ObTrace \<Rightarrow> ObTrace" where
  "init_tags 0 t = t"
| "init_tags (Suc n) t =
     (let t = init_tags n t in
      t\<lparr>tr_tags := (tr_tags t)(n \<mapsto> \<lparr>tag_next = tr_free_tags t, tag_type = 0, tag_data = None\<rparr>),
        tr_free_tags := Some n\<rparr>)"

definition blank_span :: ObSpanCtx where
  "blank_span = \<lparr>sp_type = 0, sp_id = uuid_zero, sp_source = None, sp_follow = False,
     sp_start = 0, sp_end = 0, sp_tags = None\<rparr>"

fun init_spans :: "nat \<Rightarrow> ObTrace \<Rightarrow> ObTrace option" where
  "init_spans 0 t = Some t"
| "init_spans (Suc n) t = do {
     t \<leftarrow> init_spans n t;
     (h, r) \<leftarrow> list_add ((tr_nodes t)(n \<mapsto> \<lparr>prev = None, nxt = None, data = n\<rparr>)) (tr_free t) n;
     Some (t\<lparr>tr_nodes := h, tr_free := r, tr_spans := (tr_spans t)(n \<mapsto> blank_span)\<rparr>) }"

text \<open>
  The structure is zeroed, the buffers behind it (\<open>fresh\<close>, the content of \<^verbatim>\<open>data_\<close>) are not.
  The random bytes may be missing or incomplete, which only the return code tells.
\<close>

definition empty_trace :: "(nat \<Rightarrow> 64 word) \<Rightarrow> mem \<Rightarrow> 64 word \<times> 64 word \<Rightarrow> ObTrace" where
  "empty_trace clock fresh seed = \<lparr>
     tr_buffer_size = of_nat (OBTRACE_DEFAULT_BUFFER_SIZE - sizeof_ObTrace),
     tr_offset = of_nat INIT_OFFSET, tr_seq = 0,
     tr_trace_enable = False, tr_show_trace_enable = False, tr_force_print = False,
     tr_slow_query_print = False, tr_seed = seed,
     tr_trace_id = uuid_zero, tr_root_span_id = uuid_zero,
     tr_current = None, tr_free = None, tr_last_active = None, tr_free_tags = None,
     tr_level = 0, tr_auto_flush = True,
     tr_log_offset = 0, tr_log_buf = take MAX_TRACE_LOG_SIZE fresh,
     tr_show_offset = 1, tr_show_buf = (take MAX_TRACE_LOG_SIZE (drop MAX_TRACE_LOG_SIZE fresh))[0 := 91],
     tr_serialize_buf = take MAX_FLT_SERIALIZE_SIZE (drop (2 * MAX_TRACE_LOG_SIZE) fresh),
     tr_nodes = Map.empty, tr_spans = Map.empty, tr_tags = Map.empty,
     tr_clock = clock, tr_ticks = 0\<rparr>"

definition trace_init ::
  "(nat \<Rightarrow> 64 word) \<Rightarrow> 'flt option \<Rightarrow> mem option \<Rightarrow> bool \<Rightarrow> 64 word \<times> 64 word \<Rightarrow> (int \<times> ObTrace option) option" where
  "trace_init clock flt malloc urandom_ok seed =
     (if flt = None then Some (OB_ERROR, None)
      else case malloc of
        None \<Rightarrow> Some (OB_ERROR, None)
      | Some fresh \<Rightarrow> do {
          t \<leftarrow> init_spans SPAN_CACHE_COUNT (init_tags TAG_CACHE_COUNT (empty_trace clock fresh seed));
          Some (if urandom_ok then OB_SUCCESS else OB_ERROR, Some t) })"

definition trace_end :: "ObTrace option \<Rightarrow> ObTrace option" where
  "trace_end t = None"

subsection \<open>Beginning and ending a trace\<close>

text \<open>\<open>control\<close> is the control information behind \<^verbatim>\<open>trace->flt\<close>, \<open>None\<close> when that pointer is null.\<close>

definition begin_trace_enable :: "FLTControlInfo option \<Rightarrow> ObTrace \<Rightarrow> ObTrace" where
  "begin_trace_enable control t = (case control of
     None \<Rightarrow> t\<lparr>tr_trace_enable := False, tr_show_trace_enable := False\<rparr>
   | Some c \<Rightarrow>
       if \<not> flt_is_vaild c then t\<lparr>tr_trace_enable := False, tr_show_trace_enable := False\<rparr>
       else if flt_show_trace_enable' c = 1 then t\<lparr>tr_trace_enable := True, tr_show_trace_enable := True\<rparr>
       else (let (r, t) = flt_get_pct t in
         t\<lparr>tr_show_trace_enable := False, tr_trace_enable := flt_pct_le r (sample_pct' c)\<rparr>))"

definition begin_trace_print :: "FLTControlInfo \<Rightarrow> ObTrace \<Rightarrow> ObTrace" where
  "begin_trace_print c t =
     (if flt_show_trace_enable' c = 1 then t\<lparr>tr_force_print := True\<rparr>
      else if rp' c = record_policy RP_ALL then t\<lparr>tr_force_print := True\<rparr>
      else if rp' c = record_policy RP_SAMPLE_AND_SLOW_QUERY then
        (let (r, t) = flt_get_pct t in t\<lparr>tr_force_print := flt_pct_le r (print_sample_pct' c)\<rparr>)
      else t\<lparr>tr_force_print := False\<rparr>)"

definition begin_trace :: "FLTControlInfo option \<Rightarrow> ObTrace \<Rightarrow> ObTrace option" where
  "begin_trace control t =
     (let t = begin_trace_enable control t in
      if tr_trace_enable t then do {
        c \<leftarrow> control;
        let (u, t) = uuid4_generate t;
        Some (begin_trace_print c (t\<lparr>tr_trace_id := u, tr_level := level' c AND 127\<rparr>)) }
      else Some (t\<lparr>tr_level := 0, tr_force_print := False, tr_trace_id := uuid_zero\<rparr>))"

text \<open>Moving the first node of the current list to the free list.\<close>

definition release_node :: "ObTrace \<Rightarrow> addr \<Rightarrow> ObTrace option" where
  "release_node t elem = do {
     (h, cur) \<leftarrow> list_delete (tr_nodes t) (tr_current t) elem;
     (h, free) \<leftarrow> list_add h (tr_free t) elem;
     Some (t\<lparr>tr_nodes := h, tr_current := cur, tr_free := free\<rparr>) }"

partial_function (option) end_trace_loop :: "ObTrace \<Rightarrow> ObTrace option" where
  "end_trace_loop t = (case tr_current t of
     None \<Rightarrow> Some t
   | Some elem \<Rightarrow> do {
       n \<leftarrow> tr_nodes t elem;
       s \<leftarrow> tr_spans t (data n);
       t \<leftarrow> (if sp_end s = 0 then (let (now, t) = get_current_time_us t in upd_span t (data n) (\<lambda>s. s\<lparr>sp_end := now\<rparr>))
             else Some t);
       t \<leftarrow> release_node t elem;
       end_trace_loop t })"

definition end_trace :: "ObTrace \<Rightarrow> ObTrace option" where
  "end_trace t = do {
     t \<leftarrow> end_trace_loop t;
     Some (t\<lparr>tr_offset := of_nat INIT_OFFSET, tr_level := 0, tr_auto_flush := False, tr_last_active := None\<rparr>) }"

subsection \<open>Tags\<close>

definition append_tag :: "ObTrace \<Rightarrow> addr \<Rightarrow> 16 word \<Rightarrow> cbuf \<Rightarrow> ObTrace option" where
  "append_tag t span type str =
     (if str = None then Some t
      else case tr_free_tags t of
        None \<Rightarrow> Some t
      | Some a \<Rightarrow> do {
          tag \<leftarrow> tr_tags t a;
          s \<leftarrow> tr_spans t span;
          Some (t\<lparr>tr_free_tags := tag_next tag,
            tr_tags := (tr_tags t)(a \<mapsto> \<lparr>tag_next = sp_tags s, tag_type = type, tag_data = str\<rparr>),
            tr_spans := (tr_spans t)(span \<mapsto> s\<lparr>sp_tags := Some a\<rparr>)\<rparr>) })"

definition reset_tag :: "ObTrace \<Rightarrow> addr option \<Rightarrow> ObTrace option" where
  "reset_tag t tag = (case tag of
     None \<Rightarrow> Some t
   | Some a \<Rightarrow> do {
       g \<leftarrow> tr_tags t a;
       Some (t\<lparr>tr_tags := (tr_tags t)(a \<mapsto> g\<lparr>tag_next := tr_free_tags t\<rparr>), tr_free_tags := Some a\<rparr>) })"

partial_function (option) reset_tags_loop :: "ObTrace \<Rightarrow> addr option \<Rightarrow> ObTrace option" where
  "reset_tags_loop t tag = (case tag of
     None \<Rightarrow> Some t
   | Some a \<Rightarrow> do {
       g \<leftarrow> tr_tags t a;
       t \<leftarrow> reset_tag t (Some a);
       reset_tags_loop t (tag_next g) })"

text \<open>\<^verbatim>\<open>reset_span\<close> recycles the spans of a transaction; their tags are only unlinked.\<close>

partial_function (option) reset_span_loop :: "ObTrace \<Rightarrow> ObTrace option" where
  "reset_span_loop t = (case tr_current t of
     None \<Rightarrow> Some t
   | Some elem \<Rightarrow> do {
       n \<leftarrow> tr_nodes t elem;
       t \<leftarrow> release_node t elem;
       t \<leftarrow> upd_span t (data n) (\<lambda>s. s\<lparr>sp_tags := None\<rparr>);
       reset_span_loop t })"

definition reset_span :: "FLTControlInfo option \<Rightarrow> ObTrace \<Rightarrow> ObTrace option" where
  "reset_span flt t =
     (if flt = None then Some t
      else if uuid_unset (tr_trace_id t) then Some t
      else reset_span_loop t)"

subsection \<open>Printing\<close>

definition str :: "string \<Rightarrow> mem" where
  "str s = map of_char s"

definition quoted :: "string \<Rightarrow> mem" where
  "quoted s = 34 # str s @ [34]"

definition hex_digit :: "64 word \<Rightarrow> byte" where
  "hex_digit w = (let d = w AND 15 in if d < 10 then 48 + ucast d else 87 + ucast d)"

fun hex_text :: "nat \<Rightarrow> 64 word \<Rightarrow> mem" where
  "hex_text 0 w = []"
| "hex_text (Suc n) w = hex_text n (drop_bit 4 w) @ [hex_digit w]"

fun dec_nat :: "nat \<Rightarrow> mem" where
  "dec_nat n = (if n < 10 then [48 + of_nat n] else dec_nat (n div 10) @ [48 + of_nat (n mod 10)])"

definition dec_text :: "64 word \<Rightarrow> mem" where
  "dec_text w = (if sint w < 0 then 45 # dec_nat (nat (- sint w)) else dec_nat (nat (sint w)))"

text \<open>\<^verbatim>\<open>UUID_PATTERN\<close> with the arguments of \<^verbatim>\<open>UUID_TOSTRING\<close>; each part has exactly its minimal width.\<close>

definition uuid_text :: "OBCLIENT_UUID \<Rightarrow> mem" where
  "uuid_text u =
     hex_text 8 (drop_bit 32 (high' u)) @ [45] @
     hex_text 4 (drop_bit 16 (high' u) AND 0xffff) @ [45] @
     hex_text 4 (high' u AND 0xffff) @ [45] @
     hex_text 4 (drop_bit 48 (low' u)) @ [45] @
     hex_text 12 (low' u AND 0xffffffffffff)"

definition trace_text :: "OBCLIENT_UUID \<Rightarrow> OBCLIENT_UUID \<Rightarrow> 64 word \<Rightarrow> 64 word \<Rightarrow> OBCLIENT_UUID \<Rightarrow> bool \<Rightarrow> mem \<Rightarrow> mem" where
  "trace_text tid sid start_ts end_ts parent_id is_follow tags =
     str ''{'' @ quoted ''trace_id'' @ str '':'' @ [34] @ uuid_text tid @ [34] @ str '',''
     @ quoted ''name'' @ str '':'' @ quoted ''obclient'' @ str '',''
     @ quoted ''id'' @ str '':'' @ [34] @ uuid_text sid @ [34] @ str '',''
     @ quoted ''start_ts'' @ str '':'' @ dec_text start_ts @ str '',''
     @ quoted ''end_ts'' @ str '':'' @ dec_text end_ts @ str '',''
     @ quoted ''parent_id'' @ str '':'' @ [34] @ uuid_text parent_id @ [34] @ str '',''
     @ quoted ''is_follow'' @ str '':'' @ str (if is_follow then ''true'' else ''false'')
     @ tags @ str ''}''"

text \<open>
  \<^verbatim>\<open>snprintf\<close> into a buffer at an offset, with the rest of the buffer as the size (a \<^verbatim>\<open>size_t\<close>, which
  wraps when the offset is past the end): a truncated text with a terminator; the length of the
  whole text is returned.
\<close>

definition snprintf_at :: "mem \<Rightarrow> nat \<Rightarrow> mem \<Rightarrow> (mem \<times> int) option" where
  "snprintf_at buf off text =
     (let sz = uint (word_of_int (int MAX_TRACE_LOG_SIZE - int off) :: 64 word) in
      if sz = 0 then Some (buf, int (length text))
      else do {
        buf \<leftarrow> store_bytes buf (int off) (take (nat (sz - 1)) text @ [0]);
        Some (buf, int (length text)) })"

definition tag_str :: "16 word \<Rightarrow> mem option" where
  "tag_str type = (if type = 0 then Some (str ''command_name'')
     else if type = 1 then Some (str ''client_host'') else None)"

text \<open>
  \<^verbatim>\<open>tostring_ObTagCtx\<close>: the characters of the value, escaped.  The flag \<open>conv\<close> is set at the first
  escaped character and never cleared.
\<close>

definition escape :: "byte \<Rightarrow> mem option" where
  "escape c = (if c = 34 then Some [92, 34] else if c = 10 then Some [92, 110]
     else if c = 13 then Some [92, 114] else if c = 92 then Some [92, 92] else None)"

fun put_chars :: "mem \<Rightarrow> int \<Rightarrow> int \<Rightarrow> mem \<Rightarrow> int \<Rightarrow> (mem \<times> int \<times> int) option" where
  "put_chars buf buf_len pos [] ret = Some (buf, pos, ret)"
| "put_chars buf buf_len pos (c # cs) ret =
     (if pos < buf_len then do { buf \<leftarrow> store_byte buf pos c; put_chars buf buf_len (pos + 1) cs ret }
      else put_chars buf buf_len pos cs OB_ERROR)"

fun tag_value_loop :: "mem \<Rightarrow> int \<Rightarrow> int \<Rightarrow> mem \<Rightarrow> bool \<Rightarrow> bool \<Rightarrow> int \<Rightarrow> (mem \<times> int \<times> int) option" where
  "tag_value_loop buf buf_len pos [] first conv ret = None"
| "tag_value_loop buf buf_len pos (c # cs) first conv ret =
     (if c = 0 then Some (buf, pos, ret)
      else do {
        next_char \<leftarrow> (if first then Some 0 else case cs of [] \<Rightarrow> None | d # _ \<Rightarrow> Some d);
        (buf, pos, ret, conv) \<leftarrow>
          (case (if \<not> first \<and> next_char \<noteq> 0 then escape c else None) of
             None \<Rightarrow> Some (buf, pos, ret, conv)
           | Some e \<Rightarrow> do { (buf, pos, ret) \<leftarrow> put_chars buf buf_len pos e ret; Some (buf, pos, ret, True) });
        (buf, pos) \<leftarrow>
          (if \<not> conv \<and> pos < buf_len then do { buf \<leftarrow> store_byte buf pos c; Some (buf, pos + 1) }
           else Some (buf, pos));
        tag_value_loop buf buf_len pos cs False conv ret })"

definition tostring_ObTagCtx :: "mem \<Rightarrow> int \<Rightarrow> int \<Rightarrow> ObTagCtx \<Rightarrow> (int \<times> mem \<times> int) option" where
  "tostring_ObTagCtx buf buf_len pos src = do {
     name \<leftarrow> tag_str (tag_type src);
     let l = int (length name);
     (buf, tmp_pos, ret) \<leftarrow>
       (if pos + l + 7 \<ge> buf_len then do { buf \<leftarrow> store_byte buf (buf_len - 1) 0; Some (buf, pos, OB_ERROR) }
        else do {
          buf \<leftarrow> store_bytes buf pos ([123, 34] @ name @ [34, 58, 0]);
          value \<leftarrow> tag_data src;
          tag_value_loop buf buf_len (pos + l + 4) value True False OB_SUCCESS });
     (buf, tmp_pos) \<leftarrow>
       (if ret \<noteq> OB_SUCCESS \<or> tmp_pos + 1 \<ge> buf_len
        then do { buf \<leftarrow> store_byte buf (buf_len - 1) 0; Some (buf, tmp_pos) }
        else do { buf \<leftarrow> store_bytes buf tmp_pos [125, 0]; Some (buf, tmp_pos + 1) });
     Some (ret, buf, if ret = OB_SUCCESS then tmp_pos else pos) }"

subsection \<open>Flushing spans to the log\<close>

text \<open>
  The tags of a span as text, into a local buffer of 1024 bytes.  \<open>flush_tags_loop\<close> is the
  \<^verbatim>\<open>while\<close> loop, \<open>flush_tags\<close> adds the closing bracket.
\<close>

partial_function (option) flush_tags_loop ::
  "(addr \<rightharpoonup> ObTagCtx) \<Rightarrow> mem \<Rightarrow> int \<Rightarrow> bool \<Rightarrow> addr option \<Rightarrow> (int \<times> mem \<times> int) option" where
  "flush_tags_loop tags buf pos first tag = (case tag of
     None \<Rightarrow> Some (OB_SUCCESS, buf, pos)
   | Some a \<Rightarrow>
       if pos + 10 \<ge> int MAX_TRACE_LOG_SIZE then Some (OB_ERROR, buf, pos)
       else do {
         buf \<leftarrow> store_byte buf pos 44;
         (buf, pos) \<leftarrow> (if first then do {
             buf \<leftarrow> store_bytes buf (pos + 1) (quoted ''tags'' @ [58, 91, 0]);
             Some (buf, pos + 9) }
           else Some (buf, pos + 1));
         g \<leftarrow> tags a;
         (ret, buf, pos) \<leftarrow> tostring_ObTagCtx buf (int MAX_TRACE_LOG_SIZE) pos g;
         if ret \<noteq> OB_SUCCESS then Some (ret, buf, pos)
         else flush_tags_loop tags buf pos False (tag_next g) })"

definition flush_tags :: "(addr \<rightharpoonup> ObTagCtx) \<Rightarrow> mem \<Rightarrow> addr option \<Rightarrow> (int \<times> mem) option" where
  "flush_tags tags buf tag = do {
     (ret, buf, pos) \<leftarrow> flush_tags_loop tags buf 0 True tag;
     buf \<leftarrow> (if pos = 0 then Some buf
             else if pos + 1 < int MAX_TRACE_LOG_SIZE then store_bytes buf pos [93, 0]
             else store_bytes buf (int MAX_TRACE_LOG_SIZE - 2) [93, 0]);
     Some (ret, buf) }"

text \<open>The line of a span, appended to the log buffer (without moving the offset).\<close>

definition print_span :: "ObTrace \<Rightarrow> addr \<Rightarrow> mem \<Rightarrow> (ObTrace \<times> int) option" where
  "print_span t span buf = do {
     s \<leftarrow> tr_spans t span;
     t \<leftarrow> INIT_SPAN t (sp_source s);
     s \<leftarrow> tr_spans t span;
     parent \<leftarrow> (case sp_source s of
         None \<Rightarrow> Some (tr_root_span_id t)
       | Some p \<Rightarrow> map_option sp_id (tr_spans t p));
     n \<leftarrow> c_strlen buf;
     (log, len) \<leftarrow> snprintf_at (tr_log_buf t) (tr_log_offset t)
       (trace_text (tr_trace_id t) (sp_id s) (sp_start s) (sp_end s) parent (sp_follow s) (take (nat n) buf));
     Some (t\<lparr>tr_log_buf := log\<rparr>, len) }"

text \<open>The span is done with: its tags go back to the free tag list, its node to the free span list.\<close>

definition recycle_span :: "ObTrace \<Rightarrow> addr \<Rightarrow> addr \<Rightarrow> ObTrace option" where
  "recycle_span t span elem = do {
     s \<leftarrow> tr_spans t span;
     t \<leftarrow> reset_tags_loop t (sp_tags s);
     t \<leftarrow> upd_span t span (\<lambda>s. s\<lparr>sp_tags := None\<rparr>);
     release_node t elem }"

text \<open>
  \<^verbatim>\<open>flush_first_span\<close>: the local buffer is not initialised, \<open>junk\<close> is its content.
\<close>

definition flush_first_span :: "mem \<Rightarrow> ObTrace \<Rightarrow> ObTrace option" where
  "flush_first_span junk t =
     (if uuid_unset (tr_trace_id t) then Some t
      else case tr_current t of
        None \<Rightarrow> Some t
      | Some elem \<Rightarrow> do {
          n \<leftarrow> tr_nodes t elem;
          s \<leftarrow> tr_spans t (data n);
          t \<leftarrow> INIT_SPAN t (Some (data n));
          (ret, buf) \<leftarrow> flush_tags (tr_tags t) junk (sp_tags s);
          (ret, t) \<leftarrow> (if ret \<noteq> OB_SUCCESS then Some (ret, t)
            else do {
              (t, len) \<leftarrow> print_span t (data n) buf;
              if int (tr_log_offset t) + len \<ge> int MAX_TRACE_LOG_SIZE then Some (OB_ERROR, t)
              else Some (OB_SUCCESS, t\<lparr>tr_log_offset := tr_log_offset t + nat len\<rparr>) });
          s \<leftarrow> tr_spans t (data n);
          if ret = OB_SUCCESS \<and> sp_end s \<noteq> 0 then recycle_span t (data n) elem else Some t })"

text \<open>
  One round of the loop of \<^verbatim>\<open>flush_trace\<close>.  The line is copied to the show-trace buffer by
  \<^verbatim>\<open>%.*s\<close>; it holds no terminator, so all its bytes are copied.
\<close>

definition flush_log :: "ObTrace \<Rightarrow> addr \<Rightarrow> mem \<Rightarrow> (int \<times> ObTrace) option" where
  "flush_log t span buf = do {
     (t, len) \<leftarrow> print_span t span buf;
     if int (tr_log_offset t) + len \<ge> int MAX_TRACE_LOG_SIZE then Some (OB_ERROR, t)
     else do {
       let t = t\<lparr>tr_log_offset := tr_log_offset t + nat len\<rparr>;
       s \<leftarrow> tr_spans t span;
       if sp_end s \<noteq> 0 then do {
         line \<leftarrow> load_bytes (tr_log_buf t) (int (tr_log_offset t) - len) (nat len);
         (show_buf, show_len) \<leftarrow> snprintf_at (tr_show_buf t) (tr_show_offset t) (line @ [44]);
         let t = t\<lparr>tr_show_buf := show_buf\<rparr>;
         if int (tr_show_offset t) + show_len \<ge> int MAX_TRACE_LOG_SIZE then Some (OB_ERROR, t)
         else Some (OB_SUCCESS, t\<lparr>tr_show_offset := tr_show_offset t + nat show_len\<rparr>) }
       else Some (OB_SUCCESS, t) } }"

definition flush_step :: "ObTrace \<Rightarrow> addr \<Rightarrow> (int \<times> ObTrace) option" where
  "flush_step t elem = do {
     n \<leftarrow> tr_nodes t elem;
     s \<leftarrow> tr_spans t (data n);
     t \<leftarrow> INIT_SPAN t (Some (data n));
     (ret, buf) \<leftarrow> flush_tags (tr_tags t) (replicate MAX_TRACE_LOG_SIZE 0) (sp_tags s);
     (ret, t) \<leftarrow> (if ret \<noteq> OB_SUCCESS then Some (ret, t) else flush_log t (data n) buf);
     s \<leftarrow> tr_spans t (data n);
     t \<leftarrow> (if ret = OB_SUCCESS \<and> sp_end s \<noteq> 0 then recycle_span t (data n) elem else Some t);
     Some (ret, t) }"

partial_function (option) flush_trace_loop :: "ObTrace \<Rightarrow> ObTrace option" where
  "flush_trace_loop t = (case tr_current t of
     None \<Rightarrow> Some t
   | Some elem \<Rightarrow> do {
       (ret, t) \<leftarrow> flush_step t elem;
       if ret \<noteq> OB_SUCCESS then Some t else flush_trace_loop t })"

definition flush_trace :: "ObTrace \<Rightarrow> ObTrace option" where
  "flush_trace t =
     (if uuid_unset (tr_trace_id t) then Some t
      else if tr_current t = None then Some t
      else do {
        t \<leftarrow> flush_trace_loop t;
        Some (t\<lparr>tr_offset := of_nat INIT_OFFSET\<rparr>) })"

subsection \<open>Spans\<close>

definition begin_span :: "ObTrace \<Rightarrow> 32 word \<Rightarrow> 8 word \<Rightarrow> bool \<Rightarrow> (addr option \<times> ObTrace) option" where
  "begin_span t span_type level is_follow =
     (if uuid_unset (tr_trace_id t) then Some (None, t)
      else if level > tr_level t then Some (None, t)
      else do {
        t \<leftarrow> (if tr_free t = None then flush_trace t else Some t);
        (case tr_free t of
           None \<Rightarrow> Some (None, t)
         | Some elem \<Rightarrow> do {
             n \<leftarrow> tr_nodes t elem;
             let t = t\<lparr>tr_seq := tr_seq t + 1\<rparr>;
             let (now, t) = get_current_time_us t;
             t \<leftarrow> upd_span t (data n) (\<lambda>_.
               \<lparr>sp_type = ucast span_type, sp_id = \<lparr>low' = tr_seq t, high' = 0\<rparr>,
                sp_source = tr_last_active t, sp_follow = is_follow, sp_start = now, sp_end = 0,
                sp_tags = None\<rparr>);
             (h, free) \<leftarrow> list_delete (tr_nodes t) (tr_free t) elem;
             (h, cur) \<leftarrow> list_add h (tr_current t) elem;
             Some (Some (data n), t\<lparr>tr_last_active := Some (data n), tr_nodes := h,
               tr_free := free, tr_current := cur\<rparr>) }) })"

text \<open>The end of a span, with the slow-query decision of the record policy.\<close>

definition end_span :: "FLTControlInfo option \<Rightarrow> ObTrace \<Rightarrow> addr option \<Rightarrow> ObTrace option" where
  "end_span flt t span = (case (flt, span) of
     (Some c, Some a) \<Rightarrow> do {
       s \<leftarrow> tr_spans t a;
       if uuid_unset (tr_trace_id t) \<or> uuid_unset (sp_id s) then Some t
       else do {
         let (now, t) = get_current_time_us t;
         t \<leftarrow> upd_span t a (\<lambda>s. s\<lparr>sp_end := now\<rparr>);
         let use_time = now - sp_start s;
         let t = t\<lparr>tr_last_active := sp_source s\<rparr>;
         Some (if (rp' c = record_policy RP_ONLY_SLOW_QUERY \<or> rp' c = record_policy RP_SAMPLE_AND_SLOW_QUERY)
                  \<and> slow_query_threshold' c \<noteq> - 1 \<and> sint (slow_query_threshold' c) \<le> sint use_time
               then t\<lparr>tr_slow_query_print := True\<rparr> else t) } }
   | _ \<Rightarrow> Some t)"

subsection \<open>Identifiers on the wire and as text\<close>

definition serialize_UUID :: "cbuf \<Rightarrow> int \<Rightarrow> int \<Rightarrow> OBCLIENT_UUID \<Rightarrow> (int \<times> cbuf \<times> int) option" where
  "serialize_UUID buf buf_len pos uuid = do {
     (ret, buf, pos) \<leftarrow> encode_i64 buf buf_len pos (high' uuid);
     if ret \<noteq> OB_SUCCESS then Some (ret, buf, pos)
     else encode_i64 buf buf_len pos (low' uuid) }"

definition deserialize_UUID :: "cbuf \<Rightarrow> int \<Rightarrow> int \<Rightarrow> OBCLIENT_UUID \<Rightarrow> (int \<times> OBCLIENT_UUID \<times> int) option" where
  "deserialize_UUID buf buf_len pos uuid = do {
     (ret, h, pos) \<leftarrow> decode_i64 buf buf_len pos (high' uuid);
     if ret \<noteq> OB_SUCCESS then Some (ret, uuid\<lparr>high' := h\<rparr>, pos)
     else do {
       (ret, l, pos) \<leftarrow> decode_i64 buf buf_len pos (low' uuid);
       Some (ret, uuid\<lparr>high' := h, low' := l\<rparr>, pos) } }"

text \<open>\<^verbatim>\<open>tostring_OBCLIENT_UUID\<close> writes the digits one by one, most significant first.\<close>

definition uuid_digits :: "64 word \<Rightarrow> nat list \<Rightarrow> mem" where
  "uuid_digits w ks = map (\<lambda>k. hex_digit (drop_bit k w)) ks"

definition tostring_OBCLIENT_UUID :: "mem \<Rightarrow> int \<Rightarrow> int \<Rightarrow> OBCLIENT_UUID \<Rightarrow> (int \<times> mem \<times> int) option" where
  "tostring_OBCLIENT_UUID buf buf_len pos src =
     (if pos + 37 > buf_len then Some (OB_ERROR, buf, pos)
      else do {
        buf \<leftarrow> store_bytes buf pos
          (uuid_digits (high' src) [60, 56, 52, 48, 44, 40, 36, 32] @ [45]
           @ uuid_digits (high' src) [28, 24, 20, 16] @ [45]
           @ uuid_digits (high' src) [12, 8, 4, 0] @ [45]
           @ uuid_digits (low' src) [60, 56, 52, 48] @ [45]
           @ uuid_digits (low' src) [44, 40, 36, 32, 28, 24, 20, 16, 12, 8, 4, 0] @ [0]);
        Some (OB_SUCCESS, buf, pos + 36) })"

subsection \<open>Layout of the block\<close>

lemma trace_layout:
  "TAG_BUFFER_BEGIN = 2 * MAX_TRACE_LOG_SIZE + MAX_FLT_SERIALIZE_SIZE"
  "SPAN_BUFFER_BEGIN = TAG_BUFFER_BEGIN + TAG_CACHE_COUNT * sizeof_ObTagCtx"
  "INIT_OFFSET = SPAN_BUFFER_BEGIN + SPAN_CACHE_COUNT * (sizeof_LIST + sizeof_ObSpanCtx)"
  "sizeof_ObTrace + INIT_OFFSET \<le> OBTRACE_DEFAULT_BUFFER_SIZE"
  by (simp_all add: TAG_BUFFER_BEGIN_def SPAN_BUFFER_BEGIN_def INIT_OFFSET_def)

subsection \<open>Printing stays inside the buffer\<close>

lemma store_byte_ok: "0 \<le> a \<Longrightarrow> a < int (length m) \<Longrightarrow> \<exists>m'. store_byte m a b = Some m' \<and> length m' = length m"
  by (simp add: store_byte_def)

lemma store_bytes_ok:
  "0 \<le> a \<Longrightarrow> a + int (length bs) \<le> int (length m) \<Longrightarrow> \<exists>m'. store_bytes m a bs = Some m' \<and> length m' = length m"
  by (simp add: store_bytes_def)

lemma put_chars_ok:
  "0 \<le> pos \<Longrightarrow> pos \<le> int (length buf) \<Longrightarrow> ret \<in> {OB_SUCCESS, OB_ERROR} \<Longrightarrow>
   \<exists>buf' pos' ret'. put_chars buf (int (length buf)) pos cs ret = Some (buf', pos', ret')
     \<and> length buf' = length buf \<and> pos \<le> pos' \<and> pos' \<le> int (length buf) \<and> ret' \<in> {OB_SUCCESS, OB_ERROR}"
proof (induction cs arbitrary: buf pos ret)
  case (Cons c cs)
  show ?case
  proof (cases "pos < int (length buf)")
    case True
    with store_byte_ok [of pos buf c] Cons.prems obtain b1
      where b1: "store_byte buf pos c = Some b1" "length b1 = length buf" by blast
    with Cons.IH [of "pos + 1" b1 ret] True Cons.prems show ?thesis by fastforce
  next
    case False
    with Cons.IH [of pos buf OB_ERROR] Cons.prems show ?thesis by simp
  qed
qed auto

lemma tag_value_loop_ok:
  "0 \<in> set cs \<Longrightarrow> 0 \<le> pos \<Longrightarrow> pos \<le> int (length buf) \<Longrightarrow> ret \<in> {OB_SUCCESS, OB_ERROR} \<Longrightarrow>
   \<exists>buf' pos' ret'. tag_value_loop buf (int (length buf)) pos cs first conv ret = Some (buf', pos', ret')
     \<and> length buf' = length buf \<and> pos \<le> pos' \<and> pos' \<le> int (length buf) \<and> ret' \<in> {OB_SUCCESS, OB_ERROR}"
proof (induction cs arbitrary: buf pos first conv ret)
  case (Cons c cs)
  show ?case
  proof (cases "c = 0")
    case False
    with Cons.prems(1) have nul: "0 \<in> set cs" by simp
    then obtain d ds where cs: "cs = d # ds" by (cases cs) auto
    let ?next = "if first then 0 else d"
    have nx: "(if first then Some 0 else case cs of [] \<Rightarrow> None | d # _ \<Rightarrow> Some d) = Some ?next"
      by (simp add: cs)
    define e where "e = (if \<not> first \<and> ?next \<noteq> 0 then escape c else None)"
    obtain b1 p1 r1 conv1 where s1:
      "(case e of None \<Rightarrow> Some (buf, pos, ret, conv)
        | Some e \<Rightarrow> do { (buf, pos, ret) \<leftarrow> put_chars buf (int (length buf)) pos e ret; Some (buf, pos, ret, True) })
        = Some (b1, p1, r1, conv1)"
      "length b1 = length buf" "pos \<le> p1" "p1 \<le> int (length buf)" "r1 \<in> {OB_SUCCESS, OB_ERROR}"
    proof (cases e)
      case None
      then show thesis using Cons.prems by (intro that [of buf pos ret conv]) simp_all
    next
      case (Some x)
      from put_chars_ok [OF Cons.prems(2-4), of x] obtain b1 p1 r1 where
        "put_chars buf (int (length buf)) pos x ret = Some (b1, p1, r1)" "length b1 = length buf"
        "pos \<le> p1" "p1 \<le> int (length buf)" "r1 \<in> {OB_SUCCESS, OB_ERROR}" by blast
      then show thesis using Some by (intro that [of b1 p1 r1 True]) simp_all
    qed
    obtain b2 p2 where s2:
      "(if \<not> conv1 \<and> p1 < int (length buf) then do { buf \<leftarrow> store_byte b1 p1 c; Some (buf, p1 + 1) }
        else Some (b1, p1)) = Some (b2, p2)" "length b2 = length buf" "p1 \<le> p2" "p2 \<le> int (length buf)"
    proof (cases "\<not> conv1 \<and> p1 < int (length buf)")
      case True
      with store_byte_ok [of p1 b1 c] s1 Cons.prems(2) obtain b2 where
        "store_byte b1 p1 c = Some b2" "length b2 = length b1" by auto
      then show thesis using True s1 by (intro that [of b2 "p1 + 1"]) simp_all
    next
      case False
      then show thesis using s1 by (intro that [of b1 p1]) auto
    qed
    have "tag_value_loop buf (int (length buf)) pos (c # cs) first conv ret
        = tag_value_loop b2 (int (length b2)) p2 cs False conv1 r1"
      using False s1(1) s2(1,2) nx by (simp add: e_def [symmetric])
    with Cons.IH [OF nul, of p2 b2 r1 False conv1] s1 s2 Cons.prems(2) show ?thesis by fastforce
  qed (use Cons.prems in simp)
qed simp

definition tag_ok :: "ObTagCtx \<Rightarrow> bool" where
  "tag_ok g \<longleftrightarrow> tag_type g < 2 \<and> (case tag_data g of None \<Rightarrow> False | Some v \<Rightarrow> 0 \<in> set v)"

lemma tag_str_ok: "type < 2 \<Longrightarrow> \<exists>name. tag_str type = Some name \<and> length name \<le> 12"
proof -
  assume "type < 2"
  then have "unat type = 0 \<or> unat type = 1" by (simp add: word_less_nat_alt less_2_cases_iff)
  then have "type = 0 \<or> type = 1" by (simp add: word_unat_eq_iff)
  then show ?thesis by (auto simp: tag_str_def str_def)
qed

lemma tostring_tag_ok:
  assumes "tag_ok g" and "0 \<le> pos" and "pos \<le> int (length buf)" and "0 < length buf"
  shows "\<exists>ret buf' pos'. tostring_ObTagCtx buf (int (length buf)) pos g = Some (ret, buf', pos')
     \<and> length buf' = length buf \<and> pos \<le> pos' \<and> pos' \<le> int (length buf) \<and> ret \<in> {OB_SUCCESS, OB_ERROR}"
proof -
  obtain v where v: "tag_data g = Some v" "0 \<in> set v" and ty: "tag_type g < 2"
    using assms(1) by (auto simp: tag_ok_def split: option.splits)
  from tag_str_ok [OF ty] obtain name where name: "tag_str (tag_type g) = Some name" "length name \<le> 12" by blast
  let ?l = "int (length name)" and ?n = "int (length buf)"
  obtain b1 p1 r1 where s1: "(if pos + ?l + 7 \<ge> ?n then do { buf \<leftarrow> store_byte buf (?n - 1) 0; Some (buf, pos, OB_ERROR) }
        else do {
          buf \<leftarrow> store_bytes buf pos ([123, 34] @ name @ [34, 58, 0]);
          value \<leftarrow> tag_data g;
          tag_value_loop buf ?n (pos + ?l + 4) value True False OB_SUCCESS }) = Some (b1, p1, r1)"
    "length b1 = length buf" "pos \<le> p1" "p1 \<le> ?n" "r1 \<in> {OB_SUCCESS, OB_ERROR}"
  proof (cases "pos + ?l + 7 \<ge> ?n")
    case True
    from store_byte_ok [of "?n - 1" buf 0] assms(4) obtain b1 where
      "store_byte buf (?n - 1) 0 = Some b1" "length b1 = length buf" by auto
    then show thesis using True assms by (intro that [of b1 pos OB_ERROR]) simp_all
  next
    case False
    from store_bytes_ok [of pos "[123, 34] @ name @ [34, 58, 0]" buf] False assms(2) obtain b0 where
      b0: "store_bytes buf pos ([123, 34] @ name @ [34, 58, 0]) = Some b0" "length b0 = length buf" by auto
    from tag_value_loop_ok [OF v(2), of "pos + ?l + 4" b0 OB_SUCCESS True False] b0 False assms(2)
    obtain b1 p1 r1 where "tag_value_loop b0 ?n (pos + ?l + 4) v True False OB_SUCCESS = Some (b1, p1, r1)"
      "length b1 = length buf" "pos + ?l + 4 \<le> p1" "p1 \<le> ?n" "r1 \<in> {OB_SUCCESS, OB_ERROR}" by auto
    then show thesis using False b0 v by (intro that [of b1 p1 r1]) simp_all
  qed
  obtain b2 p2 where s2: "(if r1 \<noteq> OB_SUCCESS \<or> p1 + 1 \<ge> ?n
        then do { buf \<leftarrow> store_byte b1 (?n - 1) 0; Some (buf, p1) }
        else do { buf \<leftarrow> store_bytes b1 p1 [125, 0]; Some (buf, p1 + 1) }) = Some (b2, p2)"
    "length b2 = length buf" "p1 \<le> p2" "p2 \<le> ?n"
  proof (cases "r1 \<noteq> OB_SUCCESS \<or> p1 + 1 \<ge> ?n")
    case True
    from store_byte_ok [of "?n - 1" b1 0] assms(4) s1 obtain b2 where
      "store_byte b1 (?n - 1) 0 = Some b2" "length b2 = length b1" by auto
    then show thesis using True s1 by (intro that [of b2 p1]) simp_all
  next
    case False
    from store_bytes_ok [of p1 "[125, 0]" b1] False s1 assms(2) obtain b2 where
      "store_bytes b1 p1 [125, 0] = Some b2" "length b2 = length b1" by auto
    then show thesis using False s1 by (intro that [of b2 "p1 + 1"]) simp_all
  qed
  have "tostring_ObTagCtx buf ?n pos g = Some (r1, b2, if r1 = OB_SUCCESS then p2 else pos)"
    using name s1(1) s2(1) by (simp add: tostring_ObTagCtx_def Let_def)
  then show ?thesis using s1 s2 assms by auto
qed

text \<open>The tags on a list, in order.\<close>

fun tag_chain :: "(addr \<rightharpoonup> ObTagCtx) \<Rightarrow> addr option \<Rightarrow> addr list \<Rightarrow> bool" where
  "tag_chain tags p [] \<longleftrightarrow> p = None"
| "tag_chain tags p (a # as) \<longleftrightarrow>
     p = Some a \<and> (case tags a of None \<Rightarrow> False | Some g \<Rightarrow> tag_chain tags (tag_next g) as)"

lemma tag_chain_upd [simp]: "a \<notin> set as \<Longrightarrow> tag_chain (tags(a := v)) p as \<longleftrightarrow> tag_chain tags p as"
  by (induction as arbitrary: p) (auto split: option.splits)

lemma tag_chain_cong:
  "(\<And>a. a \<in> set as \<Longrightarrow> tags a = tags' a) \<Longrightarrow> tag_chain tags p as \<longleftrightarrow> tag_chain tags' p as"
  by (induction as arbitrary: p) (auto split: option.splits)

definition tags_printable :: "(addr \<rightharpoonup> ObTagCtx) \<Rightarrow> addr list \<Rightarrow> bool" where
  "tags_printable tags as \<longleftrightarrow> (\<forall>a\<in>set as. case tags a of None \<Rightarrow> False | Some g \<Rightarrow> tag_ok g)"

lemma flush_tags_loop_ok:
  assumes "tag_chain tags tag as" and "tags_printable tags as" and "0 \<le> pos" and "pos \<le> 1024" and "length buf = 1024"
  shows "\<exists>ret buf' pos'. flush_tags_loop tags buf pos first tag = Some (ret, buf', pos')
     \<and> length buf' = 1024 \<and> pos \<le> pos' \<and> pos' \<le> 1024 \<and> ret \<in> {OB_SUCCESS, OB_ERROR}
     \<and> (as = [] \<longrightarrow> buf' = buf \<and> pos' = pos) \<and> (as \<noteq> [] \<and> ret = OB_SUCCESS \<longrightarrow> pos < pos')"
  using assms
proof (induction as arbitrary: tag pos buf first)
  case Nil
  then show ?case by (simp add: flush_tags_loop.simps)
next
  case (Cons a as)
  from Cons.prems(1,2) obtain g where g: "tag = Some a" "tags a = Some g" "tag_chain tags (tag_next g) as"
    "tag_ok g" "tags_printable tags as" by (auto simp: tags_printable_def split: option.splits)
  show ?case
  proof (cases "pos + 10 \<ge> 1024")
    case True
    then show ?thesis using g(1) Cons.prems by (auto simp: flush_tags_loop.simps [of tags buf pos first "Some a"])
  next
    case False
    obtain b1 where b1: "store_byte buf pos 44 = Some b1" "length b1 = 1024"
      using store_byte_ok [of pos buf 44] False Cons.prems by auto
    obtain b2 p2 where b2: "(if first then do {
             buf \<leftarrow> store_bytes b1 (pos + 1) (quoted ''tags'' @ [58, 91, 0]); Some (buf, pos + 9) }
           else Some (b1, pos + 1)) = Some (b2, p2)" "length b2 = 1024" "pos < p2" "p2 \<le> 1024"
    proof (cases first)
      case True
      obtain b2 where "store_bytes b1 (pos + 1) (quoted ''tags'' @ [58, 91, 0]) = Some b2" "length b2 = 1024"
        using store_bytes_ok [of "pos + 1" "quoted ''tags'' @ [58, 91, 0]" b1] False b1 Cons.prems(3)
        by (auto simp: quoted_def str_def)
      then show thesis using True False Cons.prems by (intro that [of b2 "pos + 9"]) simp_all
    qed (use b1 False Cons.prems that in auto)
    obtain r3 b3 p3 where b3: "tostring_ObTagCtx b2 1024 p2 g = Some (r3, b3, p3)" "length b3 = 1024"
      "p2 \<le> p3" "p3 \<le> 1024" "r3 \<in> {OB_SUCCESS, OB_ERROR}"
      using tostring_tag_ok [OF g(4), of p2 b2] b2 Cons.prems(3) by auto
    obtain r4 b4 p4 where b4: "flush_tags_loop tags b3 p3 False (tag_next g) = Some (r4, b4, p4)"
      "length b4 = 1024" "p3 \<le> p4" "p4 \<le> 1024" "r4 \<in> {OB_SUCCESS, OB_ERROR}"
      using Cons.IH [OF g(3) g(5), of p3 b3 False] b2 b3 Cons.prems(3) by auto
    have "flush_tags_loop tags buf pos first tag =
        (if r3 \<noteq> OB_SUCCESS then Some (r3, b3, p3) else Some (r4, b4, p4))"
      using g b1 b2 b3 b4 False by (subst flush_tags_loop.simps) simp
    then show ?thesis using b2 b3 b4 Cons.prems by auto
  qed
qed

lemma store_bytes_nul:
  "store_bytes m a (bs @ [0]) = Some m' \<Longrightarrow> 0 \<in> set m'"
  by (auto simp: store_bytes_def put_def split: if_splits)

lemma flush_tags_ok:
  assumes "tag_chain tags tag as" and "tags_printable tags as" and "length buf = 1024"
    and "as = [] \<Longrightarrow> 0 \<in> set buf"
  shows "\<exists>ret buf'. flush_tags tags buf tag = Some (ret, buf') \<and> ret \<in> {OB_SUCCESS, OB_ERROR}
     \<and> (ret = OB_SUCCESS \<longrightarrow> 0 \<in> set buf')"
proof -
  obtain r b p where l: "flush_tags_loop tags buf 0 True tag = Some (r, b, p)" "length b = 1024"
    "0 \<le> p" "p \<le> 1024" "r \<in> {OB_SUCCESS, OB_ERROR}" "as = [] \<longrightarrow> b = buf \<and> p = 0"
    "as \<noteq> [] \<and> r = OB_SUCCESS \<longrightarrow> 0 < p"
    using flush_tags_loop_ok [OF assms(1,2), of 0 buf True] assms(3) by auto
  consider "p = 0" | "0 < p" "p + 1 < 1024" | "p + 1 \<ge> 1024" using l(3) by linarith
  then show ?thesis
  proof cases
    case 1
    then show ?thesis using l assms(4) by (auto simp: flush_tags_def)
  next
    case 2
    then obtain b' where "store_bytes b p ([93] @ [0]) = Some b'"
      using store_bytes_ok [of p "[93] @ [0]" b] l by auto
    with 2 l show ?thesis using store_bytes_nul [of b p "[93]" b'] by (auto simp: flush_tags_def)
  next
    case 3
    then obtain b' where "store_bytes b 1022 ([93] @ [0]) = Some b'"
      using store_bytes_ok [of 1022 "[93] @ [0]" b] l by auto
    with 3 l show ?thesis using store_bytes_nul [of b 1022 "[93]" b'] by (auto simp: flush_tags_def)
  qed
qed

subsection \<open>The invariant of a trace\<close>

text \<open>
  \<open>pools t cs fs\<close>: the current list is \<open>cs\<close>, the free list is \<open>fs\<close>, together they are the four
  nodes, and node \<open>a\<close> carries span \<open>a\<close>.
\<close>

definition pools :: "ObTrace \<Rightarrow> addr list \<Rightarrow> addr list \<Rightarrow> bool" where
  "pools t cs fs \<longleftrightarrow> is_list (tr_nodes t) (tr_current t) cs \<and> is_list (tr_nodes t) (tr_free t) fs
     \<and> set cs \<inter> set fs = {} \<and> set cs \<union> set fs = {..<4}
     \<and> (\<forall>a<4. map_option data (tr_nodes t a) = Some a)
     \<and> dom (tr_spans t) = {..<4}"

definition tag_pools :: "ObTrace \<Rightarrow> addr list \<Rightarrow> (addr \<Rightarrow> addr list) \<Rightarrow> addr list \<Rightarrow> bool" where
  "tag_pools t cs T F \<longleftrightarrow> tag_chain (tr_tags t) (tr_free_tags t) F \<and> distinct F
     \<and> (\<forall>a\<in>set cs. tag_chain (tr_tags t) (sp_tags (the (tr_spans t a))) (T a)
           \<and> tags_printable (tr_tags t) (T a) \<and> distinct (T a) \<and> set (T a) \<inter> set F = {})
     \<and> (\<forall>a\<in>set cs. \<forall>b\<in>set cs. a \<noteq> b \<longrightarrow> set (T a) \<inter> set (T b) = {})"

definition buffers_ok :: "ObTrace \<Rightarrow> bool" where
  "buffers_ok t \<longleftrightarrow> length (tr_log_buf t) = 1024 \<and> length (tr_show_buf t) = 1024
     \<and> length (tr_serialize_buf t) = 2048
     \<and> tr_log_offset t < 1024 \<and> 0 < tr_show_offset t \<and> tr_show_offset t < 1024"

definition sources_ok :: "ObTrace \<Rightarrow> bool" where
  "sources_ok t \<longleftrightarrow> (\<forall>a s p. tr_spans t a = Some s \<and> sp_source s = Some p \<longrightarrow> p < 4)
     \<and> (\<forall>p. tr_last_active t = Some p \<longrightarrow> p < 4)"

definition trace_ok :: "ObTrace \<Rightarrow> addr list \<Rightarrow> addr list \<Rightarrow> (addr \<Rightarrow> addr list) \<Rightarrow> addr list \<Rightarrow> bool" where
  "trace_ok t cs fs T F \<longleftrightarrow> pools t cs fs \<and> tag_pools t cs T F \<and> buffers_ok t \<and> sources_ok t"

definition trace_inv :: "ObTrace \<Rightarrow> bool" where
  "trace_inv t \<longleftrightarrow> (\<exists>cs fs T F. trace_ok t cs fs T F)"

subsection \<open>Moving a node between the lists\<close>

lemma data_of_frame:
  assumes "data_of h' zs = data_of h zs" and "\<And>a. a \<notin> set zs \<Longrightarrow> h' a = h a"
  shows "data_of h' as = data_of h as"
proof -
  have "map_option data (h' a) = map_option data (h a)" for a
  proof (cases "a \<in> set zs")
    case True
    then show ?thesis using assms(1) by (simp add: data_of_def)
  qed (simp add: assms(2))
  then show ?thesis by (simp add: data_of_def)
qed

lemma is_list_frame:
  assumes "is_list h r xs" and "\<And>a. a \<in> set xs \<Longrightarrow> h' a = h a"
  shows "is_list h' r xs"
  using assms links_cong [of xs h h'] by (simp add: is_list_def)

lemma move_head:
  assumes "is_list h r (a # xs)" and "is_list h q ys" and "set (a # xs) \<inter> set ys = {}"
  obtains h1 h2 where "list_delete h r a = Some (h1, hd_or xs None)" and "list_add h1 q a = Some (h2, Some a)"
    and "is_list h2 (hd_or xs None) xs" and "is_list h2 (Some a) (a # ys)"
    and "\<And>b. map_option data (h2 b) = map_option data (h b)"
proof -
  from assms(1) have a: "a \<notin> set xs" and "links h None (a # xs) None" by (simp_all add: is_list_def)
  then obtain n where n: "h a = Some n" by (auto split: option.splits)
  obtain h1 where h1: "list_delete h r a = Some (h1, hd_or xs None)" "is_list h1 (hd_or xs None) xs"
    "\<And>as. data_of h1 as = data_of h as" "\<And>b. b \<notin> set xs \<Longrightarrow> h1 b = h b"
    using list_delete_seq [of h r "[]" a xs] assms(1) by (metis append_Nil)
  have q1: "is_list h1 q ys" using assms(2,3) h1(4) by (intro is_list_frame [OF assms(2)]) auto
  have "h1 a = Some n" "a \<notin> set ys" using h1(4) a n assms(3) by auto
  then obtain h2 where h2: "list_add h1 q a = Some (h2, Some a)" "is_list h2 (Some a) (a # ys)"
    "data_of h2 (a # ys) = data_of h1 (a # ys)" "\<And>b. b \<notin> set (a # ys) \<Longrightarrow> h2 b = h1 b"
    using list_add_front [OF q1, of a n] by metis
  have "is_list h2 (hd_or xs None) xs"
  proof (rule is_list_frame [OF h1(2)])
    fix b
    assume "b \<in> set xs"
    then have "b \<notin> set (a # ys)" using a assms(3) by auto
    then show "h2 b = h1 b" by (rule h2(4))
  qed
  moreover have "data_of h2 [b] = data_of h [b]" for b
    using data_of_frame [OF h2(3,4)] h1(3) by simp
  then have "map_option data (h2 b) = map_option data (h b)" for b by (simp add: data_of_def)
  ultimately show thesis using that h1 h2 by blast
qed

lemma pools_head:
  assumes "pools t (a # cs) fs"
  shows "tr_current t = Some a" and "\<exists>n. tr_nodes t a = Some n \<and> data n = a" and "a < 4"
proof -
  from assms show "tr_current t = Some a" by (simp add: pools_def is_list_def)
  from assms show a: "a < 4" by (auto simp: pools_def)
  with assms have "map_option data (tr_nodes t a) = Some a" by (simp add: pools_def)
  then show "\<exists>n. tr_nodes t a = Some n \<and> data n = a" by auto
qed

lemma release_node_pools:
  assumes "pools t (a # cs) fs"
  obtains h where "release_node t a = Some (t\<lparr>tr_nodes := h, tr_current := hd_or cs None, tr_free := Some a\<rparr>)"
    and "pools (t\<lparr>tr_nodes := h, tr_current := hd_or cs None, tr_free := Some a\<rparr>) cs (a # fs)"
proof -
  from assms have l: "is_list (tr_nodes t) (tr_current t) (a # cs)" "is_list (tr_nodes t) (tr_free t) fs"
    "set (a # cs) \<inter> set fs = {}" by (simp_all add: pools_def)
  from move_head [OF this] obtain h1 h2 where h:
    "list_delete (tr_nodes t) (tr_current t) a = Some (h1, hd_or cs None)" "list_add h1 (tr_free t) a = Some (h2, Some a)"
    "is_list h2 (hd_or cs None) cs" "is_list h2 (Some a) (a # fs)" "\<And>b. map_option data (h2 b) = map_option data (tr_nodes t b)"
    by metis
  have "a \<notin> set cs" using l(1) by (simp add: is_list_def)
  then have "pools (t\<lparr>tr_nodes := h2, tr_current := hd_or cs None, tr_free := Some a\<rparr>) cs (a # fs)"
    using assms h by (auto simp: pools_def)
  then show thesis using h(1,2) by (intro that [of h2]) (simp_all add: release_node_def)
qed

subsection \<open>What a step may change\<close>

text \<open>
  Changes that keep the lists of spans and tags: identifiers, random state, clock, text in the
  buffers.  \<open>trace_ok\<close> depends on the rest only.
\<close>

definition span_core :: "ObSpanCtx \<Rightarrow> addr option \<times> addr option \<times> 64 word \<times> 64 word" where
  "span_core s = (sp_tags s, sp_source s, sp_start s, sp_end s)"

definition same_lists :: "ObTrace \<Rightarrow> ObTrace \<Rightarrow> bool" where
  "same_lists t t' \<longleftrightarrow> tr_nodes t' = tr_nodes t \<and> tr_current t' = tr_current t \<and> tr_free t' = tr_free t
     \<and> tr_last_active t' = tr_last_active t \<and> tr_tags t' = tr_tags t \<and> tr_free_tags t' = tr_free_tags t
     \<and> (\<forall>a. map_option span_core (tr_spans t' a) = map_option span_core (tr_spans t a))"

lemma same_lists_refl [simp]: "same_lists t t"
  by (simp add: same_lists_def)

lemma same_lists_trans: "same_lists t t' \<Longrightarrow> same_lists t' t'' \<Longrightarrow> same_lists t t''"
  by (simp add: same_lists_def)

lemma same_lists_span:
  assumes "same_lists t t'" and "tr_spans t a = Some s"
  obtains s' where "tr_spans t' a = Some s'" and "sp_tags s' = sp_tags s" and "sp_source s' = sp_source s"
    and "sp_end s' = sp_end s" and "sp_start s' = sp_start s"
proof -
  have "map_option span_core (tr_spans t' a) = Some (span_core s)"
    using assms by (simp add: same_lists_def)
  then obtain s' where "tr_spans t' a = Some s'" "span_core s' = span_core s" by auto
  then show thesis by (intro that [of s']) (simp_all add: span_core_def)
qed

lemma same_lists_dom: "same_lists t t' \<Longrightarrow> dom (tr_spans t') = dom (tr_spans t)"
proof -
  assume "same_lists t t'"
  then have "map_option span_core (tr_spans t' a) = None \<longleftrightarrow> map_option span_core (tr_spans t a) = None" for a
    by (simp add: same_lists_def)
  then show ?thesis by (auto simp: dom_def)
qed

lemma same_lists_sources:
  assumes "same_lists t t'" and "sources_ok t"
  shows "sources_ok t'"
  unfolding sources_ok_def
proof (intro conjI allI impI)
  fix a s p
  assume s: "tr_spans t' a = Some s \<and> sp_source s = Some p"
  then obtain s0 where s0: "tr_spans t a = Some s0" using same_lists_dom [OF assms(1)] by (metis domD domI)
  obtain s' where "tr_spans t' a = Some s'" "sp_source s' = sp_source s0"
    using assms(1) s0 by (rule same_lists_span)
  with s have "sp_source s0 = Some p" by simp
  then show "p < 4" using assms(2) s0 by (auto simp: sources_ok_def)
next
  fix p
  assume "tr_last_active t' = Some p"
  then show "p < 4" using assms by (simp add: same_lists_def sources_ok_def)
qed

lemma same_lists_tags:
  assumes "same_lists t t'" and "tag_pools t cs T F" and "set cs \<subseteq> dom (tr_spans t)"
  shows "tag_pools t' cs T F"
proof -
  have "sp_tags (the (tr_spans t' a)) = sp_tags (the (tr_spans t a))" if "a \<in> set cs" for a
  proof -
    from that assms(3) obtain s where "tr_spans t a = Some s" by auto
    moreover obtain s' where "tr_spans t' a = Some s'" "sp_tags s' = sp_tags s"
      using assms(1) calculation by (rule same_lists_span)
    ultimately show ?thesis by simp
  qed
  then show ?thesis using assms(1,2) by (simp add: tag_pools_def same_lists_def)
qed

lemma trace_ok_same:
  assumes "trace_ok t cs fs T F" and "same_lists t t'" and "buffers_ok t'"
  shows "trace_ok t' cs fs T F"
proof -
  have "set cs \<subseteq> dom (tr_spans t)" using assms(1) by (auto simp: trace_ok_def pools_def)
  then show ?thesis
    using assms same_lists_tags [OF assms(2)] same_lists_sources [OF assms(2)] same_lists_dom [OF assms(2)]
    by (simp add: trace_ok_def pools_def same_lists_def)
qed

lemma INIT_SPAN_ok:
  assumes "\<And>a. p = Some a \<Longrightarrow> a \<in> dom (tr_spans t)"
  obtains t' where "INIT_SPAN t p = Some t'" and "same_lists t t'"
    and "tr_log_buf t' = tr_log_buf t" and "tr_log_offset t' = tr_log_offset t"
    and "tr_show_buf t' = tr_show_buf t" and "tr_show_offset t' = tr_show_offset t"
    and "tr_serialize_buf t' = tr_serialize_buf t" and "tr_trace_id t' = tr_trace_id t"
proof (cases p)
  case None
  then show thesis by (intro that [of t]) (simp_all add: INIT_SPAN_def)
next
  case (Some a)
  with assms obtain s where s: "tr_spans t a = Some s" by blast
  show thesis
  proof (cases "high' (sp_id s) = 0")
    case False
    then show thesis using Some s by (intro that [of t]) (simp_all add: INIT_SPAN_def)
  next
    case True
    obtain w seed where x: "xorshift128plus (tr_seed t) = (w, seed)" by (cases "xorshift128plus (tr_seed t)")
    let ?t = "t\<lparr>tr_seed := seed, tr_spans := (tr_spans t)(a \<mapsto> s\<lparr>sp_id := \<lparr>low' = w, high' = sp_start s\<rparr>\<rparr>)\<rparr>"
    have "INIT_SPAN t p = Some ?t" using Some s True x by (simp add: INIT_SPAN_def upd_span_def)
    moreover have "same_lists t ?t" using s by (simp add: same_lists_def span_core_def)
    ultimately show thesis by (intro that [of ?t]) simp_all
  qed
qed

subsection \<open>Printing a span\<close>

lemma snprintf_at_ok:
  assumes "off < 1024" and "length buf = 1024"
  obtains buf' where "snprintf_at buf off text = Some (buf', int (length text))" and "length buf' = 1024"
proof -
  have sz: "uint (word_of_int (1024 - int off) :: 64 word) = 1024 - int off"
    using assms(1) by (subst unsigned_of_int) (simp add: take_bit_int_eq_self)
  let ?bs = "take (nat (1024 - int off - 1)) text @ [0]"
  have len: "int off + int (length ?bs) \<le> int (length buf)"
  proof -
    have "length ?bs \<le> nat (1024 - int off - 1) + 1" by simp
    then show ?thesis using assms by linarith
  qed
  from store_bytes_ok [of "int off" ?bs buf] len obtain b where
    b: "store_bytes buf (int off) ?bs = Some b" "length b = length buf" by auto
  have "snprintf_at buf off text = Some (b, int (length text))"
    unfolding snprintf_at_def Let_def using sz b(1) assms(1) by simp
  then show thesis using b(2) assms(2) by (intro that) simp_all
qed

lemma trace_text_nonempty: "0 < length (trace_text a b c d e f g)"
  by (simp add: trace_text_def str_def)

lemma print_span_ok:
  assumes "pools t cs fs" and "buffers_ok t" and "sources_ok t" and "a < 4" and "0 \<in> set buf"
  obtains t' len where "print_span t a buf = Some (t', len)" and "0 < len"
    and "same_lists t t'" and "buffers_ok t'" and "tr_log_offset t' = tr_log_offset t"
    and "tr_show_offset t' = tr_show_offset t" and "tr_trace_id t' = tr_trace_id t"
proof -
  have dom: "dom (tr_spans t) = {..<4}" using assms(1) by (simp add: pools_def)
  with assms(4) obtain s where s: "tr_spans t a = Some s" by (metis domD lessThan_iff)
  have src: "p \<in> dom (tr_spans t)" if "sp_source s = Some p" for p
    using that s assms(3) dom by (auto simp: sources_ok_def)
  obtain t1 where t1: "INIT_SPAN t (sp_source s) = Some t1" "same_lists t t1"
    "tr_log_buf t1 = tr_log_buf t" "tr_log_offset t1 = tr_log_offset t"
    "tr_show_buf t1 = tr_show_buf t" "tr_show_offset t1 = tr_show_offset t"
    "tr_serialize_buf t1 = tr_serialize_buf t" "tr_trace_id t1 = tr_trace_id t"
    using INIT_SPAN_ok [of "sp_source s" t] src by metis
  obtain s1 where s1: "tr_spans t1 a = Some s1" "sp_source s1 = sp_source s"
    using t1(2) s by (rule same_lists_span)
  have "\<exists>u. (case sp_source s1 of None \<Rightarrow> Some (tr_root_span_id t1) | Some p \<Rightarrow> map_option sp_id (tr_spans t1 p)) = Some u"
  proof (cases "sp_source s1")
    case (Some p)
    then have "p \<in> dom (tr_spans t1)" using src s1(2) same_lists_dom [OF t1(2)] by simp
    then show ?thesis using Some by auto
  qed simp
  then obtain u where u: "(case sp_source s1 of None \<Rightarrow> Some (tr_root_span_id t1)
      | Some p \<Rightarrow> map_option sp_id (tr_spans t1 p)) = Some u" by blast
  define out where "out = trace_text (tr_trace_id t1) (sp_id s1) (sp_start s1) (sp_end s1) u (sp_follow s1)
      (take (length (cstr buf)) buf)"
  obtain b where b: "snprintf_at (tr_log_buf t1) (tr_log_offset t1) out = Some (b, int (length out))" "length b = 1024"
    by (rule snprintf_at_ok [of "tr_log_offset t1" "tr_log_buf t1" out]) (use assms(2) t1 in \<open>simp_all add: buffers_ok_def\<close>)
  have "print_span t a buf = Some (t1\<lparr>tr_log_buf := b\<rparr>, int (length out))"
    using s t1(1) s1(1) u b(1) assms(5) by (simp add: print_span_def c_strlen_eq out_def)
  moreover have "same_lists t (t1\<lparr>tr_log_buf := b\<rparr>)" using t1(2) by (simp add: same_lists_def)
  moreover have "buffers_ok (t1\<lparr>tr_log_buf := b\<rparr>)" using assms(2) t1 b(2) by (simp add: buffers_ok_def)
  moreover have "0 < int (length out)" using trace_text_nonempty by (simp add: out_def)
  ultimately show thesis using t1 by (intro that [of "t1\<lparr>tr_log_buf := b\<rparr>" "int (length out)"]) simp_all
qed

lemma flush_log_ok:
  assumes "pools t cs fs" and "buffers_ok t" and "sources_ok t" and "a < 4" and "0 \<in> set buf"
  obtains ret t' where "flush_log t a buf = Some (ret, t')" and "ret \<in> {OB_SUCCESS, OB_ERROR}"
    and "same_lists t t'" and "buffers_ok t'" and "tr_trace_id t' = tr_trace_id t"
    and "ret = OB_SUCCESS \<longrightarrow> tr_log_offset t < tr_log_offset t'"
proof -
  obtain t1 len where t1: "print_span t a buf = Some (t1, len)" "0 < len" "same_lists t t1" "buffers_ok t1"
    "tr_log_offset t1 = tr_log_offset t" "tr_trace_id t1 = tr_trace_id t"
    using assms by (rule print_span_ok)
  show thesis
  proof (cases "int (tr_log_offset t1) + len \<ge> 1024")
    case True
    then show thesis using t1 by (intro that [of OB_ERROR t1]) (simp_all add: flush_log_def)
  next
    case False
    define t2 where "t2 = t1\<lparr>tr_log_offset := tr_log_offset t1 + nat len\<rparr>"
    have t2: "same_lists t t2" "buffers_ok t2" "tr_log_offset t < tr_log_offset t2" "tr_trace_id t2 = tr_trace_id t"
      using t1 False by (simp_all add: t2_def same_lists_def buffers_ok_def)
    have "a \<in> dom (tr_spans t2)" using assms(1,4) same_lists_dom [OF t2(1)] by (simp add: pools_def)
    then obtain s where s: "tr_spans t2 a = Some s" by blast
    have step: "flush_log t a buf = (if sp_end s \<noteq> 0 then do {
         line \<leftarrow> load_bytes (tr_log_buf t2) (int (tr_log_offset t2) - len) (nat len);
         (show_buf, show_len) \<leftarrow> snprintf_at (tr_show_buf t2) (tr_show_offset t2) (line @ [44]);
         let t = t2\<lparr>tr_show_buf := show_buf\<rparr>;
         if int (tr_show_offset t) + show_len \<ge> 1024 then Some (OB_ERROR, t)
         else Some (OB_SUCCESS, t\<lparr>tr_show_offset := tr_show_offset t + nat show_len\<rparr>) }
       else Some (OB_SUCCESS, t2))"
      using t1(1) False s by (simp add: flush_log_def t2_def Let_def)
    show thesis
    proof (cases "sp_end s = 0")
      case True
      then show thesis using step t2 by (intro that [of OB_SUCCESS t2]) simp_all
    next
      case ended: False
      have "\<exists>line. load_bytes (tr_log_buf t2) (int (tr_log_offset t2) - len) (nat len) = Some line"
        using t1(2,4) False by (auto simp: t2_def load_bytes_def buffers_ok_def)
      then obtain line where line: "load_bytes (tr_log_buf t2) (int (tr_log_offset t2) - len) (nat len) = Some line" by blast
      obtain b where b: "snprintf_at (tr_show_buf t2) (tr_show_offset t2) (line @ [44]) = Some (b, int (length (line @ [44])))"
        "length b = 1024"
        by (rule snprintf_at_ok [of "tr_show_offset t2" "tr_show_buf t2" "line @ [44]"])
          (use t2(2) in \<open>simp_all add: buffers_ok_def\<close>)
      define t3 where "t3 = t2\<lparr>tr_show_buf := b\<rparr>"
      have t3: "same_lists t t3" "buffers_ok t3" "tr_log_offset t < tr_log_offset t3" "tr_trace_id t3 = tr_trace_id t"
        using t2 b(2) by (simp_all add: t3_def same_lists_def buffers_ok_def)
      show thesis
      proof (cases "int (tr_show_offset t3) + int (length (line @ [44])) \<ge> 1024")
        case True
        then show thesis using step ended line b t3
          by (intro that [of OB_ERROR t3]) (simp_all add: t3_def Let_def)
      next
        case small: False
        let ?t = "t3\<lparr>tr_show_offset := tr_show_offset t3 + length (line @ [44])\<rparr>"
        have "same_lists t ?t" "buffers_ok ?t" using t3 small by (simp_all add: same_lists_def buffers_ok_def)
        then show thesis using step ended line b t3 small
          by (intro that [of OB_SUCCESS ?t]) (simp_all add: t3_def Let_def nat_add_distrib)
      qed
    qed
  qed
qed

subsection \<open>Recycling a span\<close>

text \<open>The tags of a span go to the free tag list, last one first.\<close>

lemma reset_tags_loop_ok:
  "tag_chain (tr_tags t) p as \<Longrightarrow> tag_chain (tr_tags t) (tr_free_tags t) F \<Longrightarrow>
   distinct as \<Longrightarrow> distinct F \<Longrightarrow> set as \<inter> set F = {} \<Longrightarrow>
   \<exists>tags q. reset_tags_loop t p = Some (t\<lparr>tr_tags := tags, tr_free_tags := q\<rparr>)
     \<and> tag_chain tags q (rev as @ F) \<and> (\<forall>a. a \<notin> set as \<longrightarrow> tags a = tr_tags t a)"
proof (induction as arbitrary: t p F)
  case Nil
  then have "reset_tags_loop t p = Some (t\<lparr>tr_tags := tr_tags t, tr_free_tags := tr_free_tags t\<rparr>)"
    by (simp add: reset_tags_loop.simps [of t None])
  with Nil show ?case by (intro exI [of _ "tr_tags t"] exI [of _ "tr_free_tags t"]) simp
next
  case (Cons a as)
  from Cons.prems(1) obtain g where g: "p = Some a" "tr_tags t a = Some g" "tag_chain (tr_tags t) (tag_next g) as"
    by (auto split: option.splits)
  have a: "a \<notin> set as" "a \<notin> set F" using Cons.prems by auto
  define t1 where "t1 = t\<lparr>tr_tags := (tr_tags t)(a \<mapsto> g\<lparr>tag_next := tr_free_tags t\<rparr>), tr_free_tags := Some a\<rparr>"
  have "tag_chain (tr_tags t1) (tag_next g) as" "tag_chain (tr_tags t1) (tr_free_tags t1) (a # F)"
    using g a Cons.prems(2) by (simp_all add: t1_def)
  moreover have "distinct as" "distinct (a # F)" "set as \<inter> set (a # F) = {}" using Cons.prems a by auto
  ultimately obtain tags q where r: "reset_tags_loop t1 (tag_next g) = Some (t1\<lparr>tr_tags := tags, tr_free_tags := q\<rparr>)"
    "tag_chain tags q (rev as @ a # F)" "\<forall>b. b \<notin> set as \<longrightarrow> tags b = tr_tags t1 b"
    using Cons.IH by blast
  have "reset_tags_loop t p = reset_tags_loop t1 (tag_next g)"
    using g by (subst reset_tags_loop.simps) (simp add: reset_tag_def t1_def)
  moreover have "t1\<lparr>tr_tags := tags, tr_free_tags := q\<rparr> = t\<lparr>tr_tags := tags, tr_free_tags := q\<rparr>"
    by (simp add: t1_def)
  moreover have "\<forall>b. b \<notin> set (a # as) \<longrightarrow> tags b = tr_tags t b" using r(3) by (simp add: t1_def)
  ultimately show ?case using r(1,2) by (intro exI [of _ tags] exI [of _ q]) simp
qed

lemma recycle_span_ok:
  assumes "trace_ok t (a # cs) fs T F"
  obtains t' where "recycle_span t a a = Some t'" and "trace_ok t' cs (a # fs) T (rev (T a) @ F)"
    and "tr_log_offset t' = tr_log_offset t" and "tr_trace_id t' = tr_trace_id t"
proof -
  have P: "pools t (a # cs) fs" and G: "tag_pools t (a # cs) T F" and B: "buffers_ok t" and S: "sources_ok t"
    using assms by (simp_all add: trace_ok_def)
  have "a \<in> dom (tr_spans t)" using P by (auto simp: pools_def)
  then obtain s where s: "tr_spans t a = Some s" by blast
  have chain: "tag_chain (tr_tags t) (sp_tags s) (T a)" "tag_chain (tr_tags t) (tr_free_tags t) F"
    "distinct (T a)" "distinct F" "set (T a) \<inter> set F = {}"
    using G s by (simp_all add: tag_pools_def)
  from reset_tags_loop_ok [OF chain] obtain tags q where r:
    "reset_tags_loop t (sp_tags s) = Some (t\<lparr>tr_tags := tags, tr_free_tags := q\<rparr>)"
    "tag_chain tags q (rev (T a) @ F)" "\<forall>b. b \<notin> set (T a) \<longrightarrow> tags b = tr_tags t b" by blast
  define t1 where "t1 = t\<lparr>tr_tags := tags, tr_free_tags := q, tr_spans := (tr_spans t)(a \<mapsto> s\<lparr>sp_tags := None\<rparr>)\<rparr>"
  have "dom ((tr_spans t)(a \<mapsto> s\<lparr>sp_tags := None\<rparr>)) = dom (tr_spans t)" using s by auto
  then have P1: "pools t1 (a # cs) fs" using P by (simp add: t1_def pools_def)
  obtain h where h: "release_node t1 a = Some (t1\<lparr>tr_nodes := h, tr_current := hd_or cs None, tr_free := Some a\<rparr>)"
    "pools (t1\<lparr>tr_nodes := h, tr_current := hd_or cs None, tr_free := Some a\<rparr>) cs (a # fs)"
    using P1 by (rule release_node_pools)
  define t2 where "t2 = t1\<lparr>tr_nodes := h, tr_current := hd_or cs None, tr_free := Some a\<rparr>"
  have "recycle_span t a a = Some t2"
    using s r(1) h(1) by (simp add: recycle_span_def upd_span_def t1_def t2_def)
  moreover have "trace_ok t2 cs (a # fs) T (rev (T a) @ F)"
    unfolding trace_ok_def
  proof (intro conjI)
    show "pools t2 cs (a # fs)" using h(2) by (simp add: t2_def)
    show "buffers_ok t2" using B by (simp add: t2_def t1_def buffers_ok_def)
    show "sources_ok t2" using S s by (auto simp: t2_def t1_def sources_ok_def split: if_splits)
    have na: "a \<notin> set cs" using P by (simp add: pools_def is_list_def)
    have dis: "set (T b) \<inter> set (T a) = {}" if "b \<in> set cs" for b
      using G that na unfolding tag_pools_def by (metis list.set_intros(1,2))
    have tags: "tags c = tr_tags t c" if "b \<in> set cs" "c \<in> set (T b)" for b c
      using r(3) dis [OF that(1)] that(2) by auto
    have "tag_chain tags p (T b) \<longleftrightarrow> tag_chain (tr_tags t) p (T b)" if "b \<in> set cs" for b p
      using tags [OF that] by (rule tag_chain_cong)
    moreover have "tags_printable tags (T b) \<longleftrightarrow> tags_printable (tr_tags t) (T b)" if "b \<in> set cs" for b
      using tags [OF that] by (simp add: tags_printable_def)
    moreover have "b \<noteq> a" if "b \<in> set cs" for b using that na by auto
    moreover have "x \<notin> set (T a)" if "b \<in> set cs" "x \<in> set (T b)" for b x
      using dis [OF that(1)] that(2) by blast
    ultimately show "tag_pools t2 cs T (rev (T a) @ F)"
      using G r(2) chain by (auto simp: tag_pools_def t2_def t1_def)
  qed
  ultimately show thesis by (intro that [of t2]) (simp_all add: t2_def t1_def)
qed

lemma flush_step_ok:
  assumes "trace_ok t (a # cs) fs T F"
  obtains ret t' cs' fs' F' where "flush_step t a = Some (ret, t')" and "ret \<in> {OB_SUCCESS, OB_ERROR}"
    and "trace_ok t' cs' fs' T F'" and "tr_trace_id t' = tr_trace_id t"
    and "ret = OB_SUCCESS \<longrightarrow> length cs' + (1024 - tr_log_offset t') < length (a # cs) + (1024 - tr_log_offset t)"
proof -
  have P: "pools t (a # cs) fs" and G: "tag_pools t (a # cs) T F" and B: "buffers_ok t" and S: "sources_ok t"
    using assms by (simp_all add: trace_ok_def)
  obtain n where n: "tr_nodes t a = Some n" "data n = a" using pools_head(2) [OF P] by blast
  have a4: "a < 4" using P by (rule pools_head(3))
  then have "a \<in> dom (tr_spans t)" using P by (simp add: pools_def)
  then obtain s where s: "tr_spans t a = Some s" by blast
  obtain t1 where t1: "INIT_SPAN t (Some a) = Some t1" "same_lists t t1"
    "tr_log_buf t1 = tr_log_buf t" "tr_log_offset t1 = tr_log_offset t"
    "tr_show_buf t1 = tr_show_buf t" "tr_show_offset t1 = tr_show_offset t"
    "tr_serialize_buf t1 = tr_serialize_buf t" "tr_trace_id t1 = tr_trace_id t"
    using INIT_SPAN_ok [of "Some a" t] s by blast
  have B1: "buffers_ok t1" using B t1 by (simp add: buffers_ok_def)
  have ok1: "trace_ok t1 (a # cs) fs T F" using assms t1(2) B1 by (rule trace_ok_same)
  have "tag_chain (tr_tags t1) (sp_tags s) (T a)" "tags_printable (tr_tags t1) (T a)"
    using G s t1(2) by (simp_all add: tag_pools_def same_lists_def)
  from flush_tags_ok [OF this, of "replicate 1024 0"] obtain r1 buf where r1:
    "flush_tags (tr_tags t1) (replicate 1024 0) (sp_tags s) = Some (r1, buf)" "r1 \<in> {OB_SUCCESS, OB_ERROR}"
    "r1 = OB_SUCCESS \<longrightarrow> 0 \<in> set buf" by auto
  obtain r2 t2 where r2: "(if r1 \<noteq> OB_SUCCESS then Some (r1, t1) else flush_log t1 a buf) = Some (r2, t2)"
    "r2 \<in> {OB_SUCCESS, OB_ERROR}" "same_lists t1 t2" "buffers_ok t2" "tr_trace_id t2 = tr_trace_id t"
    "r2 = OB_SUCCESS \<longrightarrow> tr_log_offset t < tr_log_offset t2"
  proof (cases "r1 = OB_SUCCESS")
    case True
    have "pools t1 (a # cs) fs" "sources_ok t1" using ok1 by (simp_all add: trace_ok_def)
    from this(1) B1 this(2) a4 r1(3) [rule_format, OF True] obtain r2 t2 where "flush_log t1 a buf = Some (r2, t2)"
      "r2 \<in> {OB_SUCCESS, OB_ERROR}" "same_lists t1 t2" "buffers_ok t2" "tr_trace_id t2 = tr_trace_id t1"
      "r2 = OB_SUCCESS \<longrightarrow> tr_log_offset t1 < tr_log_offset t2" by (rule flush_log_ok)
    then show thesis using True t1 by (intro that [of r2 t2]) simp_all
  next
    case False
    then show thesis using r1 t1 B1 by (intro that [of r1 t1]) simp_all
  qed
  have ok2: "trace_ok t2 (a # cs) fs T F" using ok1 r2(3,4) by (rule trace_ok_same)
  have "same_lists t t2" using t1(2) r2(3) by (rule same_lists_trans)
  then obtain s2 where s2: "tr_spans t2 a = Some s2" using s by (rule same_lists_span)
  have off: "tr_log_offset t2 < 1024" using r2(4) by (simp add: buffers_ok_def)
  have step: "flush_step t a = do {
      t3 \<leftarrow> (if r2 = OB_SUCCESS \<and> sp_end s2 \<noteq> 0 then recycle_span t2 a a else Some t2);
      Some (r2, t3) }"
    unfolding flush_step_def using n s t1(1) r1(1) r2(1) s2 by (simp split del: if_split cong: if_cong)
  show thesis
  proof (cases "r2 = OB_SUCCESS \<and> sp_end s2 \<noteq> 0")
    case True
    obtain t3 where t3: "recycle_span t2 a a = Some t3" "trace_ok t3 cs (a # fs) T (rev (T a) @ F)"
      "tr_log_offset t3 = tr_log_offset t2" "tr_trace_id t3 = tr_trace_id t2"
      using ok2 by (rule recycle_span_ok)
    then show thesis using True step r2 off by (intro that [of r2 t3 cs "a # fs" "rev (T a) @ F"]) auto
  next
    case False
    then show thesis using step r2 ok2 off by (intro that [of r2 t2 "a # cs" fs F]) auto
  qed
qed

text \<open>The flush loop ends: every round recycles a span or lengthens the log, which is bounded.\<close>

lemma flush_trace_loop_ok:
  "trace_ok t cs fs T F \<Longrightarrow>
   \<exists>t' cs' fs' F'. flush_trace_loop t = Some t' \<and> trace_ok t' cs' fs' T F' \<and> tr_trace_id t' = tr_trace_id t"
proof (induction "length cs + (1024 - tr_log_offset t)" arbitrary: t cs fs F rule: less_induct)
  case less
  show ?case
  proof (cases cs)
    case Nil
    then have "tr_current t = None" using less.prems by (simp add: trace_ok_def pools_def)
    then have "flush_trace_loop t = Some t" by (subst flush_trace_loop.simps) simp
    then show ?thesis using less.prems by blast
  next
    case (Cons a cs0)
    with less.prems have ok: "trace_ok t (a # cs0) fs T F" by simp
    then have "pools t (a # cs0) fs" by (simp add: trace_ok_def)
    then have cur: "tr_current t = Some a" by (rule pools_head(1))
    obtain ret t1 cs1 fs1 F1 where s: "flush_step t a = Some (ret, t1)" "ret \<in> {OB_SUCCESS, OB_ERROR}"
      "trace_ok t1 cs1 fs1 T F1" "tr_trace_id t1 = tr_trace_id t"
      "ret = OB_SUCCESS \<longrightarrow> length cs1 + (1024 - tr_log_offset t1) < length (a # cs0) + (1024 - tr_log_offset t)"
      using ok by (rule flush_step_ok)
    have eq: "flush_trace_loop t = (if ret \<noteq> OB_SUCCESS then Some t1 else flush_trace_loop t1)"
      using cur s(1) by (subst flush_trace_loop.simps) simp
    show ?thesis
    proof (cases "ret = OB_SUCCESS")
      case True
      then have "length cs1 + (1024 - tr_log_offset t1) < length cs + (1024 - tr_log_offset t)"
        using s(5) Cons by simp
      from less.hyps [OF this s(3)] True eq s(4) show ?thesis by auto
    next
      case False
      then show ?thesis using eq s(3,4) by auto
    qed
  qed
qed

subsection \<open>Every operation keeps the invariant\<close>

lemma trace_okD:
  assumes "trace_ok t cs fs T F"
  shows "pools t cs fs" and "tag_pools t cs T F" and "buffers_ok t" and "sources_ok t"
  using assms by (simp_all add: trace_ok_def)

lemma trace_ok_span:
  assumes "trace_ok t cs fs T F" and "a < 4"
  obtains s where "tr_spans t a = Some s"
proof -
  have "a \<in> dom (tr_spans t)" using assms by (simp add: trace_ok_def pools_def)
  then show thesis using that by blast
qed

lemma flush_trace_ok:
  assumes "trace_ok t cs fs T F"
  obtains t' cs' fs' F' where "flush_trace t = Some t'" and "trace_ok t' cs' fs' T F'" and "tr_trace_id t' = tr_trace_id t"
proof (cases "uuid_unset (tr_trace_id t) \<or> tr_current t = None")
  case True
  then have "flush_trace t = Some t" by (auto simp: flush_trace_def)
  then show thesis using assms that by blast
next
  case False
  from flush_trace_loop_ok [OF assms] obtain t1 cs1 fs1 F1 where t1: "flush_trace_loop t = Some t1"
    "trace_ok t1 cs1 fs1 T F1" "tr_trace_id t1 = tr_trace_id t" by blast
  have "trace_ok (t1\<lparr>tr_offset := of_nat INIT_OFFSET\<rparr>) cs1 fs1 T F1"
    using t1(2) by (simp add: trace_ok_def pools_def tag_pools_def buffers_ok_def sources_ok_def)
  then show thesis using False t1
    by (intro that [of "t1\<lparr>tr_offset := of_nat INIT_OFFSET\<rparr>" cs1 fs1 F1]) (auto simp: flush_trace_def)
qed

lemma begin_trace_enable_same:
  "same_lists t (begin_trace_enable control t)" "buffers_ok (begin_trace_enable control t) = buffers_ok t"
  "control = None \<Longrightarrow> \<not> tr_trace_enable (begin_trace_enable control t)"
  by (simp_all add: begin_trace_enable_def flt_get_pct_def same_lists_def buffers_ok_def split_beta Let_def split: option.split)

lemma begin_trace_print_same:
  "same_lists t (begin_trace_print c t)" "buffers_ok (begin_trace_print c t) = buffers_ok t"
  by (simp_all add: begin_trace_print_def flt_get_pct_def same_lists_def buffers_ok_def split_beta Let_def)

lemma begin_trace_ok:
  assumes "trace_ok t cs fs T F"
  obtains t' where "begin_trace control t = Some t'" and "trace_ok t' cs fs T F"
proof -
  define t1 where "t1 = begin_trace_enable control t"
  have t1: "same_lists t t1" "buffers_ok t1" "control = None \<Longrightarrow> \<not> tr_trace_enable t1"
    using begin_trace_enable_same trace_okD(3) [OF assms] by (simp_all add: t1_def)
  have "\<exists>t2. begin_trace control t = Some t2 \<and> same_lists t1 t2 \<and> buffers_ok t2"
  proof (cases "tr_trace_enable t1")
    case True
    then obtain c where c: "control = Some c" using t1(3) by blast
    obtain u t2 where u: "uuid4_generate t1 = (u, t2)" by (cases "uuid4_generate t1")
    let ?t = "t2\<lparr>tr_trace_id := u, tr_level := level' c AND 127\<rparr>"
    have "same_lists t1 ?t" "buffers_ok ?t"
      using u t1(2) by (auto simp: uuid4_generate_def get_current_time_us_def same_lists_def buffers_ok_def split_beta Let_def)
    then have "same_lists t1 (begin_trace_print c ?t)" "buffers_ok (begin_trace_print c ?t)"
      using same_lists_trans begin_trace_print_same by blast+
    moreover have "begin_trace control t = Some (begin_trace_print c ?t)"
      using True u unfolding begin_trace_def t1_def [symmetric] Let_def by (simp add: c)
    ultimately show ?thesis by blast
  next
    case False
    let ?t = "t1\<lparr>tr_level := 0, tr_force_print := False, tr_trace_id := uuid_zero\<rparr>"
    have "begin_trace control t = Some ?t" using False by (simp add: begin_trace_def flip: t1_def)
    moreover have "same_lists t1 ?t" "buffers_ok ?t" using t1(2) by (simp_all add: same_lists_def buffers_ok_def)
    ultimately show ?thesis by blast
  qed
  then obtain t2 where "begin_trace control t = Some t2" "same_lists t1 t2" "buffers_ok t2" by blast
  moreover from this have "trace_ok t2 cs fs T F" using trace_ok_same [OF assms same_lists_trans [OF t1(1)]] by blast
  ultimately show thesis using that by blast
qed

text \<open>A span that leaves the current list takes its tags along.\<close>

lemma tag_pools_drop: "tag_pools t (a # cs) T F \<Longrightarrow> tag_pools t cs T F"
  by (simp add: tag_pools_def)

lemma release_node_ok:
  assumes "trace_ok t (a # cs) fs T F"
  obtains t' where "release_node t a = Some t'" and "trace_ok t' cs (a # fs) T F"
proof -
  obtain h where h: "release_node t a = Some (t\<lparr>tr_nodes := h, tr_current := hd_or cs None, tr_free := Some a\<rparr>)"
    "pools (t\<lparr>tr_nodes := h, tr_current := hd_or cs None, tr_free := Some a\<rparr>) cs (a # fs)"
    using trace_okD(1) [OF assms] by (rule release_node_pools)
  let ?t = "t\<lparr>tr_nodes := h, tr_current := hd_or cs None, tr_free := Some a\<rparr>"
  have "tag_pools ?t cs T F" using tag_pools_drop [OF trace_okD(2) [OF assms]] by (simp add: tag_pools_def)
  moreover have "buffers_ok ?t" "sources_ok ?t"
    using trace_okD(3,4) [OF assms] by (simp_all add: buffers_ok_def sources_ok_def)
  ultimately show thesis using h by (intro that [of ?t]) (simp_all add: trace_ok_def)
qed

text \<open>Changes to a span that keep its source, and its tags when it is in use.\<close>

lemma upd_span_ok:
  assumes "trace_ok t cs fs T F" and "a < 4"
    and "\<And>s. sp_source (f s) = sp_source s" and "\<And>s. a \<in> set cs \<Longrightarrow> sp_tags (f s) = sp_tags s"
  obtains t' where "upd_span t a f = Some t'" and "trace_ok t' cs fs T F" 
proof -
  obtain s where s: "tr_spans t a = Some s" using assms(1,2) by (rule trace_ok_span)
  let ?t = "t\<lparr>tr_spans := (tr_spans t)(a \<mapsto> f s)\<rparr>"
  have "dom ((tr_spans t)(a \<mapsto> f s)) = dom (tr_spans t)" using s by auto
  then have "pools ?t cs fs" using trace_okD(1) [OF assms(1)] by (simp add: pools_def)
  moreover have "sp_tags (the (((tr_spans t)(a \<mapsto> f s)) b)) = sp_tags (the (tr_spans t b))" if "b \<in> set cs" for b
    using s assms(4) that by auto
  then have "tag_pools ?t cs T F" using trace_okD(2) [OF assms(1)] by (simp add: tag_pools_def)
  moreover have "sources_ok ?t" using trace_okD(4) [OF assms(1)] s assms(3) by (auto simp: sources_ok_def split: if_splits)
  ultimately have "trace_ok ?t cs fs T F" using trace_okD(3) [OF assms(1)] by (simp add: trace_ok_def buffers_ok_def)
  then show thesis using s by (intro that [of ?t]) (simp_all add: upd_span_def)
qed

lemma end_trace_loop_ok:
  "trace_ok t cs fs T F \<Longrightarrow> \<exists>t'. end_trace_loop t = Some t' \<and> trace_ok t' [] (rev cs @ fs) T F"
proof (induction cs arbitrary: t fs)
  case Nil
  then have "tr_current t = None" by (simp add: trace_ok_def pools_def)
  then show ?case using Nil by (subst end_trace_loop.simps) simp
next
  case (Cons a cs)
  note hd = pools_head [OF trace_okD(1) [OF Cons.prems]]
  obtain n where n: "tr_nodes t a = Some n" "data n = a" using hd(2) by blast
  obtain s where s: "tr_spans t a = Some s" using Cons.prems hd(3) by (rule trace_ok_span)
  obtain t1 where t1: "(if sp_end s = 0 then (let (now, t) = get_current_time_us t in upd_span t a (\<lambda>s. s\<lparr>sp_end := now\<rparr>))
      else Some t) = Some t1" "trace_ok t1 (a # cs) fs T F"
  proof (cases "sp_end s = 0")
    case True
    have ok: "trace_ok (t\<lparr>tr_ticks := Suc (tr_ticks t)\<rparr>) (a # cs) fs T F"
      using Cons.prems by (simp add: trace_ok_def pools_def tag_pools_def buffers_ok_def sources_ok_def)
    obtain t1 where "upd_span (t\<lparr>tr_ticks := Suc (tr_ticks t)\<rparr>) a (\<lambda>s. s\<lparr>sp_end := tr_clock t (tr_ticks t)\<rparr>) = Some t1"
      "trace_ok t1 (a # cs) fs T F"
      by (rule upd_span_ok [OF ok hd(3), where f = "\<lambda>s. s\<lparr>sp_end := tr_clock t (tr_ticks t)\<rparr>"]) simp_all
    then show thesis using True by (intro that [of t1]) (simp_all add: get_current_time_us_def)
  qed (use Cons.prems in \<open>simp add: that\<close>)
  obtain t2 where t2: "release_node t1 a = Some t2" "trace_ok t2 cs (a # fs) T F" using t1(2) by (rule release_node_ok)
  have "end_trace_loop t = end_trace_loop t2"
    using hd(1) n s t1(1) t2(1) by (subst end_trace_loop.simps) (simp split del: if_split cong: if_cong)
  then show ?case using Cons.IH [OF t2(2)] by simp
qed

lemma end_trace_ok:
  assumes "trace_ok t cs fs T F"
  obtains t' where "end_trace t = Some t'" and "trace_ok t' [] (rev cs @ fs) T F"
proof -
  obtain t1 where t1: "end_trace_loop t = Some t1" "trace_ok t1 [] (rev cs @ fs) T F"
    using end_trace_loop_ok [OF assms] by blast
  let ?t = "t1\<lparr>tr_offset := of_nat INIT_OFFSET, tr_level := 0, tr_auto_flush := False, tr_last_active := None\<rparr>"
  have "trace_ok ?t [] (rev cs @ fs) T F"
    using t1(2) by (simp add: trace_ok_def pools_def tag_pools_def buffers_ok_def sources_ok_def)
  then show thesis using t1 by (intro that [of ?t]) (simp_all add: end_trace_def)
qed

lemma reset_span_loop_ok:
  "trace_ok t cs fs T F \<Longrightarrow> \<exists>t'. reset_span_loop t = Some t' \<and> trace_ok t' [] (rev cs @ fs) T F"
proof (induction cs arbitrary: t fs)
  case Nil
  then have "tr_current t = None" by (simp add: trace_ok_def pools_def)
  then show ?case using Nil by (subst reset_span_loop.simps) simp
next
  case (Cons a cs)
  note hd = pools_head [OF trace_okD(1) [OF Cons.prems]]
  obtain n where n: "tr_nodes t a = Some n" "data n = a" using hd(2) by blast
  obtain t1 where t1: "release_node t a = Some t1" "trace_ok t1 cs (a # fs) T F" using Cons.prems by (rule release_node_ok)
  have na: "a \<notin> set cs" using trace_okD(1) [OF Cons.prems] by (simp add: pools_def is_list_def)
  obtain t2 where t2: "upd_span t1 a (\<lambda>s. s\<lparr>sp_tags := None\<rparr>) = Some t2" "trace_ok t2 cs (a # fs) T F"
    by (rule upd_span_ok [OF t1(2) hd(3), where f = "\<lambda>s. s\<lparr>sp_tags := None\<rparr>"]) (simp_all add: na)
  have "reset_span_loop t = reset_span_loop t2"
    using hd(1) n t1(1) t2(1) by (subst reset_span_loop.simps) simp
  then show ?case using Cons.IH [OF t2(2)] by simp
qed

lemma reset_span_ok:
  assumes "trace_ok t cs fs T F"
  obtains t' cs' fs' where "reset_span flt t = Some t'" and "trace_ok t' cs' fs' T F"
proof (cases "flt = None \<or> uuid_unset (tr_trace_id t)")
  case True
  then have "reset_span flt t = Some t" by (auto simp: reset_span_def)
  then show thesis using assms that by blast
next
  case False
  obtain t1 where "reset_span_loop t = Some t1" "trace_ok t1 [] (rev cs @ fs) T F"
    using reset_span_loop_ok [OF assms] by blast
  then show thesis using False by (intro that [of t1 "[]" "rev cs @ fs"]) (auto simp: reset_span_def)
qed

lemma append_tag_ok:
  assumes "trace_ok t cs fs T F" and "a < 4" and "type < 2" and "\<And>v. val = Some v \<Longrightarrow> 0 \<in> set v"
  obtains t' T' F' where "append_tag t a type val = Some t'" and "trace_ok t' cs fs T' F'"
    and "val \<noteq> None \<Longrightarrow> F \<noteq> [] \<Longrightarrow> T' = T(a := hd F # T a) \<and> F' = tl F" and "tr_trace_id t' = tr_trace_id t"
proof (cases "val = None \<or> tr_free_tags t = None")
  case True
  then have "append_tag t a type val = Some t" by (auto simp: append_tag_def)
  moreover have "tr_free_tags t = None \<Longrightarrow> F = []"
    using trace_okD(2) [OF assms(1)] by (cases F) (simp_all add: tag_pools_def)
  ultimately show thesis using True assms(1) by (intro that [of t T F]) auto
next
  case False
  then obtain v c where v: "val = Some v" and c: "tr_free_tags t = Some c" by auto
  have G: "tag_pools t cs T F" using assms(1) by (rule trace_okD)
  then have chF: "tag_chain (tr_tags t) (tr_free_tags t) F" "distinct F" by (simp_all add: tag_pools_def)
  with c obtain F' g where F: "F = c # F'" "tr_tags t c = Some g" "tag_chain (tr_tags t) (tag_next g) F'"
    by (cases F) (auto split: option.splits)
  obtain s where s: "tr_spans t a = Some s" using assms(1,2) by (rule trace_ok_span)
  define tags where "tags = (tr_tags t)(c \<mapsto> \<lparr>tag_next = sp_tags s, tag_type = type, tag_data = val\<rparr>)"
  define t1 where "t1 = t\<lparr>tr_free_tags := tag_next g, tr_tags := tags,
    tr_spans := (tr_spans t)(a \<mapsto> s\<lparr>sp_tags := Some c\<rparr>)\<rparr>"
  define T1 where "T1 = T(a := c # T a)"
  have nc: "c \<notin> set (T b)" if "b \<in> set cs" for b using G that F(1) by (auto simp: tag_pools_def)
  have "dom ((tr_spans t)(a \<mapsto> s\<lparr>sp_tags := Some c\<rparr>)) = dom (tr_spans t)" using s by auto
  then have P1: "pools t1 cs fs" using trace_okD(1) [OF assms(1)] by (simp add: t1_def pools_def)
  have BS: "buffers_ok t1" "sources_ok t1"
    using trace_okD(3,4) [OF assms(1)] s by (auto simp: t1_def buffers_ok_def sources_ok_def split: if_splits)
  have cF: "c \<notin> set F'" "distinct F'" using chF(2) F(1) by simp_all
  have each: "tag_chain tags (sp_tags (the (tr_spans t1 b))) (T1 b) \<and> tags_printable tags (T1 b) \<and> distinct (T1 b)
      \<and> set (T1 b) \<inter> set F' = {}" if b: "b \<in> set cs" for b
  proof -
    have old: "tag_chain (tr_tags t) (sp_tags (the (tr_spans t b))) (T b)" "tags_printable (tr_tags t) (T b)"
      "distinct (T b)" "set (T b) \<inter> set F' = {}" using G b F(1) by (auto simp: tag_pools_def)
    have pr: "tags_printable tags (T b)" using old(2) nc [OF b] by (auto simp: tags_printable_def tags_def)
    show ?thesis
    proof (cases "b = a")
      case True
      have "tag_ok \<lparr>tag_next = sp_tags s, tag_type = type, tag_data = val\<rparr>"
        using assms(3,4) v by (simp add: tag_ok_def)
      then have "tags_printable tags (c # T b)" using pr by (simp add: tags_printable_def tags_def)
      then show ?thesis using True old nc [OF b] cF s by (simp add: T1_def t1_def tags_def)
    next
      case False
      then show ?thesis using old nc [OF b] pr by (simp add: T1_def t1_def tags_def)
    qed
  qed
  have "tag_chain tags (tag_next g) F'" using F(3) cF by (simp add: tags_def)
  moreover have "set (T1 b) \<inter> set (T1 d) = {}" if "b \<in> set cs" "d \<in> set cs" "b \<noteq> d" for b d
  proof -
    have "set (T b) \<inter> set (T d) = {}" using G that by (simp add: tag_pools_def)
    then show ?thesis using that nc [of b] nc [of d] by (auto simp: T1_def)
  qed
  ultimately have "tag_pools t1 cs T1 F'" using each cF(2) by (auto simp: tag_pools_def t1_def)
  moreover have "append_tag t a type val = Some t1"
    using v c F(2) s by (simp add: append_tag_def t1_def tags_def)
  moreover have "T1 = T(a := hd F # T a)" "F' = tl F" "tr_trace_id t1 = tr_trace_id t"
    by (simp_all add: T1_def F(1) t1_def)
  ultimately show thesis using P1 BS by (intro that [of t1 T1 F']) (simp_all add: trace_ok_def)
qed

lemma end_span_ok:
  assumes "trace_ok t cs fs T F" and "\<And>a. span = Some a \<Longrightarrow> a < 4"
  obtains t' where "end_span flt t span = Some t'" and "trace_ok t' cs fs T F"
proof (cases "flt = None \<or> span = None")
  case True
  then have "end_span flt t span = Some t" by (auto simp: end_span_def split: option.split)
  then show thesis using assms(1) that by blast
next
  case False
  then obtain c a where ca: "flt = Some c" "span = Some a" by auto
  then have a4: "a < 4" using assms(2) by blast
  obtain s where s: "tr_spans t a = Some s" using assms(1) a4 by (rule trace_ok_span)
  show thesis
  proof (cases "uuid_unset (tr_trace_id t) \<or> uuid_unset (sp_id s)")
    case True
    then have "end_span flt t span = Some t" using ca s by (simp add: end_span_def)
    then show thesis using assms(1) that by blast
  next
    case False
    let ?now = "tr_clock t (tr_ticks t)"
    have "trace_ok (t\<lparr>tr_ticks := Suc (tr_ticks t)\<rparr>) cs fs T F"
      using assms(1) by (simp add: trace_ok_def pools_def tag_pools_def buffers_ok_def sources_ok_def)
    then obtain t1 where t1: "upd_span (t\<lparr>tr_ticks := Suc (tr_ticks t)\<rparr>) a (\<lambda>s. s\<lparr>sp_end := ?now\<rparr>) = Some t1"
      "trace_ok t1 cs fs T F"
      by (rule upd_span_ok [OF _ a4, where f = "\<lambda>s. s\<lparr>sp_end := ?now\<rparr>"]) simp_all
    have src: "p < 4" if "sp_source s = Some p" for p using trace_okD(4) [OF assms(1)] s that by (auto simp: sources_ok_def)
    have ok: "trace_ok (t1\<lparr>tr_last_active := sp_source s\<rparr>) cs fs T F"
      "trace_ok (t1\<lparr>tr_last_active := sp_source s, tr_slow_query_print := True\<rparr>) cs fs T F"
      using t1(2) src by (simp_all add: trace_ok_def pools_def tag_pools_def buffers_ok_def sources_ok_def)
    have "\<exists>q. end_span flt t span = Some (if q then t1\<lparr>tr_last_active := sp_source s, tr_slow_query_print := True\<rparr>
        else t1\<lparr>tr_last_active := sp_source s\<rparr>)"
      using ca s False t1(1) unfolding end_span_def get_current_time_us_def
      by (simp add: Let_def split del: if_split) (rule exI, rule refl)
    then show thesis using ok that by (auto split: if_splits)
  qed
qed

lemma tag_pools_fresh:
  assumes "tag_pools t cs T F" and "sp_tags s = None"
  shows "tag_pools (t\<lparr>tr_spans := (tr_spans t)(a \<mapsto> s)\<rparr>) (a # filter (\<lambda>b. b \<noteq> a) cs) (T(a := [])) F"
  using assms by (auto simp: tag_pools_def tags_printable_def)

text \<open>\<^verbatim>\<open>begin_span\<close> takes the first free node, or flushes when there is none.\<close>

lemma take_span_ok:
  assumes "trace_ok t cs (a # fs) T F"
  obtains n h1 h2 where "tr_nodes t a = Some n" and "data n = a" and "a < 4" and "tr_free t = Some a"
    and "list_delete (tr_nodes t) (tr_free t) a = Some (h1, hd_or fs None)"
    and "list_add h1 (tr_current t) a = Some (h2, Some a)"
    and "\<And>s. sp_tags s = None \<Longrightarrow> sp_source s = tr_last_active t \<Longrightarrow>
      trace_ok (t\<lparr>tr_spans := (tr_spans t)(a \<mapsto> s), tr_last_active := Some a, tr_nodes := h2,
         tr_free := hd_or fs None, tr_current := Some a\<rparr>) (a # cs) fs (T(a := [])) F"
proof -
  note D = trace_okD [OF assms]
  have l: "is_list (tr_nodes t) (tr_free t) (a # fs)" "is_list (tr_nodes t) (tr_current t) cs" "set (a # fs) \<inter> set cs = {}"
    using D(1) by (auto simp: pools_def)
  obtain h1 h2 where h: "list_delete (tr_nodes t) (tr_free t) a = Some (h1, hd_or fs None)"
    "list_add h1 (tr_current t) a = Some (h2, Some a)" "is_list h2 (hd_or fs None) fs" "is_list h2 (Some a) (a # cs)"
    "\<And>b. map_option data (h2 b) = map_option data (tr_nodes t b)" using move_head [OF l] by metis
  have a4: "a < 4" using D(1) by (auto simp: pools_def)
  then have "map_option data (tr_nodes t a) = Some a" "a \<in> dom (tr_spans t)" using D(1) by (simp_all add: pools_def)
  then obtain n s0 where n: "tr_nodes t a = Some n" "data n = a" and s0: "tr_spans t a = Some s0" by auto
  have na: "a \<notin> set cs" "a \<notin> set fs" using l by (auto simp: is_list_def)
  have "trace_ok (t\<lparr>tr_spans := (tr_spans t)(a \<mapsto> s), tr_last_active := Some a, tr_nodes := h2,
         tr_free := hd_or fs None, tr_current := Some a\<rparr>) (a # cs) fs (T(a := [])) F" (is "trace_ok ?t _ _ _ _")
    if s: "sp_tags s = None" "sp_source s = tr_last_active t" for s
    unfolding trace_ok_def
  proof (intro conjI)
    have "dom ((tr_spans t)(a \<mapsto> s)) = dom (tr_spans t)" using s0 by auto
    then show "pools ?t (a # cs) fs" using D(1) h(3,4,5) na by (auto simp: pools_def)
    have "filter (\<lambda>b. b \<noteq> a) cs = cs" using na by (metis (mono_tags, lifting) filter_True)
    then show "tag_pools ?t (a # cs) (T(a := [])) F"
      using tag_pools_fresh [OF D(2) s(1), of a] by (simp add: tag_pools_def)
    show "buffers_ok ?t" using D(3) by (simp add: buffers_ok_def)
    show "sources_ok ?t" using D(4) s(2) a4 by (auto simp: sources_ok_def split: if_splits)
  qed
  moreover have "tr_free t = Some a" using l(1) by (simp add: is_list_def)
  ultimately show thesis using n a4 h(1,2) by (intro that)
qed

lemma begin_span_ok:
  assumes "trace_ok t cs fs T F"
  obtains span t' cs' fs' T' F' where "begin_span t type level follow = Some (span, t')" and "trace_ok t' cs' fs' T' F'"
    and "\<And>a. span = Some a \<Longrightarrow> a < 4 \<and> a \<in> set cs'"
proof (cases "uuid_unset (tr_trace_id t) \<or> level > tr_level t")
  case True
  then have "begin_span t type level follow = Some (None, t)" by (auto simp: begin_span_def)
  then show thesis using assms that by blast
next
  case False
  obtain t1 cs1 fs1 F1 where t1: "(if tr_free t = None then flush_trace t else Some t) = Some t1"
    "trace_ok t1 cs1 fs1 T F1"
  proof (cases "tr_free t = None")
    case True
    obtain t1 cs1 fs1 F1 where "flush_trace t = Some t1" "trace_ok t1 cs1 fs1 T F1" using assms by (rule flush_trace_ok)
    then show thesis using True by (intro that [of t1 cs1 fs1 F1]) simp_all
  next
    case False
    then show thesis using assms by (intro that [of t cs fs F]) auto
  qed
  show thesis
  proof (cases fs1)
    case Nil
    then have "tr_free t1 = None" using trace_okD(1) [OF t1(2)] by (simp add: pools_def)
    then have "begin_span t type level follow = Some (None, t1)" using False t1(1)
      by (simp add: begin_span_def split del: if_split)
    then show thesis using t1(2) that by blast
  next
    case (Cons a fs2)
    define t2 where "t2 = t1\<lparr>tr_seq := tr_seq t1 + 1, tr_ticks := Suc (tr_ticks t1)\<rparr>"
    define s where "s = \<lparr>sp_type = ucast type, sp_id = \<lparr>low' = tr_seq t1 + 1, high' = 0\<rparr>,
      sp_source = tr_last_active t1, sp_follow = follow, sp_start = tr_clock t1 (tr_ticks t1), sp_end = 0, sp_tags = None\<rparr>"
    have "trace_ok t2 cs1 (a # fs2) T F1" using t1(2) Cons
      by (simp add: t2_def trace_ok_def pools_def tag_pools_def buffers_ok_def sources_ok_def)
    then obtain n h1 h2 where n: "tr_nodes t2 a = Some n" "data n = a" "a < 4" "tr_free t2 = Some a"
      "list_delete (tr_nodes t2) (tr_free t2) a = Some (h1, hd_or fs2 None)"
      "list_add h1 (tr_current t2) a = Some (h2, Some a)"
      and ok: "\<And>s. sp_tags s = None \<Longrightarrow> sp_source s = tr_last_active t2 \<Longrightarrow>
        trace_ok (t2\<lparr>tr_spans := (tr_spans t2)(a \<mapsto> s), tr_last_active := Some a, tr_nodes := h2,
           tr_free := hd_or fs2 None, tr_current := Some a\<rparr>) (a # cs1) fs2 (T(a := [])) F1"
      by (rule take_span_ok) blast
    obtain s0 where s0: "tr_spans t1 a = Some s0" using t1(2) n(3) by (rule trace_ok_span)
    let ?t = "t2\<lparr>tr_spans := (tr_spans t2)(a \<mapsto> s), tr_last_active := Some a, tr_nodes := h2,
           tr_free := hd_or fs2 None, tr_current := Some a\<rparr>"
    have "begin_span t type level follow = Some (Some a, ?t)"
      using False t1(1) n s0 by (simp add: begin_span_def t2_def s_def upd_span_def get_current_time_us_def Let_def split del: if_split)
    then show thesis using ok [of s] n(3) by (intro that [of "Some a" ?t "a # cs1" fs2 "T(a := [])" F1]) (simp_all add: s_def t2_def)
  qed
qed

lemma flush_first_span_ok:
  assumes "trace_ok t cs fs T F" and "length junk = 1024" and "0 \<in> set junk"
  obtains t' cs' fs' F' where "flush_first_span junk t = Some t'" and "trace_ok t' cs' fs' T F'"
proof (cases "uuid_unset (tr_trace_id t) \<or> cs = []")
  case True
  then have "flush_first_span junk t = Some t" using trace_okD(1) [OF assms(1)] by (auto simp: flush_first_span_def pools_def)
  then show thesis using assms(1) that by blast
next
  case False
  then obtain a cs0 where cs: "cs = a # cs0" by (cases cs) auto
  note D = trace_okD [OF assms(1) [unfolded cs]] and hd = pools_head [OF trace_okD(1) [OF assms(1) [unfolded cs]]]
  obtain n where n: "tr_nodes t a = Some n" "data n = a" using hd(2) by blast
  obtain s where s: "tr_spans t a = Some s" using assms(1) hd(3) by (rule trace_ok_span)
  obtain t1 where t1: "INIT_SPAN t (Some a) = Some t1" "same_lists t t1"
    "tr_log_buf t1 = tr_log_buf t" "tr_log_offset t1 = tr_log_offset t"
    "tr_show_buf t1 = tr_show_buf t" "tr_show_offset t1 = tr_show_offset t"
    "tr_serialize_buf t1 = tr_serialize_buf t" "tr_trace_id t1 = tr_trace_id t"
    using INIT_SPAN_ok [of "Some a" t] s by blast
  have B1: "buffers_ok t1" using D(3) t1 by (simp add: buffers_ok_def)
  have ok1: "trace_ok t1 cs fs T F" using assms(1) t1(2) B1 by (rule trace_ok_same)
  have "tag_chain (tr_tags t1) (sp_tags s) (T a)" "tags_printable (tr_tags t1) (T a)"
    using D(2) s t1(2) by (simp_all add: tag_pools_def same_lists_def)
  from flush_tags_ok [OF this assms(2)] assms(3) obtain r1 buf where r1:
    "flush_tags (tr_tags t1) junk (sp_tags s) = Some (r1, buf)" "r1 = OB_SUCCESS \<longrightarrow> 0 \<in> set buf" by blast
  have "\<exists>r2 t2. (if r1 \<noteq> OB_SUCCESS then Some (r1, t1) else do {
      (t, len) \<leftarrow> print_span t1 a buf;
      if int (tr_log_offset t) + len \<ge> 1024 then Some (OB_ERROR, t)
      else Some (OB_SUCCESS, t\<lparr>tr_log_offset := tr_log_offset t + nat len\<rparr>) }) = Some (r2, t2)
      \<and> same_lists t1 t2 \<and> buffers_ok t2"
  proof (cases "r1 = OB_SUCCESS")
    case True
    then have "0 \<in> set buf" using r1(2) by blast
    with trace_okD(1,3,4) [OF ok1] hd(3) obtain t2 len where t2: "print_span t1 a buf = Some (t2, len)" "0 < len"
      "same_lists t1 t2" "buffers_ok t2" "tr_log_offset t2 = tr_log_offset t1"
      "tr_show_offset t2 = tr_show_offset t1" "tr_trace_id t2 = tr_trace_id t1" by (rule print_span_ok)
    then have "same_lists t1 (t2\<lparr>tr_log_offset := tr_log_offset t2 + nat len\<rparr>)"
      "int (tr_log_offset t2) + len < 1024 \<Longrightarrow> buffers_ok (t2\<lparr>tr_log_offset := tr_log_offset t2 + nat len\<rparr>)"
      by (simp_all add: same_lists_def buffers_ok_def)
    then show ?thesis using True t2 by (cases "int (tr_log_offset t2) + len \<ge> 1024") auto
  qed (use B1 in simp)
  then obtain r2 t2 where r2: "(if r1 \<noteq> OB_SUCCESS then Some (r1, t1) else do {
      (t, len) \<leftarrow> print_span t1 a buf;
      if int (tr_log_offset t) + len \<ge> 1024 then Some (OB_ERROR, t)
      else Some (OB_SUCCESS, t\<lparr>tr_log_offset := tr_log_offset t + nat len\<rparr>) }) = Some (r2, t2)"
    "same_lists t1 t2" "buffers_ok t2" by blast
  have ok2: "trace_ok t2 (a # cs0) fs T F" using trace_ok_same [OF ok1 r2(2,3)] cs by simp
  obtain s2 where s2: "tr_spans t2 a = Some s2" using ok2 hd(3) by (rule trace_ok_span)
  have step: "flush_first_span junk t = (if r2 = OB_SUCCESS \<and> sp_end s2 \<noteq> 0 then recycle_span t2 a a else Some t2)"
    unfolding flush_first_span_def using False hd(1) n s t1(1) r1(1) r2(1) s2
    by (simp split del: if_split cong: if_cong)
  show thesis
  proof (cases "r2 = OB_SUCCESS \<and> sp_end s2 \<noteq> 0")
    case True
    obtain t3 where "recycle_span t2 a a = Some t3" "trace_ok t3 cs0 (a # fs) T (rev (T a) @ F)"
      using ok2 by (rule recycle_span_ok)
    then show thesis using True step by (intro that [of t3 cs0 "a # fs" "rev (T a) @ F"]) simp_all
  next
    case False
    then show thesis using step ok2 by (intro that [of t2 "a # cs0" fs F]) auto
  qed
qed

subsection \<open>Initialisation establishes the invariant\<close>

lemma init_tags_ok:
  assumes "tr_free_tags t = None"
  shows "tag_chain (tr_tags (init_tags n t)) (tr_free_tags (init_tags n t)) (rev [0..<n])"
proof (induction n)
  case (Suc n)
  then show ?case by (simp add: Let_def flip: fun_upd_def)
qed (simp add: assms)

lemma init_tags_same:
  "tr_nodes (init_tags n t) = tr_nodes t" "tr_current (init_tags n t) = tr_current t"
  "tr_free (init_tags n t) = tr_free t" "tr_spans (init_tags n t) = tr_spans t"
  "tr_last_active (init_tags n t) = tr_last_active t" "buffers_ok (init_tags n t) = buffers_ok t"
  "tr_trace_id (init_tags n t) = tr_trace_id t"
  by (induction n) (simp_all add: Let_def buffers_ok_def)

lemma init_spans_ok:
  assumes "tr_free t = None" and "tr_spans t = Map.empty"
  shows "\<exists>h. init_spans n t = Some (t\<lparr>tr_nodes := h, tr_free := hd_or (rev [0..<n]) None,
         tr_spans := (\<lambda>a. if a < n then Some blank_span else None)\<rparr>)
     \<and> is_list h (hd_or (rev [0..<n]) None) (rev [0..<n]) \<and> (\<forall>a<n. map_option data (h a) = Some a)"
proof (induction n)
  case 0
  have "tr_spans t = (\<lambda>a. None)" using assms(2) by simp
  then have "t\<lparr>tr_nodes := tr_nodes t, tr_free := None, tr_spans := \<lambda>a. None\<rparr> = t" using assms(1) by simp
  then show ?case by (intro exI [of _ "tr_nodes t"]) (simp add: is_list_def)
next
  case (Suc n)
  then obtain h where h: "init_spans n t = Some (t\<lparr>tr_nodes := h, tr_free := hd_or (rev [0..<n]) None,
         tr_spans := (\<lambda>a. if a < n then Some blank_span else None)\<rparr>)"
    "is_list h (hd_or (rev [0..<n]) None) (rev [0..<n])" "\<forall>a<n. map_option data (h a) = Some a" by blast
  let ?h = "h(n \<mapsto> \<lparr>prev = None, nxt = None, data = n\<rparr>)"
  have "is_list ?h (hd_or (rev [0..<n]) None) (rev [0..<n])" by (rule is_list_frame [OF h(2)]) auto
  moreover have "?h n = Some \<lparr>prev = None, nxt = None, data = n\<rparr>" "n \<notin> set (rev [0..<n])" by simp_all
  ultimately obtain h2 where h2: "list_add ?h (hd_or (rev [0..<n]) None) n = Some (h2, Some n)"
    "is_list h2 (Some n) (n # rev [0..<n])" "data_of h2 (n # rev [0..<n]) = data_of ?h (n # rev [0..<n])"
    by (metis list_add_front)
  have "(\<lambda>a. if a < n then Some blank_span else None)(n \<mapsto> blank_span) = (\<lambda>a. if a < Suc n then Some blank_span else None)"
    by (auto simp: fun_eq_iff)
  moreover have "map_option data (h2 a) = Some a" if "a < Suc n" for a
    using h2(3) h(3) that by (cases "a = n") (auto simp: data_of_def)
  ultimately show ?case using h h2 by (intro exI [of _ h2]) simp
qed

lemma trace_init_ok:
  assumes "4096 \<le> length fresh"
  obtains t where "trace_init clock (Some flt) (Some fresh) ok seed = Some (if ok then OB_SUCCESS else OB_ERROR, Some t)"
    and "trace_ok t [] [3, 2, 1, 0] (\<lambda>_. []) (rev [0..<16])"
proof -
  let ?t = "init_tags 16 (empty_trace clock fresh seed)"
  have r: "rev [0..<4] = [3, 2, 1, 0 :: nat]" by (simp add: upt_rec)
  obtain h where h: "init_spans 4 ?t = Some (?t\<lparr>tr_nodes := h, tr_free := hd_or (rev [0..<4]) None,
         tr_spans := (\<lambda>a. if a < 4 then Some blank_span else None)\<rparr>)"
    "is_list h (hd_or (rev [0..<4]) None) (rev [0..<4])" "\<forall>a<4. map_option data (h a) = Some a"
    using init_spans_ok [of ?t 4] by (auto simp: init_tags_same empty_trace_def)
  define t where "t = ?t\<lparr>tr_nodes := h, tr_free := hd_or (rev [0..<4]) None,
         tr_spans := (\<lambda>a. if a < 4 then Some blank_span else None)\<rparr>"
  have "dom (\<lambda>a::nat. if a < 4 then Some blank_span else None) = {..<4}" by (auto split: if_splits)
  moreover have "{3, 2, 1, 0} = {..<4 :: nat}" by auto
  ultimately have "pools t [] [3, 2, 1, 0]" using h(2,3)
    by (simp add: t_def pools_def r init_tags_same empty_trace_def is_list_def)
  moreover have "tag_chain (tr_tags ?t) (tr_free_tags ?t) (rev [0..<16])" by (rule init_tags_ok) (simp add: empty_trace_def)
  then have "tag_pools t [] (\<lambda>_. []) (rev [0..<16])" by (simp add: t_def tag_pools_def)
  moreover have "buffers_ok t" using assms init_tags_same(6) [of 16 "empty_trace clock fresh seed"]
    by (simp add: t_def buffers_ok_def empty_trace_def)
  moreover have "sources_ok t"
    by (simp add: t_def sources_ok_def init_tags_same empty_trace_def blank_span_def split: if_splits)
  ultimately have "trace_ok t [] [3, 2, 1, 0] (\<lambda>_. []) (rev [0..<16])" by (simp add: trace_ok_def)
  moreover have "trace_init clock (Some flt) (Some fresh) ok seed = Some (if ok then OB_SUCCESS else OB_ERROR, Some t)"
    using h(1) by (simp add: trace_init_def t_def)
  ultimately show thesis using that by blast
qed

subsection \<open>Any sequence of operations\<close>

text \<open>
  The operations a connection performs on its trace.  A span is named by its address; the pointer
  a client holds may be stale, so every one of the four is allowed.
\<close>

datatype trace_op =
    BeginTrace "FLTControlInfo option"
  | EndTrace
  | BeginSpan "32 word" "8 word" bool
  | EndSpan "FLTControlInfo option" "addr option"
  | AppendTag addr "16 word" cbuf
  | ResetSpan "FLTControlInfo option"
  | FlushFirst mem
  | FlushTrace

fun run_op :: "trace_op \<Rightarrow> ObTrace \<Rightarrow> ObTrace option" where
  "run_op (BeginTrace c) t = begin_trace c t"
| "run_op EndTrace t = end_trace t"
| "run_op (BeginSpan ty l f) t = map_option snd (begin_span t ty l f)"
| "run_op (EndSpan c s) t = end_span c t s"
| "run_op (AppendTag a ty v) t = append_tag t a ty v"
| "run_op (ResetSpan c) t = reset_span c t"
| "run_op (FlushFirst junk) t = flush_first_span junk t"
| "run_op FlushTrace t = flush_trace t"

fun run_trace :: "trace_op list \<Rightarrow> ObTrace \<Rightarrow> ObTrace option" where
  "run_trace [] t = Some t"
| "run_trace (p # ps) t = do { t \<leftarrow> run_op p t; run_trace ps t }"

text \<open>
  What the callers see to: span pointers are null or point into the block, tag types are those of
  the enumeration, tag values are strings, and the stack buffer of \<^verbatim>\<open>flush_first_span\<close> happens to hold
  a terminator.
\<close>

fun op_ok :: "trace_op \<Rightarrow> bool" where
  "op_ok (EndSpan c s) \<longleftrightarrow> (case s of None \<Rightarrow> True | Some a \<Rightarrow> a < 4)"
| "op_ok (AppendTag a ty v) \<longleftrightarrow> a < 4 \<and> ty < 2 \<and> (case v of None \<Rightarrow> True | Some m \<Rightarrow> 0 \<in> set m)"
| "op_ok (FlushFirst junk) \<longleftrightarrow> length junk = 1024 \<and> 0 \<in> set junk"
| "op_ok _ \<longleftrightarrow> True"

lemma run_op_ok:
  assumes "trace_inv t" and "op_ok p"
  shows "\<exists>t'. run_op p t = Some t' \<and> trace_inv t'"
proof -
  from assms(1) obtain cs fs T F where ok: "trace_ok t cs fs T F" by (auto simp: trace_inv_def)
  show ?thesis
  proof (cases p)
    case (BeginTrace c)
    obtain t' where "begin_trace c t = Some t'" "trace_ok t' cs fs T F" using ok by (rule begin_trace_ok)
    then show ?thesis using BeginTrace by (auto simp: trace_inv_def)
  next
    case EndTrace
    obtain t' where "end_trace t = Some t'" "trace_ok t' [] (rev cs @ fs) T F" using ok by (rule end_trace_ok)
    then show ?thesis using EndTrace by (auto simp: trace_inv_def)
  next
    case (BeginSpan ty l f)
    obtain span t' cs' fs' T' F' where "begin_span t ty l f = Some (span, t')" "trace_ok t' cs' fs' T' F'"
      using ok by (rule begin_span_ok)
    then show ?thesis using BeginSpan by (auto simp: trace_inv_def)
  next
    case (EndSpan c s)
    obtain t' where "end_span c t s = Some t'" "trace_ok t' cs fs T F"
      using end_span_ok [OF ok, of s c] assms(2) EndSpan by (auto split: option.splits)
    then show ?thesis using EndSpan by (auto simp: trace_inv_def)
  next
    case (AppendTag a ty v)
    then have "a < 4" "ty < 2" and v: "\<And>m. v = Some m \<Longrightarrow> 0 \<in> set m" using assms(2) by auto
    with ok obtain t' T' F' where "append_tag t a ty v = Some t'" "trace_ok t' cs fs T' F'" by (rule append_tag_ok) blast
    then show ?thesis using AppendTag by (auto simp: trace_inv_def)
  next
    case (ResetSpan c)
    obtain t' cs' fs' where "reset_span c t = Some t'" "trace_ok t' cs' fs' T F" using ok by (rule reset_span_ok)
    then show ?thesis using ResetSpan by (auto simp: trace_inv_def)
  next
    case (FlushFirst junk)
    then have "length junk = 1024" "0 \<in> set junk" using assms(2) by simp_all
    with ok obtain t' cs' fs' F' where "flush_first_span junk t = Some t'" "trace_ok t' cs' fs' T F'"
      by (rule flush_first_span_ok)
    then show ?thesis using FlushFirst by (auto simp: trace_inv_def)
  next
    case FlushTrace
    obtain t' cs' fs' F' where "flush_trace t = Some t'" "trace_ok t' cs' fs' T F'" using ok by (rule flush_trace_ok)
    then show ?thesis using FlushTrace by (auto simp: trace_inv_def)
  qed
qed

lemma run_trace_ok:
  "trace_inv t \<Longrightarrow> list_all op_ok ps \<Longrightarrow> \<exists>t'. run_trace ps t = Some t' \<and> trace_inv t'"
proof (induction ps arbitrary: t)
  case (Cons p ps)
  obtain t1 where "run_op p t = Some t1" "trace_inv t1" using run_op_ok [OF Cons.prems(1)] Cons.prems(2) by auto
  then show ?case using Cons by auto
qed simp

subsection \<open>Properties\<close>



lemma begin_span_free:
  assumes "trace_ok t cs (a # fs) T F" and "\<not> uuid_unset (tr_trace_id t)" and "level \<le> tr_level t"
  shows "\<exists>t'. begin_span t type level follow = Some (Some a, t') \<and> trace_ok t' (a # cs) fs (T(a := [])) F
    \<and> a \<notin> set cs \<and> tr_current t' = Some a \<and> tr_last_active t' = Some a
    \<and> (\<exists>s. tr_spans t' a = Some s \<and> sp_source s = tr_last_active t \<and> sp_tags s = None \<and> sp_follow s = follow
         \<and> sp_start s = tr_clock t (tr_ticks t) \<and> sp_end s = 0)
    \<and> (\<forall>b. b \<noteq> a \<longrightarrow> tr_spans t' b = tr_spans t b) \<and> tr_trace_id t' = tr_trace_id t"
proof -
  define t2 where "t2 = t\<lparr>tr_seq := tr_seq t + 1, tr_ticks := Suc (tr_ticks t)\<rparr>"
  define s where "s = \<lparr>sp_type = ucast type, sp_id = \<lparr>low' = tr_seq t + 1, high' = 0\<rparr>,
    sp_source = tr_last_active t, sp_follow = follow, sp_start = tr_clock t (tr_ticks t), sp_end = 0, sp_tags = None\<rparr>"
  have "trace_ok t2 cs (a # fs) T F" using assms(1)
    by (simp add: t2_def trace_ok_def pools_def tag_pools_def buffers_ok_def sources_ok_def)
  then obtain n h1 h2 where n: "tr_nodes t2 a = Some n" "data n = a" "a < 4" "tr_free t2 = Some a"
    "list_delete (tr_nodes t2) (tr_free t2) a = Some (h1, hd_or fs None)"
    "list_add h1 (tr_current t2) a = Some (h2, Some a)"
    and ok: "\<And>s. sp_tags s = None \<Longrightarrow> sp_source s = tr_last_active t2 \<Longrightarrow>
      trace_ok (t2\<lparr>tr_spans := (tr_spans t2)(a \<mapsto> s), tr_last_active := Some a, tr_nodes := h2,
         tr_free := hd_or fs None, tr_current := Some a\<rparr>) (a # cs) fs (T(a := [])) F"
    by (rule take_span_ok) blast
  have nl: "\<not> tr_level t < level" using assms(3) by simp
  obtain s0 where s0: "tr_spans t a = Some s0" using assms(1) n(3) by (rule trace_ok_span)
  let ?t = "t2\<lparr>tr_spans := (tr_spans t2)(a \<mapsto> s), tr_last_active := Some a, tr_nodes := h2,
         tr_free := hd_or fs None, tr_current := Some a\<rparr>"
  have "begin_span t type level follow = Some (Some a, ?t)"
    using assms(2) nl n s0
    by (simp add: begin_span_def t2_def s_def upd_span_def get_current_time_us_def Let_def split del: if_split)
  moreover have "trace_ok ?t (a # cs) fs (T(a := [])) F" by (rule ok) (simp_all add: s_def t2_def)
  moreover have "a \<notin> set cs" using trace_okD(1) [OF assms(1)] by (auto simp: pools_def)
  ultimately show ?thesis by (intro exI [of _ ?t]) (simp add: s_def t2_def)
qed

text \<open>A trace with an identifier and no span in use, for the examples below.\<close>

lemma sample_trace:
  obtains t where "trace_ok t [] [3, 2, 1, 0] (\<lambda>_. []) (rev [0..<16])" and "\<not> uuid_unset (tr_trace_id t)" and "tr_level t = 1"
proof -
  obtain t where t: "trace_ok t [] [3, 2, 1, 0] (\<lambda>_. []) (rev [0..<16])"
    using trace_init_ok [of "replicate 4096 0"] by (metis length_replicate order_refl)
  let ?t = "t\<lparr>tr_trace_id := \<lparr>low' = 1, high' = 2\<rparr>, tr_level := 1\<rparr>"
  have "trace_ok ?t [] [3, 2, 1, 0] (\<lambda>_. []) (rev [0..<16])"
    using t by (simp add: trace_ok_def pools_def tag_pools_def buffers_ok_def sources_ok_def)
  then show thesis by (rule that) (simp_all add: uuid_unset_def)
qed



lemma release_node_keeps_tags:
  "release_node t a = Some t' \<Longrightarrow> tr_free_tags t' = tr_free_tags t \<and> tr_tags t' = tr_tags t \<and> tr_spans t' = tr_spans t"
  by (auto simp: release_node_def split: bind_splits prod.splits)

lemma reset_span_loop_tags:
  "trace_ok t cs fs T F \<Longrightarrow> \<exists>t'. reset_span_loop t = Some t' \<and> tr_free_tags t' = tr_free_tags t \<and> tr_tags t' = tr_tags t
     \<and> (\<forall>a\<in>set cs. \<exists>s. tr_spans t' a = Some s \<and> sp_tags s = None)
     \<and> (\<forall>a. a \<notin> set cs \<longrightarrow> tr_spans t' a = tr_spans t a) \<and> tr_current t' = None"
proof (induction cs arbitrary: t fs)
  case Nil
  then have "tr_current t = None" by (simp add: trace_ok_def pools_def)
  then show ?case using Nil by (subst reset_span_loop.simps) simp
next
  case (Cons a cs)
  note hd = pools_head [OF trace_okD(1) [OF Cons.prems]]
  obtain n where n: "tr_nodes t a = Some n" "data n = a" using hd(2) by blast
  obtain t1 where t1: "release_node t a = Some t1" "trace_ok t1 cs (a # fs) T F" using Cons.prems by (rule release_node_ok)
  note keep = release_node_keeps_tags [OF t1(1)]
  have na: "a \<notin> set cs" using trace_okD(1) [OF Cons.prems] by (simp add: pools_def is_list_def)
  obtain t2 where t2: "upd_span t1 a (\<lambda>s. s\<lparr>sp_tags := None\<rparr>) = Some t2" "trace_ok t2 cs (a # fs) T F"
    by (rule upd_span_ok [OF t1(2) hd(3), where f = "\<lambda>s. s\<lparr>sp_tags := None\<rparr>"]) (simp_all add: na)
  then obtain s where s: "tr_spans t1 a = Some s" "t2 = t1\<lparr>tr_spans := (tr_spans t1)(a \<mapsto> s\<lparr>sp_tags := None\<rparr>)\<rparr>"
    by (auto simp: upd_span_def split: option.splits)
  have "reset_span_loop t = reset_span_loop t2"
    using hd(1) n t1(1) t2(1) by (subst reset_span_loop.simps) simp
  moreover obtain t' where "reset_span_loop t2 = Some t'" "tr_free_tags t' = tr_free_tags t2" "tr_tags t' = tr_tags t2"
    "\<forall>a\<in>set cs. \<exists>s. tr_spans t' a = Some s \<and> sp_tags s = None" "\<forall>a. a \<notin> set cs \<longrightarrow> tr_spans t' a = tr_spans t2 a"
    "tr_current t' = None" using Cons.IH [OF t2(2)] by blast
  ultimately show ?case using s keep na by auto
qed



lemma hex_text_digits: "hex_text n w = map (\<lambda>k. hex_digit (drop_bit (4 * k) w)) (rev [0..<n])"
proof (induction n arbitrary: w)
  case (Suc n)
  have "rev [0..<Suc n] = map Suc (rev [0..<n]) @ [0]" by (simp add: map_Suc_upt upt_conv_Cons del: upt_Suc flip: rev_map)
  then show ?case by (simp add: Suc drop_bit_drop_bit ac_simps del: upt_Suc)
qed simp

lemma hex_digit_cong: "w AND 15 = v AND 15 \<Longrightarrow> hex_digit w = hex_digit v"
  by (simp add: hex_digit_def)

lemma hex_text_masked:
  assumes "4 * n \<le> k"
  shows "hex_text n (w AND mask k) = hex_text n w"
proof -
  have "hex_digit (drop_bit (4 * i) (w AND mask k)) = hex_digit (drop_bit (4 * i) w)" if "i < n" for i
  proof (rule hex_digit_cong, rule bit_word_eqI)
    fix j
    have "(15 :: 64 word) = mask 4" by (simp add: mask_eq_exp_minus_1)
    then have "bit (15 :: 64 word) j \<longleftrightarrow> j < 4" by (simp only: bit_mask_iff) auto
    then show "bit (drop_bit (4 * i) (w AND mask k) AND 15) j \<longleftrightarrow> bit (drop_bit (4 * i) w AND 15) j"
      using assms that by (auto simp: bit_and_iff bit_drop_bit_eq bit_mask_iff dest: bit_imp_le_length)
  qed
  then show ?thesis by (simp add: hex_text_digits)
qed

lemma length_uuid_text [simp]: "length (uuid_text u) = 36"
  by (simp add: uuid_text_def hex_text_digits)

text \<open>C16: \<^verbatim>\<open>tostring_OBCLIENT_UUID\<close>, which writes the digits of an identifier one by one, and the format
  \<^verbatim>\<open>UUID_PATTERN\<close> of the trace lines produce the same 36 characters; the function adds a terminator, needs 37
  bytes and moves the position by 36.\<close>

theorem tostring_uuid_eq:
  assumes "0 \<le> pos" and "pos + 37 \<le> len" and "len \<le> int (length buf)"
  shows "tostring_OBCLIENT_UUID buf len pos u = Some (OB_SUCCESS, put buf pos (uuid_text u @ [0]), pos + 36)"
proof -
  have m: "(0xffff :: 64 word) = mask 16" "(0xffffffffffff :: 64 word) = mask 48" by (simp_all add: mask_eq_exp_minus_1)
  have "hex_text 8 (drop_bit 32 w) = uuid_digits w [60, 56, 52, 48, 44, 40, 36, 32]"
    "hex_text 4 (drop_bit 48 w) = uuid_digits w [60, 56, 52, 48]" for w
    by (simp_all add: hex_text_digits uuid_digits_def upt_rec drop_bit_drop_bit)
  moreover have "hex_text 4 (drop_bit 16 w AND 0xffff) = uuid_digits w [28, 24, 20, 16]"
    "hex_text 4 (w AND 0xffff) = uuid_digits w [12, 8, 4, 0]"
    "hex_text 12 (w AND 0xffffffffffff) = uuid_digits w [44, 40, 36, 32, 28, 24, 20, 16, 12, 8, 4, 0]" for w
    unfolding m by (simp_all add: hex_text_masked) (simp_all add: hex_text_digits uuid_digits_def upt_rec drop_bit_drop_bit)
  ultimately have t: "uuid_digits (high' u) [60, 56, 52, 48, 44, 40, 36, 32] @ [45]
           @ uuid_digits (high' u) [28, 24, 20, 16] @ [45]
           @ uuid_digits (high' u) [12, 8, 4, 0] @ [45]
           @ uuid_digits (low' u) [60, 56, 52, 48] @ [45]
           @ uuid_digits (low' u) [44, 40, 36, 32, 28, 24, 20, 16, 12, 8, 4, 0] @ [0] = uuid_text u @ [0]"
    by (simp add: uuid_text_def)
  have "nat pos + 37 \<le> length buf" using assms by linarith
  then show ?thesis using assms unfolding tostring_OBCLIENT_UUID_def t by (simp add: store_bytes_def)
qed

theorem tostring_uuid_eq_witness:
  "tostring_OBCLIENT_UUID (replicate 40 0) 40 1 \<lparr>low' = 0x123, high' = 0xABC\<rparr>
     = Some (OB_SUCCESS, put (replicate 40 0) 1 (uuid_text \<lparr>low' = 0x123, high' = 0xABC\<rparr> @ [0]), 37)"
  using tostring_uuid_eq [of 1 40 "replicate 40 0"] by simp

text \<open>An identifier does not survive the wire: \<^verbatim>\<open>serialize_UUID\<close> writes 16 bytes, but reading them with
  \<^verbatim>\<open>deserialize_UUID\<close> gives the high half twice and does not move the position, because \<^verbatim>\<open>decode_i64\<close> never
  stores the new position.\<close>

theorem uuid_wire_loses_low:
  assumes "0 \<le> pos" and "pos + 16 \<le> len" and "len \<le> int (length m)" and "len < 2 ^ 31"
  shows "\<exists>m'. serialize_UUID (Some m) len pos u = Some (OB_SUCCESS, Some m', pos + 16)
    \<and> deserialize_UUID (Some m') len pos u0 = Some (OB_SUCCESS, \<lparr>low' = high' u, high' = high' u\<rparr>, pos)"
proof -
  let ?m1 = "put m pos (be_bytes64 (high' u))" and ?m = "put m pos (be_bytes64 (high' u) @ be_bytes64 (low' u))"
  have l8: "length (be_bytes64 v) = 8" for v by (simp add: be_bytes64_def)
  have "encode_i64 (Some m) len pos (high' u) = Some (OB_SUCCESS, Some ?m1, pos + 8)"
    using assms i64.write_fits [where v = "high' u" and pos = pos and len = len and m = m] by (simp add: l8)
  moreover have "encode_i64 (Some ?m1) len (pos + 8) (low' u) = Some (OB_SUCCESS, Some ?m, pos + 16)"
    using assms i64.write_fits [where v = "low' u" and pos = "pos + 8" and len = len and m = ?m1]
      put_put_adjacent [of pos "be_bytes64 (high' u)" "be_bytes64 (low' u)" m] by (simp add: l8)
  moreover have "holds_at ?m pos (be_bytes64 (high' u) @ be_bytes64 (low' u))"
    using assms by (intro holds_at_put) (simp_all add: l8)
  then have "decode_i64 (Some ?m) len pos old = Some (OB_SUCCESS, high' u, pos)" for old
    using assms by (intro decode_i64_value) (simp_all add: holds_at_append l8)
  ultimately show ?thesis by (intro exI [of _ ?m]) (simp add: serialize_UUID_def deserialize_UUID_def)
qed

theorem uuid_wire_loses_low_witness:
  "\<exists>m'. serialize_UUID (Some (replicate 16 0)) 16 0 \<lparr>low' = 5, high' = 9\<rparr> = Some (OB_SUCCESS, Some m', 16)
    \<and> deserialize_UUID (Some m') 16 0 uuid_zero = Some (OB_SUCCESS, \<lparr>low' = 9, high' = 9\<rparr>, 0)"
  using uuid_wire_loses_low [of 0 16 "replicate 16 0" "\<lparr>low' = 5, high' = 9\<rparr>" uuid_zero] by simp


definition plain :: "byte \<Rightarrow> bool" where
  "plain c \<longleftrightarrow> c \<noteq> 0 \<and> escape c = None"

lemma tag_value_loop_dropped:
  "list_all plain post \<Longrightarrow> tag_value_loop buf len pos (post @ [0]) False True ret = Some (buf, pos, ret)"
proof (induction post)
  case (Cons c post)
  then show ?case by (cases post) (simp_all add: plain_def split: option.splits)
qed simp

lemma tag_value_loop_escaped:
  assumes "escape e \<noteq> None" and "e \<noteq> 0" and "list_all plain post" and "post \<noteq> []"
  shows "tag_value_loop buf len pos (e # post @ [0]) False conv ret =
    (case put_chars buf len pos (the (escape e)) ret of None \<Rightarrow> None | Some (buf, pos, ret) \<Rightarrow> Some (buf, pos, ret))"
proof -
  from assms(3,4) obtain d post' where d: "post = d # post'" "d \<noteq> 0" by (cases post) (auto simp: plain_def)
  then have eq: "tag_value_loop b l p (d # post' @ [0]) False True r = Some (b, p, r)" for b l p r
    using tag_value_loop_dropped [OF assms(3)] by simp
  have "tag_value_loop buf len pos (e # d # post' @ [0]) False conv ret = do {
      (buf, pos, ret) \<leftarrow> put_chars buf len pos (the (escape e)) ret;
      tag_value_loop buf len pos (d # post' @ [0]) False True ret }"
    using assms(1,2) d(2) by (subst tag_value_loop.simps)
      (auto simp del: tag_value_loop.simps split: option.split bind_split)
  then show ?thesis unfolding eq d(1) by (auto split: option.split)
qed

lemma tag_value_loop_tail:
  assumes "\<And>buf pos conv ret. tag_value_loop buf len pos (x @ [0]) False conv ret = tag_value_loop buf len pos (y @ [0]) False conv ret"
    and "x = c # xs" and "y = c # ys" and "pre \<noteq> []" and "0 \<notin> set pre"
  shows "tag_value_loop buf len pos (pre @ x @ [0]) first conv ret = tag_value_loop buf len pos (pre @ y @ [0]) first conv ret"
  using assms(4,5)
proof (induction pre arbitrary: buf pos first conv ret)
  case (Cons a pre)
  have IH: "tag_value_loop buf len pos (pre @ x @ [0]) False conv ret = tag_value_loop buf len pos (pre @ y @ [0]) False conv ret" for buf pos conv ret
    using Cons.IH Cons.prems assms(1) by (cases "pre = []") (simp_all del: tag_value_loop.simps)
  have "(case pre @ x @ [0] of [] \<Rightarrow> None | d # _ \<Rightarrow> Some d) = (case pre @ y @ [0] of [] \<Rightarrow> None | d # _ \<Rightarrow> Some d)"
    by (cases pre) (simp_all add: assms(2,3))
  then show ?case by (simp add: IH cong: if_cong option.case_cong)
qed simp

text \<open>C25: \<^verbatim>\<open>tostring_ObTagCtx\<close> loses text: its flag \<^verbatim>\<open>conv\<close> is never reset, so after the first escaped character (not the
  first or the last of the value) every ordinary character is dropped.  Two values that agree up to an escaped
  character and differ in the ordinary characters behind it print the same.\<close>

theorem tag_text_drops_tail:
  assumes "pre \<noteq> []" and "0 \<notin> set pre" and "escape e \<noteq> None"
    and "list_all plain post" and "post \<noteq> []" and "list_all plain post'" and "post' \<noteq> []"
  shows "tostring_ObTagCtx buf len pos \<lparr>tag_next = p, tag_type = type, tag_data = Some (pre @ e # post @ [0])\<rparr>
    = tostring_ObTagCtx buf len pos \<lparr>tag_next = p, tag_type = type, tag_data = Some (pre @ e # post' @ [0])\<rparr>"
proof -
  have "e \<noteq> 0" using assms(3) by (auto simp: escape_def)
  then have "tag_value_loop buf len pos ((e # post) @ [0]) False conv ret = tag_value_loop buf len pos ((e # post') @ [0]) False conv ret" for buf pos conv ret
    using tag_value_loop_escaped [OF assms(3) _ assms(4,5)] tag_value_loop_escaped [OF assms(3) _ assms(6,7)] by simp
  from tag_value_loop_tail [OF this refl refl assms(1,2)]
  have "tag_value_loop buf len pos (pre @ e # post @ [0]) True False ret = tag_value_loop buf len pos (pre @ e # post' @ [0]) True False ret" for buf pos ret
    by simp
  then show ?thesis by (simp add: tostring_ObTagCtx_def Let_def cong: if_cong)
qed

theorem tag_text_drops_tail_witness:
  "tostring_ObTagCtx (replicate 64 0) 64 0 \<lparr>tag_next = None, tag_type = 0, tag_data = Some [34, 97, 10, 98, 99, 100, 0]\<rparr>
   = tostring_ObTagCtx (replicate 64 0) 64 0 \<lparr>tag_next = None, tag_type = 0, tag_data = Some [34, 97, 10, 120, 0]\<rparr>"
proof -
  have "escape 10 \<noteq> None" "list_all plain [98, 99, 100]" "list_all plain [120]"
    by (simp_all add: escape_def plain_def)
  then show ?thesis using tag_text_drops_tail [of "[34, 97]" 10 "[98, 99, 100]" "[120]"] by simp
qed

end
