(* ===== verification/FltInfo.thy ===== *)
theory FltInfo
  imports FltTrace
begin

unbundle bit_operations_syntax

section \<open>The trace information of a connection (libmariadb/ob_full_link_trace.c, FLTInfo)\<close>

text \<open>
  \<^verbatim>\<open>FLTInfo\<close> holds the six groups of trace information, the buffers they point to and the trace.
  The value that is handed to the protocol layer is a symbolic pointer: its data is null or the member
  \<^verbatim>\<open>flt_serialize_buf_\<close> of the trace.
\<close>

datatype data_ptr = NullData | SerializeBuf

record FLTValueData =
  value_data' :: data_ptr
  length' :: "64 word"

record FLTInfo =
  fl_show_trace_span :: FLTShowTraceSpan
  fl_client_span :: FLTDriverSpanInfo
  fl_control_info :: FLTControlInfo
  fl_app_info :: FLTAppInfo
  fl_query_info :: FLTQueryInfo
  fl_span_info :: FLTSpanInfo
  fl_value_data :: FLTValueData
  fl_in_trans :: bool
  fl_trace_id :: mem
  fl_span_id :: mem
  fl_trace :: "ObTrace option"

definition get_trace_instance :: "FLTInfo \<Rightarrow> ObTrace option" where
  "get_trace_instance flt = fl_trace flt"

definition flt_set_send_trans_flag :: "FLTInfo option \<Rightarrow> bool \<Rightarrow> FLTInfo option" where
  "flt_set_send_trans_flag flt flag = map_option (\<lambda>flt. flt\<lparr>fl_in_trans := flag\<rparr>) flt"

text \<open>
  The result of \<^verbatim>\<open>memset\<close> and of the assignments of \<^verbatim>\<open>flt_init\<close>.  The double -1 is given by its
  bits.
\<close>

abbreviation (input) double_minus_one :: "64 word" where "double_minus_one \<equiv> 0xBFF0000000000000"

definition flt_blank :: FLTInfo where
  "flt_blank = \<lparr>
     fl_show_trace_span = \<lparr>shw_type = FLT_TYPE_SHOW_TRACE_SPAN, client_span_json' = None\<rparr>,
     fl_client_span = \<lparr>drv_type = FLT_DRIVER_SPAN_INFO, client_span' = None\<rparr>,
     fl_control_info = \<lparr>ctl_type = FLT_CONTROL_INFO, level' = - 1, sample_pct' = double_minus_one,
       rp' = record_policy MAX_RECORD_POLICY, print_sample_pct' = double_minus_one,
       slow_query_threshold' = - 1, flt_show_trace_enable' = 0\<rparr>,
     fl_app_info = \<lparr>app_type = FLT_APP_INFO, identifier' = None, module' = None, action' = None,
       client_info' = None\<rparr>,
     fl_query_info = \<lparr>qry_type = FLT_QUERY_INFO, query_start_timestamp' = 0, query_end_timestamp' = 0\<rparr>,
     fl_span_info = \<lparr>spn_type = FLT_SPAN_INFO, spn_trace_enable = 0, spn_force_print = 0,
       spn_trace_id = None, ref_type' = 0, spn_span_id = None\<rparr>,
     fl_value_data = \<lparr>value_data' = NullData, length' = 0\<rparr>,
     fl_in_trans = False, fl_trace_id = replicate 16 0, fl_span_id = replicate 16 0, fl_trace = None\<rparr>"

definition flt_init ::
  "(nat \<Rightarrow> 64 word) \<Rightarrow> mem option \<Rightarrow> bool \<Rightarrow> 64 word \<times> 64 word \<Rightarrow> FLTInfo option \<Rightarrow> (int \<times> FLTInfo option) option" where
  "flt_init clock malloc urandom_ok seed flt = (case flt of
     None \<Rightarrow> Some (OB_SUCCESS, None)
   | Some _ \<Rightarrow> do {
       (ret, t) \<leftarrow> trace_init clock (Some flt_blank) malloc urandom_ok seed;
       Some (ret, Some (flt_blank\<lparr>fl_trace := t\<rparr>)) })"

definition flt_end :: "FLTInfo \<Rightarrow> FLTInfo" where
  "flt_end flt = flt\<lparr>fl_trace := trace_end (fl_trace flt)\<rparr>"

end
