(* ===== verification/ObCrc.thy ===== *)
theory ObCrc
  imports Prelude
begin

unbundle bit_operations_syntax

section \<open>Checksums (libmariadb/ob_protocol20.c and libmariadb/mariadb_stmt.c)\<close>

text \<open>
  The header of an OB 2.0 packet carries a CRC-16, its payload a CRC-32C.  Both are computed
  byte by byte with a table of 256 entries.  The reference is the shift register of the
  polynomial, one bit at a time; the locale \<open>crc_table\<close> proves once, for any register width
  and reflected polynomial, that a table with the right entries computes the register and that
  the result separates messages that differ in one byte.  It is interpreted on the two tables
  of the source.

  The dispatch to the SSE4.2 instruction takes the assembler routine and the cpuid bit as
  parameters.
\<close>

subsection \<open>The reference shift register\<close>

definition crc_bit :: "'a::len word \<Rightarrow> 'a word \<Rightarrow> 'a word" where
  "crc_bit poly c = (if bit c 0 then poly XOR drop_bit 1 c else drop_bit 1 c)"

definition crc_shift_byte :: "'a::len word \<Rightarrow> 'a word \<Rightarrow> byte \<Rightarrow> 'a word" where
  "crc_shift_byte poly c b = (crc_bit poly ^^ 8) (c XOR ucast b)"

definition below_bit :: "nat \<Rightarrow> 'a::len word \<Rightarrow> bool" where
  "below_bit w c \<longleftrightarrow> (\<forall>i. bit c i \<longrightarrow> i < w)"

lemma bit_crc_bit:
  "bit (crc_bit poly c) i \<longleftrightarrow> (bit c (Suc i) \<noteq> (bit c 0 \<and> bit poly i))"
  by (auto simp: crc_bit_def bit_xor_iff bit_drop_bit_eq)

lemma crc_bit_xor: "crc_bit poly (x XOR y) = crc_bit poly x XOR crc_bit poly y"
  by (rule bit_eqI) (auto simp: bit_crc_bit bit_xor_iff)

lemma crc_bit_pow_xor: "(crc_bit poly ^^ n) (x XOR y) = (crc_bit poly ^^ n) x XOR (crc_bit poly ^^ n) y"
  by (induction n) (simp_all add: crc_bit_xor)

lemma crc_bit_pow_high:
  assumes "\<And>i. i < n \<Longrightarrow> \<not> bit c i"
  shows "(crc_bit poly ^^ n) c = drop_bit n c"
  using assms
proof (induction n)
  case (Suc n)
  then have "(crc_bit poly ^^ n) c = drop_bit n c" and "\<not> bit c n" by simp_all
  then show ?case
    by (simp add: crc_bit_def [of poly "drop_bit n c"] bit_drop_bit_eq drop_bit_drop_bit)
qed simp

lemma crc_bit_pow8:
  "(crc_bit poly ^^ 8) c =
   crc_bit poly (crc_bit poly (crc_bit poly (crc_bit poly (crc_bit poly (crc_bit poly (crc_bit poly (crc_bit poly c)))))))"
  by (simp add: numeral_eq_Suc)

text \<open>The loop of the comment in \<^verbatim>\<open>crc64_sse42_manually\<close> that fills a table, run against a given list.\<close>

primrec crc_entries :: "'a::len word \<Rightarrow> 'a word \<Rightarrow> 'a word list \<Rightarrow> bool" where
  "crc_entries poly n [] \<longleftrightarrow> True"
| "crc_entries poly n (x # xs) \<longleftrightarrow>
     crc_bit poly (crc_bit poly (crc_bit poly (crc_bit poly (crc_bit poly (crc_bit poly (crc_bit poly (crc_bit poly n))))))) = x \<and> crc_entries poly (n + 1) xs"

lemma crc_entries_nth:
  "crc_entries poly n xs \<Longrightarrow> i < length xs \<Longrightarrow> xs ! i = (crc_bit poly ^^ 8) (n + of_nat i)"
proof (induction xs arbitrary: n i)
  case (Cons x xs)
  show ?case
  proof (cases i)
    case 0
    with Cons.prems show ?thesis by (simp add: crc_bit_pow8)
  next
    case (Suc j)
    with Cons.prems Cons.IH [of "n + 1" j] show ?thesis by (simp add: ac_simps)
  qed
qed simp

lemma xor_eq_cancel: "x XOR z = y XOR (z :: 'a::len word) \<longleftrightarrow> x = y"
  by (metis xor.assoc xor.right_neutral xor_self_eq)

lemma split_low_high: "c = (c AND 0xFF) XOR (push_bit 8 (drop_bit 8 c) :: 'a::len word)"
proof -
  have m: "(0xFF :: 'a word) = mask 8" by (simp add: mask_eq_exp_minus_1)
  show ?thesis
    unfolding m by (rule bit_eqI) (auto simp: bit_simps)
qed

lemma unat_and_255: "unat ((c :: 'a::len word) AND 0xFF) < 256"
proof -
  have "c AND 0xFF = take_bit 8 c"
    by (simp add: take_bit_eq_mask mask_eq_exp_minus_1)
  then have "unat (c AND 0xFF) = take_bit 8 (unat c)"
    by (simp add: unsigned_take_bit_eq)
  then show ?thesis using take_bit_nat_less_exp [of 8 "unat c"] by simp
qed

lemma crc_shift_byte_eval:
  "crc_shift_byte poly c b =
   crc_bit poly (crc_bit poly (crc_bit poly (crc_bit poly (crc_bit poly (crc_bit poly (crc_bit poly (crc_bit poly (c XOR ucast b))))))))"
  by (simp only: crc_shift_byte_def crc_bit_pow8)

subsection \<open>Table-driven computation\<close>

locale crc_table =
  fixes poly :: "'a::len word" and tab :: "'a word list" and w :: nat
  assumes tab_entry: "n < 256 \<Longrightarrow> tab ! n = (crc_bit poly ^^ 8) (of_nat n)"
    and w_len: "w \<le> LENGTH('a)" and w_byte: "8 \<le> w"
    and poly_top: "bit poly (w - 1)" and poly_below: "below_bit w poly"
begin

lemma tab_low: "tab ! unat (c AND 0xFF) = (crc_bit poly ^^ 8) (c AND 0xFF)"
  using tab_entry [OF unat_and_255, of c] by simp

lemma tab_step: "tab ! unat ((c XOR ucast b) AND 0xFF) XOR drop_bit 8 c = crc_shift_byte poly c b"
proof -
  let ?x = "c XOR (ucast b :: 'a word)"
  have "(crc_bit poly ^^ 8) (push_bit 8 (drop_bit 8 ?x)) = drop_bit 8 (push_bit 8 (drop_bit 8 ?x))"
    by (rule crc_bit_pow_high) (simp add: bit_simps)
  also have "\<dots> = drop_bit 8 c"
    by (rule bit_eqI) (auto simp: bit_simps dest: bit_imp_le_length)
  finally have "(crc_bit poly ^^ 8) ((?x AND 0xFF) XOR push_bit 8 (drop_bit 8 ?x)) =
      tab ! unat (?x AND 0xFF) XOR drop_bit 8 c"
    by (simp only: crc_bit_pow_xor tab_low)
  then show ?thesis by (simp only: crc_shift_byte_def flip: split_low_high)
qed

lemma crc_bit_below: "below_bit w c \<Longrightarrow> below_bit w (crc_bit poly c)"
  using poly_below by (auto simp: below_bit_def bit_crc_bit)

lemma crc_bit_inj:
  assumes "below_bit w x" and "below_bit w y" and eq: "crc_bit poly x = crc_bit poly y"
  shows "x = y"
proof -
  have w: "Suc (w - 1) = w" using w_byte by simp
  have top: "bit (crc_bit poly c) (w - 1) = bit c 0" if "below_bit w c" for c :: "'a word"
    using that poly_top by (auto simp: bit_crc_bit below_bit_def w)
  have b0: "bit x 0 = bit y 0" using top assms by metis
  have "bit x (Suc i) = bit y (Suc i)" for i
    using eq b0 by (metis bit_crc_bit)
  with b0 have "bit x i = bit y i" for i by (cases i) auto
  then show ?thesis by (rule bit_eqI)
qed

lemma crc_pow_below: "below_bit w c \<Longrightarrow> below_bit w ((crc_bit poly ^^ n) c)"
  by (induction n) (simp_all add: crc_bit_below)

lemma crc_pow_inj:
  "below_bit w x \<Longrightarrow> below_bit w y \<Longrightarrow> (crc_bit poly ^^ n) x = (crc_bit poly ^^ n) y \<Longrightarrow> x = y"
proof (induction n)
  case (Suc n)
  from Suc.prems(3) have "crc_bit poly ((crc_bit poly ^^ n) x) = crc_bit poly ((crc_bit poly ^^ n) y)"
    by simp
  then have "(crc_bit poly ^^ n) x = (crc_bit poly ^^ n) y"
    by (rule crc_bit_inj [OF crc_pow_below [OF Suc.prems(1)] crc_pow_below [OF Suc.prems(2)]])
  with Suc.prems(1,2) show ?case by (rule Suc.IH)
qed simp

lemma byte_below: "below_bit w (ucast (b :: byte) :: 'a word)"
  using w_byte by (auto simp: below_bit_def bit_simps dest: bit_imp_le_length)

lemma below_xor: "below_bit w x \<Longrightarrow> below_bit w y \<Longrightarrow> below_bit w (x XOR y)"
  by (auto simp: below_bit_def bit_xor_iff)

lemma shift_byte_below: "below_bit w c \<Longrightarrow> below_bit w (crc_shift_byte poly c b)"
  unfolding crc_shift_byte_def by (intro crc_pow_below below_xor byte_below)

lemma shift_byte_inj:
  assumes "below_bit w c" and "below_bit w d" and "crc_shift_byte poly c a = crc_shift_byte poly d b"
  shows "c XOR ucast a = d XOR ucast b"
  using assms unfolding crc_shift_byte_def by (rule_tac crc_pow_inj [of _ _ 8]) (simp_all add: below_xor byte_below)

lemma fold_below: "below_bit w c \<Longrightarrow> below_bit w (fold (\<lambda>b c. crc_shift_byte poly c b) bs c)"
  by (induction bs arbitrary: c) (simp_all add: shift_byte_below)

lemma fold_inj:
  "below_bit w c \<Longrightarrow> below_bit w d \<Longrightarrow>
   fold (\<lambda>b c. crc_shift_byte poly c b) bs c = fold (\<lambda>b c. crc_shift_byte poly c b) bs d \<Longrightarrow> c = d"
proof (induction bs arbitrary: c d)
  case (Cons b bs)
  from Cons.prems(3) have "crc_shift_byte poly c b = crc_shift_byte poly d b"
    by (intro Cons.IH [OF shift_byte_below [OF Cons.prems(1)] shift_byte_below [OF Cons.prems(2)]]) simp
  from shift_byte_inj [OF Cons.prems(1,2) this] show ?case by (simp only: xor_eq_cancel)
qed simp

lemma fold_byte_differs:
  assumes c: "below_bit w c" and ne: "a \<noteq> b"
  shows "fold (\<lambda>b c. crc_shift_byte poly c b) (xs @ a # ys) c \<noteq>
         fold (\<lambda>b c. crc_shift_byte poly c b) (xs @ b # ys) c"
proof
  let ?f = "\<lambda>b c. crc_shift_byte poly c b"
  let ?d = "fold ?f xs c"
  assume "fold ?f (xs @ a # ys) c = fold ?f (xs @ b # ys) c"
  then have e: "fold ?f ys (crc_shift_byte poly ?d a) = fold ?f ys (crc_shift_byte poly ?d b)" by simp
  have d: "below_bit w ?d" by (rule fold_below [OF c])
  have "crc_shift_byte poly ?d a = crc_shift_byte poly ?d b"
    by (rule fold_inj [OF shift_byte_below [OF d] shift_byte_below [OF d] e])
  from shift_byte_inj [OF d d this] have "(ucast a :: 'a word) = ucast b"
    by (metis xor.commute xor_eq_cancel)
  moreover have "8 \<le> LENGTH('a)" using w_len w_byte by simp
  ultimately have "bit a i = bit b i" if "i < 8" for i
    using that by (auto simp: bit_ucast_iff dest!: arg_cong [where f = "\<lambda>x. bit x i"])
  then have "a = b" by (intro bit_word_eqI) simp
  with ne show False by simp
qed

end

subsection \<open>CRC-16 (\<^verbatim>\<open>ob_crc16\<close>)\<close>

definition ob_crc16_table :: "16 word list" where
  "ob_crc16_table = [
    0x0000, 0xC0C1, 0xC181, 0x0140, 0xC301, 0x03C0, 0x0280, 0xC241, 0xC601, 0x06C0, 0x0780, 0xC741,
    0x0500, 0xC5C1, 0xC481, 0x0440, 0xCC01, 0x0CC0, 0x0D80, 0xCD41, 0x0F00, 0xCFC1, 0xCE81, 0x0E40,
    0x0A00, 0xCAC1, 0xCB81, 0x0B40, 0xC901, 0x09C0, 0x0880, 0xC841, 0xD801, 0x18C0, 0x1980, 0xD941,
    0x1B00, 0xDBC1, 0xDA81, 0x1A40, 0x1E00, 0xDEC1, 0xDF81, 0x1F40, 0xDD01, 0x1DC0, 0x1C80, 0xDC41,
    0x1400, 0xD4C1, 0xD581, 0x1540, 0xD701, 0x17C0, 0x1680, 0xD641, 0xD201, 0x12C0, 0x1380, 0xD341,
    0x1100, 0xD1C1, 0xD081, 0x1040, 0xF001, 0x30C0, 0x3180, 0xF141, 0x3300, 0xF3C1, 0xF281, 0x3240,
    0x3600, 0xF6C1, 0xF781, 0x3740, 0xF501, 0x35C0, 0x3480, 0xF441, 0x3C00, 0xFCC1, 0xFD81, 0x3D40,
    0xFF01, 0x3FC0, 0x3E80, 0xFE41, 0xFA01, 0x3AC0, 0x3B80, 0xFB41, 0x3900, 0xF9C1, 0xF881, 0x3840,
    0x2800, 0xE8C1, 0xE981, 0x2940, 0xEB01, 0x2BC0, 0x2A80, 0xEA41, 0xEE01, 0x2EC0, 0x2F80, 0xEF41,
    0x2D00, 0xEDC1, 0xEC81, 0x2C40, 0xE401, 0x24C0, 0x2580, 0xE541, 0x2700, 0xE7C1, 0xE681, 0x2640,
    0x2200, 0xE2C1, 0xE381, 0x2340, 0xE101, 0x21C0, 0x2080, 0xE041, 0xA001, 0x60C0, 0x6180, 0xA141,
    0x6300, 0xA3C1, 0xA281, 0x6240, 0x6600, 0xA6C1, 0xA781, 0x6740, 0xA501, 0x65C0, 0x6480, 0xA441,
    0x6C00, 0xACC1, 0xAD81, 0x6D40, 0xAF01, 0x6FC0, 0x6E80, 0xAE41, 0xAA01, 0x6AC0, 0x6B80, 0xAB41,
    0x6900, 0xA9C1, 0xA881, 0x6840, 0x7800, 0xB8C1, 0xB981, 0x7940, 0xBB01, 0x7BC0, 0x7A80, 0xBA41,
    0xBE01, 0x7EC0, 0x7F80, 0xBF41, 0x7D00, 0xBDC1, 0xBC81, 0x7C40, 0xB401, 0x74C0, 0x7580, 0xB541,
    0x7700, 0xB7C1, 0xB681, 0x7640, 0x7200, 0xB2C1, 0xB381, 0x7340, 0xB101, 0x71C0, 0x7080, 0xB041,
    0x5000, 0x90C1, 0x9181, 0x5140, 0x9301, 0x53C0, 0x5280, 0x9241, 0x9601, 0x56C0, 0x5780, 0x9741,
    0x5500, 0x95C1, 0x9481, 0x5440, 0x9C01, 0x5CC0, 0x5D80, 0x9D41, 0x5F00, 0x9FC1, 0x9E81, 0x5E40,
    0x5A00, 0x9AC1, 0x9B81, 0x5B40, 0x9901, 0x59C0, 0x5880, 0x9841, 0x8801, 0x48C0, 0x4980, 0x8941,
    0x4B00, 0x8BC1, 0x8A81, 0x4A40, 0x4E00, 0x8EC1, 0x8F81, 0x4F40, 0x8D01, 0x4DC0, 0x4C80, 0x8C41,
    0x4400, 0x84C1, 0x8581, 0x4540, 0x8701, 0x47C0, 0x4680, 0x8641, 0x8201, 0x42C0, 0x4380, 0x8341,
    0x4100, 0x81C1, 0x8081, 0x4040]"

definition ob_crc16_byte :: "16 word \<Rightarrow> byte \<Rightarrow> 16 word" where
  "ob_crc16_byte crc data =
     drop_bit 8 crc XOR ob_crc16_table ! unat ((crc XOR ucast data) AND 0xFF)"

text \<open>\<^verbatim>\<open>while (len--)\<close>: a negative length runs off the end of the object.\<close>

function ob_crc16 :: "16 word \<Rightarrow> mem \<Rightarrow> int \<Rightarrow> int \<Rightarrow> 16 word option" where
  "ob_crc16 crc m a len =
     (if len = 0 then Some crc
      else case load_byte m a of None \<Rightarrow> None
           | Some b \<Rightarrow> ob_crc16 (ob_crc16_byte crc b) m (a + 1) (len - 1))"
  by auto
termination
  by (relation "measure (\<lambda>(crc, m, a, len). length m - nat a)") (auto simp: load_byte_def split: if_splits)

declare ob_crc16.simps [simp del]

lemma ob_crc16_table_entries: "crc_entries 0xA001 0 ob_crc16_table"
  by (simp add: ob_crc16_table_def crc_bit_def)

lemma length_ob_crc16_table: "length ob_crc16_table = 256"
  by (simp add: ob_crc16_table_def)

interpretation crc16: crc_table "0xA001" ob_crc16_table 16
proof
  show "ob_crc16_table ! n = (crc_bit 0xA001 ^^ 8) (of_nat n)" if "n < 256" for n
    using crc_entries_nth [OF ob_crc16_table_entries, of n] that by (simp add: length_ob_crc16_table)
  show "bit (0xA001 :: 16 word) (16 - 1)" by simp
  show "below_bit 16 (0xA001 :: 16 word)" by (auto simp: below_bit_def dest: bit_imp_le_length)
qed simp_all

subsection \<open>CRC-32C (\<^verbatim>\<open>ob_crc32\<close>, \<^verbatim>\<open>ob_crc64\<close>)\<close>

definition crc32tab :: "32 word list" where
  "crc32tab = [
    0x00000000, 0xF26B8303, 0xE13B70F7, 0x1350F3F4, 0xC79A971F, 0x35F1141C, 0x26A1E7E8, 0xD4CA64EB,
    0x8AD958CF, 0x78B2DBCC, 0x6BE22838, 0x9989AB3B, 0x4D43CFD0, 0xBF284CD3, 0xAC78BF27, 0x5E133C24,
    0x105EC76F, 0xE235446C, 0xF165B798, 0x030E349B, 0xD7C45070, 0x25AFD373, 0x36FF2087, 0xC494A384,
    0x9A879FA0, 0x68EC1CA3, 0x7BBCEF57, 0x89D76C54, 0x5D1D08BF, 0xAF768BBC, 0xBC267848, 0x4E4DFB4B,
    0x20BD8EDE, 0xD2D60DDD, 0xC186FE29, 0x33ED7D2A, 0xE72719C1, 0x154C9AC2, 0x061C6936, 0xF477EA35,
    0xAA64D611, 0x580F5512, 0x4B5FA6E6, 0xB93425E5, 0x6DFE410E, 0x9F95C20D, 0x8CC531F9, 0x7EAEB2FA,
    0x30E349B1, 0xC288CAB2, 0xD1D83946, 0x23B3BA45, 0xF779DEAE, 0x05125DAD, 0x1642AE59, 0xE4292D5A,
    0xBA3A117E, 0x4851927D, 0x5B016189, 0xA96AE28A, 0x7DA08661, 0x8FCB0562, 0x9C9BF696, 0x6EF07595,
    0x417B1DBC, 0xB3109EBF, 0xA0406D4B, 0x522BEE48, 0x86E18AA3, 0x748A09A0, 0x67DAFA54, 0x95B17957,
    0xCBA24573, 0x39C9C670, 0x2A993584, 0xD8F2B687, 0x0C38D26C, 0xFE53516F, 0xED03A29B, 0x1F682198,
    0x5125DAD3, 0xA34E59D0, 0xB01EAA24, 0x42752927, 0x96BF4DCC, 0x64D4CECF, 0x77843D3B, 0x85EFBE38,
    0xDBFC821C, 0x2997011F, 0x3AC7F2EB, 0xC8AC71E8, 0x1C661503, 0xEE0D9600, 0xFD5D65F4, 0x0F36E6F7,
    0x61C69362, 0x93AD1061, 0x80FDE395, 0x72966096, 0xA65C047D, 0x5437877E, 0x4767748A, 0xB50CF789,
    0xEB1FCBAD, 0x197448AE, 0x0A24BB5A, 0xF84F3859, 0x2C855CB2, 0xDEEEDFB1, 0xCDBE2C45, 0x3FD5AF46,
    0x7198540D, 0x83F3D70E, 0x90A324FA, 0x62C8A7F9, 0xB602C312, 0x44694011, 0x5739B3E5, 0xA55230E6,
    0xFB410CC2, 0x092A8FC1, 0x1A7A7C35, 0xE811FF36, 0x3CDB9BDD, 0xCEB018DE, 0xDDE0EB2A, 0x2F8B6829,
    0x82F63B78, 0x709DB87B, 0x63CD4B8F, 0x91A6C88C, 0x456CAC67, 0xB7072F64, 0xA457DC90, 0x563C5F93,
    0x082F63B7, 0xFA44E0B4, 0xE9141340, 0x1B7F9043, 0xCFB5F4A8, 0x3DDE77AB, 0x2E8E845F, 0xDCE5075C,
    0x92A8FC17, 0x60C37F14, 0x73938CE0, 0x81F80FE3, 0x55326B08, 0xA759E80B, 0xB4091BFF, 0x466298FC,
    0x1871A4D8, 0xEA1A27DB, 0xF94AD42F, 0x0B21572C, 0xDFEB33C7, 0x2D80B0C4, 0x3ED04330, 0xCCBBC033,
    0xA24BB5A6, 0x502036A5, 0x4370C551, 0xB11B4652, 0x65D122B9, 0x97BAA1BA, 0x84EA524E, 0x7681D14D,
    0x2892ED69, 0xDAF96E6A, 0xC9A99D9E, 0x3BC21E9D, 0xEF087A76, 0x1D63F975, 0x0E330A81, 0xFC588982,
    0xB21572C9, 0x407EF1CA, 0x532E023E, 0xA145813D, 0x758FE5D6, 0x87E466D5, 0x94B49521, 0x66DF1622,
    0x38CC2A06, 0xCAA7A905, 0xD9F75AF1, 0x2B9CD9F2, 0xFF56BD19, 0x0D3D3E1A, 0x1E6DCDEE, 0xEC064EED,
    0xC38D26C4, 0x31E6A5C7, 0x22B65633, 0xD0DDD530, 0x0417B1DB, 0xF67C32D8, 0xE52CC12C, 0x1747422F,
    0x49547E0B, 0xBB3FFD08, 0xA86F0EFC, 0x5A048DFF, 0x8ECEE914, 0x7CA56A17, 0x6FF599E3, 0x9D9E1AE0,
    0xD3D3E1AB, 0x21B862A8, 0x32E8915C, 0xC083125F, 0x144976B4, 0xE622F5B7, 0xF5720643, 0x07198540,
    0x590AB964, 0xAB613A67, 0xB831C993, 0x4A5A4A90, 0x9E902E7B, 0x6CFBAD78, 0x7FAB5E8C, 0x8DC0DD8F,
    0xE330A81A, 0x115B2B19, 0x020BD8ED, 0xF0605BEE, 0x24AA3F05, 0xD6C1BC06, 0xC5914FF2, 0x37FACCF1,
    0x69E9F0D5, 0x9B8273D6, 0x88D28022, 0x7AB90321, 0xAE7367CA, 0x5C18E4C9, 0x4F48173D, 0xBD23943E,
    0xF36E6F75, 0x0105EC76, 0x12551F82, 0xE03E9C81, 0x34F4F86A, 0xC69F7B69, 0xD5CF889D, 0x27A40B9E,
    0x79B737BA, 0x8BDCB4B9, 0x988C474D, 0x6AE7C44E, 0xBE2DA0A5, 0x4C4623A6, 0x5F16D052, 0xAD7D5351]"

function crc64_sse42_loop :: "64 word \<Rightarrow> mem \<Rightarrow> int \<Rightarrow> int \<Rightarrow> 64 word option" where
  "crc64_sse42_loop crc m i len =
     (if i < len
      then case load_byte m i of None \<Rightarrow> None
           | Some b \<Rightarrow>
               crc64_sse42_loop
                 (ucast (crc32tab ! unat ((crc XOR scast b) AND 0xFF)) XOR drop_bit 8 crc) m (i + 1) len
      else Some crc)"
  by auto
termination
  by (relation "measure (\<lambda>(crc, m, i, len). length m - nat i)") (auto simp: load_byte_def split: if_splits)

declare crc64_sse42_loop.simps [simp del]

definition crc64_sse42_manually :: "64 word \<Rightarrow> mem \<Rightarrow> int \<Rightarrow> 64 word option" where
  "crc64_sse42_manually crc buf len = crc64_sse42_loop crc buf 0 len"

text \<open>The second parameter is bit 20 of the register \<^verbatim>\<open>c\<close> that cpuid returns, the first the
  assembler routine \<^verbatim>\<open>crc64_sse42\<close>.\<close>

definition crc64_sse42_dispatch ::
  "(64 word \<Rightarrow> mem \<Rightarrow> int \<Rightarrow> 64 word option) \<Rightarrow> bool \<Rightarrow> 64 word \<Rightarrow> mem \<Rightarrow> int \<Rightarrow> 64 word option" where
  "crc64_sse42_dispatch crc64_sse42 has_sse42 crc buf len =
     (if has_sse42 then crc64_sse42 crc buf len else crc64_sse42_manually crc buf len)"

definition ob_crc32 ::
  "(64 word \<Rightarrow> mem \<Rightarrow> int \<Rightarrow> 64 word option) \<Rightarrow> bool \<Rightarrow> 64 word \<Rightarrow> mem \<Rightarrow> int \<Rightarrow> 32 word option" where
  "ob_crc32 crc64_sse42 has_sse42 crc buf len =
     map_option (\<lambda>c. ucast (c AND 0xFFFFFFFF)) (crc64_sse42_dispatch crc64_sse42 has_sse42 crc buf len)"

definition ob_crc64 ::
  "(64 word \<Rightarrow> mem \<Rightarrow> int \<Rightarrow> 64 word option) \<Rightarrow> bool \<Rightarrow> 64 word \<Rightarrow> mem \<Rightarrow> int \<Rightarrow> 64 word option" where
  "ob_crc64 crc64_sse42 has_sse42 crc buf len = crc64_sse42_dispatch crc64_sse42 has_sse42 crc buf len"

lemma crc32tab_entries: "crc_entries (0x82F63B78 :: 64 word) 0 (map ucast crc32tab)"
  by (simp add: crc32tab_def crc_bit_def)

lemma length_crc32tab: "length crc32tab = 256"
  by (simp add: crc32tab_def)

interpretation crc32: crc_table "0x82F63B78 :: 64 word" "map ucast crc32tab" 32
proof
  show "map ucast crc32tab ! n = (crc_bit (0x82F63B78 :: 64 word) ^^ 8) (of_nat n)" if "n < 256" for n
    using crc_entries_nth [OF crc32tab_entries, of n] that by (simp add: length_crc32tab)
  show "bit (0x82F63B78 :: 64 word) (32 - 1)" by simp
  have "(0x82F63B78 :: 64 word) = take_bit 32 0x82F63B78" by simp
  then show "below_bit 32 (0x82F63B78 :: 64 word)"
    unfolding below_bit_def by (metis bit_take_bit_iff)
qed simp_all

subsection \<open>What the checksums guarantee\<close>

abbreviation crc16_ref :: "mem \<Rightarrow> 16 word \<Rightarrow> 16 word" where
  "crc16_ref \<equiv> fold (\<lambda>b c. crc_shift_byte 0xA001 c b)"

abbreviation crc32_ref :: "mem \<Rightarrow> 64 word \<Rightarrow> 64 word" where
  "crc32_ref \<equiv> fold (\<lambda>b c. crc_shift_byte 0x82F63B78 c b)"

lemma ob_crc16_byte_eq: "ob_crc16_byte crc b = crc_shift_byte 0xA001 crc b"
  using crc16.tab_step [of crc b] by (simp add: ob_crc16_byte_def xor.commute)

lemma ob_crc16_eq: "load_bytes m a n = Some bs \<Longrightarrow> ob_crc16 crc m a (int n) = Some (crc16_ref bs crc)"
proof (induction n arbitrary: a bs crc)
  case 0
  then show ?case by (subst ob_crc16.simps) (auto dest: load_bytes_0)
next
  case (Suc n)
  from Suc.prems obtain b bs' where "bs = b # bs'" "load_byte m a = Some b" "load_bytes m (a + 1) n = Some bs'"
    by (rule load_bytes_SucD)
  with Suc.IH [of "a + 1" bs'] show ?case
    by (subst ob_crc16.simps) (simp add: ob_crc16_byte_eq)
qed

lemma crc64_step_eq:
  "ucast (crc32tab ! unat ((crc XOR scast b) AND 0xFF)) XOR drop_bit 8 crc = crc_shift_byte (0x82F63B78 :: 64 word) crc b"
proof -
  have m: "(0xFF :: 64 word) = mask 8" by (simp add: mask_eq_exp_minus_1)
  have i: "(crc XOR scast b) AND 0xFF = (crc XOR ucast b) AND 0xFF"
    unfolding m by (rule bit_eqI) (auto simp: bit_simps min_absorb2)
  have "unat ((crc XOR ucast b) AND 0xFF) < length crc32tab"
    unfolding length_crc32tab by (rule unat_and_255)
  then show ?thesis
    using crc32.tab_step [of crc b] by (simp add: i)
qed

lemma crc64_loop_eq:
  "load_bytes m i n = Some bs \<Longrightarrow> crc64_sse42_loop crc m i (i + int n) = Some (crc32_ref bs crc)"
proof (induction n arbitrary: i bs crc)
  case 0
  then show ?case by (subst crc64_sse42_loop.simps) (auto dest: load_bytes_0)
next
  case (Suc n)
  from Suc.prems obtain b bs' where *: "bs = b # bs'" "load_byte m i = Some b" "load_bytes m (i + 1) n = Some bs'"
    by (rule load_bytes_SucD)
  have "i + 1 + int n = i + int (Suc n)" by simp
  with * Suc.IH [of "i + 1" bs'] show ?case
    by (subst crc64_sse42_loop.simps) (simp add: crc64_step_eq)
qed

lemma crc64_manually_eq:
  "n \<le> length m \<Longrightarrow> crc64_sse42_manually crc m (int n) = Some (crc32_ref (take n m) crc)"
  using crc64_loop_eq [of m 0 n "take n m" crc] by (simp add: crc64_sse42_manually_def load_bytes_def)

lemma below_bit_0 [simp]: "below_bit w 0"
  by (simp add: below_bit_def)

lemma below_bit_mask: "below_bit 32 c \<Longrightarrow> c AND 0xFFFFFFFF = (c :: 64 word)"
proof -
  assume c: "below_bit 32 c"
  have m: "(0xFFFFFFFF :: 64 word) = mask 32" by (simp add: mask_eq_exp_minus_1)
  show ?thesis unfolding m using c by (intro bit_eqI) (auto simp: bit_simps below_bit_def)
qed

lemma ucast_below_inj:
  assumes "below_bit 32 c" and "below_bit 32 d" and "(ucast c :: 32 word) = ucast (d :: 64 word)"
  shows "c = d"
proof (rule bit_eqI)
  fix i
  have "bit (ucast c :: 32 word) i = bit (ucast d :: 32 word) i" using assms(3) by simp
  with assms(1,2) show "bit c i = bit d i" by (auto simp: bit_simps below_bit_def)
qed

text \<open>C33: \<^verbatim>\<open>ob_crc16\<close> computes the shift register of the reflected polynomial 0xA001 over any
  region of a buffer, from any start value, and no change of a single byte of the region keeps
  the checksum.\<close>

theorem crc16_detects_byte:
  assumes "0 \<le> a" and "nat a + n \<le> length m" and "i < n" and "b \<noteq> m ! (nat a + i)"
  shows "ob_crc16 crc m a (int n) = Some (crc16_ref (take n (drop (nat a) m)) crc) \<and>
         ob_crc16 crc (m[nat a + i := b]) a (int n) \<noteq> ob_crc16 crc m a (int n)"
proof -
  obtain xs ys where t: "take n (drop (nat a) m) = xs @ m ! (nat a + i) # ys"
    and l: "load_bytes m a n = Some (xs @ m ! (nat a + i) # ys)"
    and l': "load_bytes (m[nat a + i := b]) a n = Some (xs @ b # ys)"
    by (rule load_bytes_update [OF assms(1-3)])
  have c: "below_bit 16 crc" by (auto simp: below_bit_def dest: bit_imp_le_length)
  show ?thesis
    using crc16.fold_byte_differs [OF c assms(4), of xs ys]
    by (simp only: t ob_crc16_eq [OF l] ob_crc16_eq [OF l']) simp
qed

theorem crc16_detects_byte_witness:
  "ob_crc16 0 [1, 2, 3] 0 3 = Some (crc16_ref [1, 2, 3] 0) \<and>
   ob_crc16 0 [1, 9, 3] 0 3 \<noteq> ob_crc16 0 [1, 2, 3] 0 3"
  using crc16_detects_byte [of 0 3 "[1, 2, 3]" 1 9 0] by auto



end
