(* ===== verification/ObProtocol20.thy ===== *)
theory ObProtocol20
  imports FltInfo ObCrc
begin

unbundle bit_operations_syntax

section \<open>The OB 2.0 protocol (libmariadb/ob_protocol20.c, include/ob_protocol20.h)\<close>

text \<open>
  A packet of the OB 2.0 protocol is a 7-byte header of the compressed MySQL protocol, a 24-byte
  header of its own with a CRC-16, the payload (optional extra information and a MySQL packet)
  and a CRC-32C.  This theory holds the state of the protocol, the functions that write and check
  the header, and those that keep, write and parse the extra information, of which the driver
  knows one kind: the full-link-trace items of \<^verbatim>\<open>ob_full_link_trace.c\<close>.

  The list of extra information lives in a heap of list nodes.  A pointer to a value is symbolic:
  the only values are the member \<^verbatim>\<open>flt_value_data_\<close> of the connection's \<^verbatim>\<open>FLTInfo\<close>, whose data
  is the member \<^verbatim>\<open>flt_serialize_buf_\<close> of its trace.  So two list items that point to it share it,
  as in the code.
\<close>

subsection \<open>State of the protocol\<close>

record Ob20ProtocolHeader =
  magic_num :: "16 word"
  version :: "16 word"
  connection_id :: "32 word"
  request_id :: "32 word"
  pkt_seq :: "8 word"
  payload_len :: "32 word"
  flags :: "32 word"
  reserved :: "16 word"
  header_checksum :: "16 word"

datatype value_ptr = NullValue | FltValueData

record Ob20ProtocolExtraInfo =
  ei_key :: nat
  ei_value :: value_ptr

record Ob20Protocol =
  ob_header :: Ob20ProtocolHeader
  ob_list :: "addr option"
  ob_current :: "addr option"
  ob_checksum :: "32 word"
  ob_real_write_buffer :: cbuf
  ob_real_write_buffer_length :: "32 word"
  ob_flt :: "FLTInfo option"
  ob_update_request_id :: bool
  ob_nodes :: "Ob20ProtocolExtraInfo heap"

abbreviation (input) OB20_PROTOCOL_MAGIC_NUM :: "16 word" where "OB20_PROTOCOL_MAGIC_NUM \<equiv> 0x20AB"
abbreviation (input) OB20_PROTOCOL_VERSION_VALUE :: "16 word" where "OB20_PROTOCOL_VERSION_VALUE \<equiv> 20"
abbreviation (input) NET_HEADER_SIZE :: int where "NET_HEADER_SIZE \<equiv> 4"
abbreviation (input) COMP_HEADER_SIZE :: int where "COMP_HEADER_SIZE \<equiv> 3"
abbreviation (input) OB20_HEADER_SIZE :: int where "OB20_HEADER_SIZE \<equiv> 24"
abbreviation (input) OB20_TAILER_SIZE :: int where "OB20_TAILER_SIZE \<equiv> 4"
abbreviation (input) OB20_EXTRAINFO_LENGTH_SIZE :: int where "OB20_EXTRAINFO_LENGTH_SIZE \<equiv> 4"
abbreviation (input) FULL_TRC :: nat where "FULL_TRC \<equiv> 2003"
abbreviation (input) OB20_SVR_END :: nat where "OB20_SVR_END \<equiv> 2004"

text \<open>The bits of the flag word, lowest first.\<close>

definition OB_EXTRA_INFO_EXIST :: "32 word \<Rightarrow> bool" where
  "OB_EXTRA_INFO_EXIST w = bit w 0"

definition OB_IS_NEW_EXTRA_INFO :: "32 word \<Rightarrow> bool" where
  "OB_IS_NEW_EXTRA_INFO w = bit w 3"

definition clear_extra_info_loop_body :: "Ob20Protocol \<Rightarrow> addr \<Rightarrow> Ob20Protocol option" where
  "clear_extra_info_loop_body p l = do {
     n \<leftarrow> ob_nodes p l;
     (h, ds) \<leftarrow> list_free (ob_nodes p) (ob_current p) False;
     Some (p\<lparr>ob_nodes := h, ob_list := nxt n, ob_current := nxt n\<rparr>) }"

partial_function (option) clear_extra_info_loop :: "Ob20Protocol \<Rightarrow> Ob20Protocol option" where
  "clear_extra_info_loop p = (case ob_list p of
     None \<Rightarrow> Some p
   | Some l \<Rightarrow> do {
       p \<leftarrow> clear_extra_info_loop_body p l;
       clear_extra_info_loop p })"

definition clear_extra_info :: "Ob20Protocol \<Rightarrow> Ob20Protocol option" where
  "clear_extra_info p = do {
     p \<leftarrow> clear_extra_info_loop (p\<lparr>ob_current := ob_list p\<rparr>);
     Some (p\<lparr>ob_list := None, ob_current := None\<rparr>) }"

text \<open>
  \<open>random\<close> is the value of \<^verbatim>\<open>rand()\<close>, \<open>malloc_ok\<close> whether the block for \<^verbatim>\<open>FLTInfo\<close> was
  allocated, the other parameters are those of \<^verbatim>\<open>trace_init\<close>.
\<close>

definition ob20_zero :: "32 word \<Rightarrow> 64 word \<Rightarrow> Ob20Protocol" where
  "ob20_zero random conid = \<lparr>
     ob_header = \<lparr>magic_num = OB20_PROTOCOL_MAGIC_NUM, version = OB20_PROTOCOL_VERSION_VALUE,
       connection_id = ucast conid, request_id = random mod 0x00FFFFFF, pkt_seq = 0, payload_len = 0,
       flags = 0, reserved = 0, header_checksum = 0\<rparr>,
     ob_list = None, ob_current = None, ob_checksum = 0, ob_real_write_buffer = None,
     ob_real_write_buffer_length = 0, ob_flt = None, ob_update_request_id = True, ob_nodes = Map.empty\<rparr>"

definition ob20_init ::
  "32 word \<Rightarrow> bool \<Rightarrow> (nat \<Rightarrow> 64 word) \<Rightarrow> mem option \<Rightarrow> bool \<Rightarrow> 64 word \<times> 64 word
   \<Rightarrow> Ob20Protocol option \<Rightarrow> 64 word \<Rightarrow> bool \<Rightarrow> (int \<times> Ob20Protocol option) option" where
  "ob20_init random malloc_ok clock malloc urandom_ok seed ob20protocol conid use_flt =
     (case ob20protocol of
        None \<Rightarrow> Some (OB_ERROR, None)
      | Some _ \<Rightarrow>
          let p = ob20_zero random conid in
          if use_flt then
            if \<not> malloc_ok then Some (OB_ERROR, Some p)
            else do {
              (ret, flt) \<leftarrow> flt_init clock malloc urandom_ok seed (Some flt_blank);
              Some (ret, Some (p\<lparr>ob_flt := flt\<rparr>)) }
          else Some (OB_SUCCESS, Some p))"

definition ob20_end :: "Ob20Protocol option \<Rightarrow> Ob20Protocol option option" where
  "ob20_end ob20protocol = (case ob20protocol of
     None \<Rightarrow> Some None
   | Some p \<Rightarrow> do {
       p \<leftarrow> clear_extra_info p;
       let p = (if ob_real_write_buffer p \<noteq> None
                then p\<lparr>ob_real_write_buffer := None, ob_real_write_buffer_length := 0\<rparr> else p);
       Some (Some (p\<lparr>ob_flt := None\<rparr>)) })"

definition update_request_id :: "32 word \<Rightarrow> 32 word" where
  "update_request_id r = (let r = r + 1 in if r > 16777215 then 0 else r)"

subsection \<open>The header\<close>

definition fill_protocol20_header ::
  "Ob20Protocol \<Rightarrow> 64 word \<Rightarrow> 64 word \<Rightarrow> 64 word \<Rightarrow> mem \<Rightarrow> (int \<times> mem \<times> Ob20Protocol) option" where
  "fill_protocol20_header p len pkt_nr complen buffer = do {
     b \<leftarrow> int3store buffer NET_HEADER_SIZE complen;
     b \<leftarrow> int3store b 0 len;
     b \<leftarrow> store_byte b 3 (ucast pkt_nr);
     b \<leftarrow> int2store b 7 (ucast (magic_num (ob_header p)));
     b \<leftarrow> int2store b 9 (ucast (version (ob_header p)));
     b \<leftarrow> int4store b 11 (ucast (connection_id (ob_header p)));
     b \<leftarrow> int3store b 15 (ucast (request_id (ob_header p)));
     let p = p\<lparr>ob_header := (ob_header p)\<lparr>pkt_seq := ucast pkt_nr\<rparr>\<rparr>;
     b \<leftarrow> int1store b 18 (ucast (pkt_seq (ob_header p)));
     b \<leftarrow> int4store b 19 (ucast (payload_len (ob_header p)));
     b \<leftarrow> int4store b 23 (ucast (flags (ob_header p)));
     b \<leftarrow> int2store b 27 (ucast (reserved (ob_header p)));
     crc \<leftarrow> ob_crc16 0 b 0 29;
     let p = p\<lparr>ob_header := (ob_header p)\<lparr>header_checksum := crc\<rparr>\<rparr>;
     b \<leftarrow> int2store b 29 (ucast (header_checksum (ob_header p)));
     Some (31, b, p) }"

text \<open>\<open>base\<close> is the offset of the parameter \<^verbatim>\<open>buffer\<close> in the buffer \<open>m\<close> it points into.\<close>

definition decode_protocol20_header ::
  "Ob20Protocol \<Rightarrow> mem \<Rightarrow> int \<Rightarrow> 32 word \<Rightarrow> 32 word \<Rightarrow> 32 word \<Rightarrow> (int \<times> Ob20Protocol) option" where
  "decode_protocol20_header p m base pkt_len pkt_nr complen = do {
     magic \<leftarrow> uint2korr m base;
     ver \<leftarrow> uint2korr m (base + 2);
     con \<leftarrow> uint4korr m (base + 4);
     req \<leftarrow> uint3korr m (base + 8);
     seq \<leftarrow> uint1korr m (base + 11);
     payload \<leftarrow> uint4korr m (base + 12);
     flag \<leftarrow> uint4korr m (base + 16);
     res \<leftarrow> uint2korr m (base + 20);
     chk \<leftarrow> uint2korr m (base + 22);
     crc16 \<leftarrow> (if chk \<noteq> 0 then do {
         hb \<leftarrow> int3store (replicate 7 0) 0 (ucast pkt_len);
         hb \<leftarrow> store_byte hb 3 (ucast pkt_nr);
         hb \<leftarrow> int3store hb NET_HEADER_SIZE (ucast complen);
         c \<leftarrow> ob_crc16 0 hb 0 (NET_HEADER_SIZE + COMP_HEADER_SIZE);
         ob_crc16 c m base 22 }
       else Some 0);
     let h = ob_header p;
     if crc16 \<noteq> chk then Some (1, p)
     else if magic \<noteq> magic_num h then Some (1, p)
     else if ver \<noteq> version h then Some (1, p)
     else if con \<noteq> connection_id h then Some (1, p)
     else if req \<noteq> request_id h then Some (1, p)
     else
       let h = h\<lparr>pkt_seq := pkt_seq h + 1\<rparr> in
       if seq \<noteq> pkt_seq h then Some (1, p\<lparr>ob_header := h\<rparr>)
       else Some (0, p\<lparr>ob_header := h\<lparr>flags := flag, payload_len := payload, pkt_seq := seq,
              reserved := res, header_checksum := chk\<rparr>\<rparr>) }"

subsection \<open>Extra information\<close>

text \<open>A pointer \<^verbatim>\<open>void *value\<close> seen as \<^verbatim>\<open>FLTValueData *\<close>.\<close>

definition value_of :: "Ob20Protocol \<Rightarrow> value_ptr \<Rightarrow> FLTValueData option" where
  "value_of p v = (case v of NullValue \<Rightarrow> None | FltValueData \<Rightarrow> map_option fl_value_data (ob_flt p))"

definition data_behind :: "Ob20Protocol \<Rightarrow> data_ptr \<Rightarrow> cbuf" where
  "data_behind p d = (case d of NullData \<Rightarrow> None
     | SerializeBuf \<Rightarrow> do { flt \<leftarrow> ob_flt p; t \<leftarrow> fl_trace flt; Some (tr_serialize_buf t) })"

text \<open>\<open>buf\<close> is an offset into the buffer \<open>m\<close>, \<open>None\<close> the null pointer.\<close>

definition extrainfo_serialize_flt ::
  "Ob20Protocol \<Rightarrow> mem \<Rightarrow> int option \<Rightarrow> int \<Rightarrow> int \<Rightarrow> value_ptr \<Rightarrow> (int \<times> mem \<times> int) option" where
  "extrainfo_serialize_flt p m buf len ppos dat = do {
     flt_data \<leftarrow> value_of p dat;
     let v_len = sint (length' flt_data);
     (case buf of
        None \<Rightarrow> Some (OB_ERROR, m, ppos)
      | Some base \<Rightarrow>
          if len < ppos + 2 + 4 + v_len then Some (OB_ERROR, m, ppos)
          else do {
            m \<leftarrow> int2store m (base + ppos) (of_nat FULL_TRC);
            m \<leftarrow> int4store m (base + ppos + 2) (length' flt_data);
            src \<leftarrow> data_behind p (value_data' flt_data);
            bs \<leftarrow> load_bytes src 0 (unat (length' flt_data));
            m \<leftarrow> store_bytes m (base + ppos + 6) bs;
            Some (OB_SUCCESS, m, ppos + 6 + v_len) }) }"

text \<open>
  The group a parsed type selects: how the structure is read and written back.  The type
  \<^verbatim>\<open>FLT_SPAN_INFO\<close> selects the control structure, as the code has it.
\<close>

fun set_info_type :: "FullLinkTraceExtraInfoType \<Rightarrow> flt_info \<Rightarrow> flt_info" where
  "set_info_type ty (ControlInfo i) = ControlInfo (i\<lparr>ctl_type := ty\<rparr>)"
| "set_info_type ty (AppInfo i) = AppInfo (i\<lparr>app_type := ty\<rparr>)"
| "set_info_type ty (QueryInfo i) = QueryInfo (i\<lparr>qry_type := ty\<rparr>)"
| "set_info_type ty (SpanInfo i) = SpanInfo (i\<lparr>spn_type := ty\<rparr>)"
| "set_info_type ty (DriverSpanInfo i) = DriverSpanInfo (i\<lparr>drv_type := ty\<rparr>)"
| "set_info_type ty (ShowTraceSpan i) = ShowTraceSpan (i\<lparr>shw_type := ty\<rparr>)"

definition flt_target :: "FLTInfo \<Rightarrow> 16 word \<Rightarrow> (FullLinkTraceExtraInfoType \<times> flt_info) option" where
  "flt_target flt type =
     (if type = flt_type FLT_CONTROL_INFO then Some (FLT_CONTROL_INFO, ControlInfo (fl_control_info flt))
      else if type = flt_type FLT_APP_INFO then Some (FLT_APP_INFO, AppInfo (fl_app_info flt))
      else if type = flt_type FLT_QUERY_INFO then Some (FLT_QUERY_INFO, QueryInfo (fl_query_info flt))
      else if type = flt_type FLT_SPAN_INFO then Some (FLT_SPAN_INFO, ControlInfo (fl_control_info flt))
      else None)"

fun flt_write_back :: "flt_info \<Rightarrow> FLTInfo \<Rightarrow> FLTInfo" where
  "flt_write_back (ControlInfo i) flt = flt\<lparr>fl_control_info := i\<rparr>"
| "flt_write_back (AppInfo i) flt = flt\<lparr>fl_app_info := i\<rparr>"
| "flt_write_back (QueryInfo i) flt = flt\<lparr>fl_query_info := i\<rparr>"
| "flt_write_back (SpanInfo i) flt = flt\<lparr>fl_span_info := i\<rparr>"
| "flt_write_back (DriverSpanInfo i) flt = flt\<lparr>fl_client_span := i\<rparr>"
| "flt_write_back (ShowTraceSpan i) flt = flt\<lparr>fl_show_trace_span := i\<rparr>"

definition sub_object :: "mem \<Rightarrow> int \<Rightarrow> mem option" where
  "sub_object m a = (if 0 \<le> a \<and> nat a \<le> length m then Some (drop (nat a) m) else None)"

partial_function (option) extrainfo_deserialize_loop ::
  "mem \<Rightarrow> int \<Rightarrow> int \<Rightarrow> Ob20Protocol \<Rightarrow> (int \<times> int \<times> Ob20Protocol) option" where
  "extrainfo_deserialize_loop m len pos p =
     (if pos < len then do {
        (ret, type, v_len, pos) \<leftarrow> flt_resolve_type_and_len (Some m) len pos 0 0;
        if ret \<noteq> OB_SUCCESS then Some (OB_ERROR, pos, p)
        else if type \<in> {flt_type FLT_CONTROL_INFO, flt_type FLT_APP_INFO, flt_type FLT_QUERY_INFO, flt_type FLT_SPAN_INFO}
        then do {
          flt \<leftarrow> ob_flt p;
          (ty, info) \<leftarrow> flt_target flt type;
          sub \<leftarrow> sub_object m pos;
          (ret, info, _) \<leftarrow> flt_deserialize_extra_info (Some sub) (sint v_len) 0 ty (set_info_type ty info);
          let p = p\<lparr>ob_flt := Some (flt_write_back info flt)\<rparr>;
          if ret \<noteq> OB_SUCCESS then Some (OB_ERROR, pos, p)
          else extrainfo_deserialize_loop m len (pos + sint v_len) p }
        else extrainfo_deserialize_loop m len (pos + sint v_len) p }
      else Some (OB_SUCCESS, pos, p))"

definition extrainfo_deserialize_flt ::
  "mem \<Rightarrow> int \<Rightarrow> int \<Rightarrow> Ob20Protocol \<Rightarrow> (int \<times> int \<times> Ob20Protocol) option" where
  "extrainfo_deserialize_flt m len ppos p = do {
     (ret, pos, p) \<leftarrow> extrainfo_deserialize_loop m len ppos p;
     Some (ret, if ret = OB_SUCCESS then pos else ppos, p) }"

definition extrainfo_get_serialize_size_flt :: "Ob20Protocol \<Rightarrow> value_ptr \<Rightarrow> 64 word option" where
  "extrainfo_get_serialize_size_flt p dat = (case dat of
     NullValue \<Rightarrow> Some 0
   | FltValueData \<Rightarrow> do { v \<leftarrow> value_of p dat; Some (2 + 4 + length' v) })"

text \<open>
  The table \<^verbatim>\<open>extra_serialize_funcs\<close> has \<^verbatim>\<open>OB20_SVR_END + 1\<close> entries, of which one is set: an index
  outside is undefined, the other entries are null pointers.
\<close>

record ExtraInfoSerializeFunc =
  ei_serialize_func :: "Ob20Protocol \<Rightarrow> mem \<Rightarrow> int option \<Rightarrow> int \<Rightarrow> int \<Rightarrow> value_ptr \<Rightarrow> (int \<times> mem \<times> int) option"
  ei_deserialize_func :: "mem \<Rightarrow> int \<Rightarrow> int \<Rightarrow> Ob20Protocol \<Rightarrow> (int \<times> int \<times> Ob20Protocol) option"
  ei_get_serialize_size_func :: "Ob20Protocol \<Rightarrow> value_ptr \<Rightarrow> 64 word option"

definition extra_serialize_funcs :: "nat \<Rightarrow> ExtraInfoSerializeFunc option option" where
  "extra_serialize_funcs key =
     (if key > OB20_SVR_END then None
      else if key = FULL_TRC then Some (Some \<lparr>ei_serialize_func = extrainfo_serialize_flt,
        ei_deserialize_func = extrainfo_deserialize_flt,
        ei_get_serialize_size_func = extrainfo_get_serialize_size_flt\<rparr>)
      else Some None)"

text \<open>
  \<^verbatim>\<open>fill_protocol20_extra_info\<close>: a null function is called all the same (there is no \<^verbatim>\<open>else\<close>), and
  the position is added twice, in the pointer and in \<^verbatim>\<open>pos\<close>.  The result is the offset of the returned
  pointer from \<open>base\<close>.
\<close>

partial_function (option) fill_extra_loop ::
  "Ob20Protocol \<Rightarrow> mem \<Rightarrow> int \<Rightarrow> int \<Rightarrow> int \<Rightarrow> (int \<times> mem \<times> Ob20Protocol) option" where
  "fill_extra_loop p m base buffer_len pos = (case ob_current p of
     None \<Rightarrow> Some (pos, m, p)
   | Some a \<Rightarrow> do {
       n \<leftarrow> ob_nodes p a;
       entry \<leftarrow> extra_serialize_funcs (ei_key (data n));
       f \<leftarrow> entry;
       (ret, m, pos) \<leftarrow> ei_serialize_func f p m (Some (base + pos)) buffer_len pos (ei_value (data n));
       if ret \<noteq> OB_SUCCESS then Some (0, m, p)
       else fill_extra_loop (p\<lparr>ob_current := nxt n\<rparr>) m base buffer_len pos })"

definition fill_protocol20_extra_info ::
  "Ob20Protocol option \<Rightarrow> mem \<Rightarrow> int \<Rightarrow> int \<Rightarrow> (int \<times> mem \<times> Ob20Protocol option) option" where
  "fill_protocol20_extra_info ob20protocol m base buffer_len = (case ob20protocol of
     None \<Rightarrow> Some (0, m, None)
   | Some p \<Rightarrow>
       if ob_list p = None then Some (0, m, Some p)
       else do {
         (pos, m, p) \<leftarrow> fill_extra_loop (p\<lparr>ob_current := ob_list p\<rparr>) m base buffer_len 0;
         Some (pos, m, Some p) })"

partial_function (option) extra_length_loop :: "Ob20Protocol \<Rightarrow> 64 word \<Rightarrow> (64 word \<times> Ob20Protocol) option" where
  "extra_length_loop p acc = (case ob_current p of
     None \<Rightarrow> Some (acc, p)
   | Some a \<Rightarrow> do {
       n \<leftarrow> ob_nodes p a;
       entry \<leftarrow> extra_serialize_funcs (ei_key (data n));
       item_size \<leftarrow> (case entry of None \<Rightarrow> Some 0
                     | Some f \<Rightarrow> ei_get_serialize_size_func f p (ei_value (data n)));
       extra_length_loop (p\<lparr>ob_current := nxt n\<rparr>) (acc + item_size) })"

definition get_protocol20_extra_info_length :: "Ob20Protocol \<Rightarrow> (64 word \<times> Ob20Protocol) option" where
  "get_protocol20_extra_info_length p = extra_length_loop (p\<lparr>ob_current := ob_list p\<rparr>) 0"

partial_function (option) decode_extra_loop ::
  "mem \<Rightarrow> int \<Rightarrow> int \<Rightarrow> Ob20Protocol \<Rightarrow> (int \<times> Ob20Protocol) option" where
  "decode_extra_loop row extra_info_len pos p =
     (if pos < extra_info_len then do {
        key_type \<leftarrow> uint2korr row pos;
        value_len \<leftarrow> uint4korr row (pos + 2);
        let check_pos = pos + 6;
        entry \<leftarrow> extra_serialize_funcs (unat key_type);
        (case entry of
           None \<Rightarrow> decode_extra_loop row extra_info_len (check_pos + uint value_len) p
         | Some f \<Rightarrow> do {
             (ret, pos, p) \<leftarrow> ei_deserialize_func f row extra_info_len check_pos p;
             if ret \<noteq> OB_SUCCESS then Some (ret, p)
             else if pos \<noteq> check_pos + uint value_len then Some (OB_ERROR, p)
             else decode_extra_loop row extra_info_len pos p }) }
      else Some (OB_SUCCESS, p))"

definition decode_protocol20_extra_info :: "Ob20Protocol \<Rightarrow> mem \<Rightarrow> int \<Rightarrow> (int \<times> Ob20Protocol) option" where
  "decode_protocol20_extra_info p m base = do {
     extra_info_len \<leftarrow> uint4korr m base;
     row \<leftarrow> sub_object m (base + 4);
     decode_extra_loop row (uint extra_info_len) 0 p }"

text \<open>\<open>malloc\<close> gives the address of the new list node, or null.\<close>

definition ob20_set_extra_info ::
  "(Ob20ProtocolExtraInfo heap \<Rightarrow> addr option) \<Rightarrow> Ob20Protocol \<Rightarrow> nat \<Rightarrow> value_ptr \<Rightarrow> (int \<times> Ob20Protocol) option" where
  "ob20_set_extra_info malloc p key value = (case malloc (ob_nodes p) of
     None \<Rightarrow> Some (OB_ERROR, p)
   | Some a \<Rightarrow> do {
       (h, l) \<leftarrow> list_add ((ob_nodes p)(a \<mapsto> \<lparr>prev = None, nxt = None, data = \<lparr>ei_key = key, ei_value = value\<rparr>\<rparr>))
                   (ob_list p) a;
       Some (OB_SUCCESS, p\<lparr>ob_nodes := h, ob_list := l\<rparr>) })"

subsection \<open>What the header functions guarantee\<close>

definition net_bytes :: "64 word \<Rightarrow> byte \<Rightarrow> 64 word \<Rightarrow> mem" where
  "net_bytes len nr complen = le_bytes 3 len @ [nr] @ le_bytes 3 complen"

definition header_bytes :: "Ob20ProtocolHeader \<Rightarrow> mem" where
  "header_bytes h = le_bytes 2 (magic_num h) @ le_bytes 2 (version h) @ le_bytes 4 (connection_id h)
     @ le_bytes 3 (request_id h) @ [pkt_seq h] @ le_bytes 4 (payload_len h) @ le_bytes 4 (flags h)
     @ le_bytes 2 (reserved h)"

lemma length_net_bytes [simp]: "length (net_bytes len pkt_nr complen) = 7"
  by (simp add: net_bytes_def)

lemma length_header_bytes [simp]: "length (header_bytes h) = 22"
  by (simp add: header_bytes_def)

lemma store_net_header:
  assumes "7 \<le> length m"
  shows "do { b \<leftarrow> int3store m 4 complen; b \<leftarrow> int3store b 0 len; b \<leftarrow> store_byte b 3 nr; f b } =
    f (put m 0 (net_bytes len nr complen))"
proof -
  obtain m0 m1 m2 m3 m4 m5 m6 r where m: "m = m0 # m1 # m2 # m3 # m4 # m5 # m6 # r"
    using assms by (auto simp: Suc_le_length_iff numeral_eq_Suc)
  show ?thesis
    by (simp add: m le_simps store_bytes_def store_byte_def put_def net_bytes_def le_bytes_unfold)
qed

lemma build_net_header:
  "do { b \<leftarrow> int3store (replicate 7 0) 0 len; b \<leftarrow> store_byte b 3 nr; b \<leftarrow> int3store b 4 complen; f b } =
   f (net_bytes len nr complen)"
  by (simp add: le_simps store_bytes_def store_byte_def put_def net_bytes_def le_bytes_unfold)

lemma fill_header:
  fixes p pkt_nr
  defines "h \<equiv> (ob_header p)\<lparr>pkt_seq := ucast pkt_nr\<rparr>"
  assumes "31 \<le> length b"
  shows "fill_protocol20_header p len pkt_nr complen b =
    (let bs = net_bytes len (ucast pkt_nr) complen @ header_bytes h; crc = crc16_ref bs 0
     in Some (31, put b 0 (bs @ le_bytes 2 crc), p\<lparr>ob_header := h\<lparr>header_checksum := crc\<rparr>\<rparr>))"
proof -
  have crc: "ob_crc16 0 (put b 0 bs) 0 29 = Some (crc16_ref bs 0)" if "length bs = 29" for bs
    using ob_crc16_eq [of "put b 0 bs" 0 29 bs 0] load_bytes_put_same [of bs b 29] assms(2) that by simp
  show ?thesis
    using assms(2)
    by (simp add: fill_protocol20_header_def store_net_header Let_def)
       (simp add: le_simps store_next le_bytes_ucast_up crc header_bytes_def h_def)
qed

lemma ob_crc16_append:
  assumes "load_bytes hb 0 7 = Some xs" and "holds_at m base ys" and "length ys = 22"
  shows "do { c \<leftarrow> ob_crc16 0 hb 0 7; ob_crc16 c m base 22 } = Some (crc16_ref (xs @ ys) 0)"
  using ob_crc16_eq [OF assms(1), of 0] ob_crc16_eq [of m base 22 ys] assms(2,3)
  by (simp add: holds_at_def)

definition decode_result :: "Ob20Protocol \<Rightarrow> Ob20ProtocolHeader \<Rightarrow> 16 word \<Rightarrow> int \<times> Ob20Protocol" where
  "decode_result p h crc =
     (let k = ob_header p in
      if crc \<noteq> header_checksum h \<or> magic_num h \<noteq> magic_num k \<or> version h \<noteq> version k
         \<or> connection_id h \<noteq> connection_id k \<or> take_bit 24 (request_id h) \<noteq> request_id k then (1, p)
      else if pkt_seq h \<noteq> pkt_seq k + 1 then (1, p\<lparr>ob_header := k\<lparr>pkt_seq := pkt_seq k + 1\<rparr>\<rparr>)
      else (0, p\<lparr>ob_header := h\<lparr>request_id := request_id k\<rparr>\<rparr>))"

lemma decode_header:
  assumes "holds_at m base (header_bytes h @ le_bytes 2 (header_checksum h))"
  shows "decode_protocol20_header p m base pkt_len pkt_nr complen =
    Some (decode_result p h (if header_checksum h \<noteq> 0
      then crc16_ref (net_bytes (ucast pkt_len) (ucast pkt_nr) (ucast complen) @ header_bytes h) 0 else 0))"
proof -
  have hb: "holds_at m base (header_bytes h)" using assms by (simp add: holds_at_append)
  have crc: "do { hb \<leftarrow> int3store (replicate 7 0) 0 (ucast pkt_len); hb \<leftarrow> store_byte hb 3 (ucast pkt_nr);
      hb \<leftarrow> int3store hb 4 (ucast complen); c \<leftarrow> ob_crc16 0 hb 0 7; ob_crc16 c m base 22 }
    = Some (crc16_ref (net_bytes (ucast pkt_len) (ucast pkt_nr) (ucast complen) @ header_bytes h) 0)"
  proof -
    have "load_bytes (net_bytes (ucast pkt_len) (ucast pkt_nr) (ucast complen)) 0 7 =
        Some (net_bytes (ucast pkt_len) (ucast pkt_nr) (ucast complen))"
      by (simp add: load_bytes_def)
    from ob_crc16_append [OF this hb] show ?thesis
      by (simp only: build_net_header length_header_bytes simp_thms)
  qed
  have parts: "uint2korr m base = Some (magic_num h)" "uint2korr m (base + 2) = Some (version h)"
    "uint4korr m (base + 4) = Some (connection_id h)" "uint3korr m (base + 8) = Some (take_bit 24 (request_id h))"
    "uint1korr m (base + 11) = Some (pkt_seq h)" "uint4korr m (base + 12) = Some (payload_len h)"
    "uint4korr m (base + 16) = Some (flags h)" "uint2korr m (base + 20) = Some (reserved h)"
    "uint2korr m (base + 22) = Some (header_checksum h)"
    using assms unfolding header_bytes_def
    by (simp_all add: holds_at_append holds_at_Cons_append korr_at add.commute [of base])
  show ?thesis
    unfolding decode_protocol20_header_def parts decode_result_def
    using crc by (cases h) (simp add: Let_def)
qed

lemma header_bytes_surj:
  assumes "length bs = 22"
  obtains h where "header_bytes h = bs" and "header_checksum h = c"
proof -
  let ?d = "\<lambda>k n. take n (drop k bs)"
  let ?h = "\<lparr>magic_num = le_word (?d 0 2), version = le_word (?d 2 2), connection_id = le_word (?d 4 4),
    request_id = le_word (?d 8 3), pkt_seq = bs ! 11, payload_len = le_word (?d 12 4), flags = le_word (?d 16 4),
    reserved = le_word (?d 20 2), header_checksum = c\<rparr>"
  have one: "take 1 (drop 11 bs) = [bs ! 11]"
    using assms by (simp add: take_Suc hd_drop_conv_nth)
  have "bs = take (2 + 2 + 4 + 3 + 1 + 4 + 4 + 2) bs" using assms by simp
  also have "\<dots> = ?d 0 2 @ ?d 2 2 @ ?d 4 4 @ ?d 8 3 @ take 1 (drop 11 bs) @ ?d 12 4 @ ?d 16 4 @ ?d 20 2"
    by (simp only: take_add append_assoc drop_0) simp
  also have "\<dots> = ?d 0 2 @ ?d 2 2 @ ?d 4 4 @ ?d 8 3 @ [bs ! 11] @ ?d 12 4 @ ?d 16 4 @ ?d 20 2"
    by (simp only: one)
  also have "\<dots> = header_bytes ?h"
    using assms by (simp add: header_bytes_def le_bytes_word)
  finally show thesis using that [of ?h] by simp
qed

lemma decode_bytes:
  assumes h: "holds_at m base (bs @ le_bytes 2 chk)" and bs: "length bs = 22" and "chk \<noteq> 0"
    and "crc16_ref (net_bytes (ucast pkt_len) (ucast pkt_nr) (ucast complen) @ bs) 0 \<noteq> chk"
  shows "decode_protocol20_header p m base pkt_len pkt_nr complen = Some (1, p)"
proof -
  obtain k where k: "header_bytes k = bs" "header_checksum k = chk" using header_bytes_surj [OF bs] .
  have "holds_at m base (header_bytes k @ le_bytes 2 (header_checksum k))" using h by (simp add: k)
  from decode_header [OF this] show ?thesis
    using assms(3,4) by (simp only: k decode_result_def Let_def) simp
qed

lemma net_bytes_korr:
  assumes h: "holds_at m 0 ns" and n: "length ns = 7"
    and "uint3korr m 0 = Some pkt_len" and "load_byte m 3 = Some b" and "uint3korr m 4 = Some complen"
  shows "net_bytes (ucast pkt_len) (ucast (ucast b :: 32 word)) (ucast complen) = ns"
proof -
  have "ns = take (3 + 1 + 3) ns" using n by simp
  also have "\<dots> = take 3 ns @ take 1 (drop 3 ns) @ take 3 (drop 4 ns)"
    by (simp only: take_add append_assoc drop_0) simp
  finally have ns: "ns = take 3 ns @ take 1 (drop 3 ns) @ take 3 (drop 4 ns)" .
  let ?a = "take 3 ns" and ?b = "take 1 (drop 3 ns)" and ?c = "take 3 (drop 4 ns)"
  have len: "length ?a = 3" "length ?b = 1" "length ?c = 3" using n by simp_all
  have "holds_at m 0 ?a \<and> holds_at m 3 ?b \<and> holds_at m 4 ?c"
    using h by (subst (asm) ns) (simp add: holds_at_append n)
  then have l: "load_bytes m 0 3 = Some ?a" "load_bytes m 3 1 = Some ?b" "load_bytes m 4 3 = Some ?c"
    unfolding holds_at_def len by auto
  then have "pkt_len = le_word ?a" "b = hd ?b" "complen = le_word ?c"
    using assms(3-) by (simp_all add: le_simps load_byte_load_bytes del: le_word.simps)
  moreover have "?b = [hd ?b]" using len(2) by (metis length_0_conv length_Suc_conv list.sel(1) One_nat_def)
  ultimately show ?thesis
    by (subst ns) (simp add: net_bytes_def le_bytes_ucast_up le_bytes_word n del: le_word.simps)
qed

lemma sample_bytes:
  "net_bytes 60 1 0 @ header_bytes ((ob_header (ob20_zero 5 7))\<lparr>pkt_seq := 1\<rparr>) =
   [60, 0, 0, 1, 0, 0, 0, 0xAB, 0x20, 20, 0, 7, 0, 0, 0, 5, 0, 0, 1, 0, 0, 0, 0, 0, 0, 0, 0, 0, 0]"
  by (simp add: net_bytes_def header_bytes_def ob20_zero_def le_bytes_eval)

definition sample_packet :: mem where
  "sample_packet = [60, 0, 0, 1, 0, 0, 0, 0xAB, 0x20, 20, 0, 7, 0, 0, 0, 5, 0, 0, 1, 0, 0, 0, 0, 0, 0, 0, 0, 0, 0, 12, 234]"

lemma sample_header:
  "fill_protocol20_header (ob20_zero 5 7) 60 1 0 (replicate 31 0) =
   Some (31, sample_packet,
     (ob20_zero 5 7)\<lparr>ob_header := (ob_header (ob20_zero 5 7))\<lparr>pkt_seq := 1, header_checksum := 59916\<rparr>\<rparr>)"
proof -
  have crc: "crc16_ref [60, 0, 0, 1, 0, 0, 0, 0xAB, 0x20, 20, 0, 7, 0, 0, 0, 5, 0, 0, 1, 0, 0, 0, 0, 0, 0, 0, 0, 0, 0] 0 = 0xEA0C"
    by (simp only: fold_simps) (simp add: crc_shift_byte_eval crc_bit_def)
  have l: "31 \<le> length (replicate 31 (0 :: byte))" by simp
  have u: "ucast (1 :: 64 word) = (1 :: byte)" by simp
  show ?thesis
    unfolding fill_header [OF l] u sample_bytes Let_def crc by (simp add: le_bytes_eval put_def sample_packet_def)
qed

lemma sample_fields:
  "uint3korr sample_packet 0 = Some 60" "load_byte sample_packet 3 = Some 1" "uint3korr sample_packet 4 = Some 0"
  "uint3korr (sample_packet[20 := 1]) 0 = Some 60" "load_byte (sample_packet[20 := 1]) 3 = Some 1"
  "uint3korr (sample_packet[20 := 1]) 4 = Some 0"
  by (simp_all add: sample_packet_def uint3korr_def load_byte_def)

text \<open>C27: a header written by \<^verbatim>\<open>fill_protocol20_header\<close> is accepted by
  \<^verbatim>\<open>decode_protocol20_header\<close> at a peer in the same session state whose last packet number is one
  less, when the three fields of the outer header are read back from the buffer as the reading code
  does; the peer then has the flags, payload length, sequence number and checksum of the writer.\<close>

theorem header_roundtrip:
  assumes "31 \<le> length b"
    and "fill_protocol20_header p len pkt_nr complen b = Some (n, b', p')"
    and "magic_num (ob_header q) = magic_num (ob_header p)" and "version (ob_header q) = version (ob_header p)"
    and "connection_id (ob_header q) = connection_id (ob_header p)"
    and "request_id (ob_header q) = take_bit 24 (request_id (ob_header p))"
    and "pkt_seq (ob_header q) + 1 = ucast pkt_nr"
    and "uint3korr b' 0 = Some len'" and "load_byte b' 3 = Some nr'" and "uint3korr b' 4 = Some complen'"
  shows "n = 31 \<and> length b' = length b \<and> len' = take_bit 24 (ucast len) \<and>
    decode_protocol20_header q b' 7 len' (ucast nr') complen' =
      Some (0, q\<lparr>ob_header := (ob_header p')\<lparr>request_id := request_id (ob_header q)\<rparr>\<rparr>)"
proof -
  let ?h = "(ob_header p)\<lparr>pkt_seq := ucast pkt_nr\<rparr>"
  let ?ns = "net_bytes len (ucast pkt_nr) complen"
  let ?crc = "crc16_ref (?ns @ header_bytes ?h) 0"
  have f: "n = 31" "b' = put b 0 ((?ns @ header_bytes ?h) @ le_bytes 2 ?crc)"
    "p' = p\<lparr>ob_header := ?h\<lparr>header_checksum := ?crc\<rparr>\<rparr>"
    using assms(2) fill_header [OF assms(1), of p len pkt_nr complen] by (simp_all add: Let_def)
  let ?k = "?h\<lparr>header_checksum := ?crc\<rparr>"
  have hk: "header_bytes ?k = header_bytes ?h" by (simp add: header_bytes_def)
  have lb: "length b' = length b" unfolding f(2) using assms(1) by (intro length_put) simp_all
  have "holds_at b' 0 ((?ns @ header_bytes ?h) @ le_bytes 2 ?crc)"
    unfolding f(2) using assms(1) by (intro holds_at_put) simp_all
  then have h0: "holds_at b' 0 ?ns" and h7: "holds_at b' 7 (header_bytes ?k @ le_bytes 2 (header_checksum ?k))"
    unfolding append_assoc holds_at_append [of _ _ ?ns] hk by simp_all
  note ns = net_bytes_korr [OF h0 length_net_bytes assms(8-10)]
  have "holds_at b' 0 (le_bytes 3 len)" using h0 by (simp add: net_bytes_def holds_at_append)
  then have l: "len' = take_bit 24 (ucast len)"
    using korr_holds_at [of b' 0 3 len, where ?'b = 32] assms(8)
    by (auto simp: le_simps bit_simps intro!: bit_word_eqI)
  have "decode_result q ?k ?crc = (0, q\<lparr>ob_header := (ob_header p')\<lparr>request_id := request_id (ob_header q)\<rparr>\<rparr>)"
    using assms(3-7) by (simp add: decode_result_def Let_def f(3))
  moreover have "(if header_checksum ?k \<noteq> 0 then ?crc else 0) = ?crc" by simp
  ultimately have "decode_protocol20_header q b' 7 len' (ucast nr') complen' =
      Some (0, q\<lparr>ob_header := (ob_header p')\<lparr>request_id := request_id (ob_header q)\<rparr>\<rparr>)"
    unfolding decode_header [OF h7] ns hk by (simp only:)
  with f(1) lb l show ?thesis by blast
qed

theorem header_roundtrip_witness:
  "decode_protocol20_header (ob20_zero 5 7) sample_packet 7 60 1 0 =
     Some (0, (ob20_zero 5 7)\<lparr>ob_header := (ob_header (ob20_zero 5 7))\<lparr>pkt_seq := 1, header_checksum := 59916\<rparr>\<rparr>)"
proof -
  have "length (replicate 31 (0 :: byte)) = 31" by simp
  then show ?thesis
    using header_roundtrip [OF _ sample_header _ _ _ _ _ sample_fields(1-3), of "ob20_zero 5 7"]
    by (simp add: ob20_zero_def)
qed

text \<open>C28: with a non-zero header checksum, a change of any one of the 29 bytes the checksum covers,
  the outer header included, makes \<^verbatim>\<open>decode_protocol20_header\<close> refuse the packet and leave its state
  alone, in whatever session state it is.\<close>

theorem header_corruption_rejected:
  assumes "31 \<le> length b"
    and "fill_protocol20_header p len pkt_nr complen b = Some (n, b', p')"
    and "header_checksum (ob_header p') \<noteq> 0"
    and "i < 29" and "x \<noteq> b' ! i"
    and "uint3korr (b'[i := x]) 0 = Some len'" and "load_byte (b'[i := x]) 3 = Some nr'"
    and "uint3korr (b'[i := x]) 4 = Some complen'"
  shows "decode_protocol20_header q (b'[i := x]) 7 len' (ucast nr') complen' = Some (1, q)"
proof -
  let ?h = "(ob_header p)\<lparr>pkt_seq := ucast pkt_nr\<rparr>"
  let ?bs = "net_bytes len (ucast pkt_nr) complen @ header_bytes ?h"
  let ?crc = "crc16_ref ?bs 0"
  have f: "b' = put b 0 (?bs @ le_bytes 2 ?crc)" "header_checksum (ob_header p') = ?crc"
    using assms(2) fill_header [OF assms(1), of p len pkt_nr complen] by (auto simp: Let_def)
  let ?c = "?bs[i := x]"
  have b': "b' = ?bs @ le_bytes 2 ?crc @ drop 31 b"
    unfolding f(1) by (simp add: put_def)
  have nth: "b' ! i = ?bs ! i" unfolding b' using assms(4) by (simp only: nth_append) simp
  have b2: "b'[i := x] = ?c @ le_bytes 2 ?crc @ drop 31 b"
    unfolding b' using assms(4) by (simp only: list_update_append) simp
  let ?m = "b'[i := x]"
  have len: "length ?c = 29" by simp
  have "holds_at ?m 0 (?c @ le_bytes 2 ?crc)"
    unfolding b2 holds_at_def by (simp add: load_bytes_def)
  then have "holds_at ?m 0 (take 7 ?c @ drop 7 ?c @ le_bytes 2 ?crc)"
    by (simp only: append_take_drop_id flip: append_assoc)
  then have h0: "holds_at ?m 0 (take 7 ?c)" and h7: "holds_at ?m 7 (drop 7 ?c @ le_bytes 2 ?crc)"
    unfolding holds_at_append [of _ _ "take 7 ?c"] by simp_all
  have ns: "net_bytes (ucast len') (ucast (ucast nr' :: 32 word)) (ucast complen') = take 7 ?c"
    by (rule net_bytes_korr [OF h0 _ assms(6-8)]) simp
  have "?crc \<noteq> crc16_ref ?c 0"
  proof -
    have i: "i < length ?bs" using assms(4) by simp
    have "?bs = take i ?bs @ ?bs ! i # drop (Suc i) ?bs" by (rule id_take_nth_drop [OF i])
    moreover have "?c = take i ?bs @ x # drop (Suc i) ?bs" by (rule upd_conv_take_nth_drop [OF i])
    moreover have "?bs ! i \<noteq> x" using assms(5) nth by simp
    ultimately show ?thesis using crc16.fold_byte_differs [of 0 "?bs ! i" x] by (metis below_bit_0)
  qed
  then show ?thesis
    using assms(3) f(2) by (intro decode_bytes [OF h7]) (simp_all only: ns append_take_drop_id, simp_all)
qed
theorem header_corruption_rejected_witness:
  "sample_packet ! 20 \<noteq> 1 \<and> decode_protocol20_header (ob20_zero 5 7) (sample_packet[20 := 1]) 7 60 1 0 = Some (1, ob20_zero 5 7)"
proof -
  have ne: "sample_packet ! 20 \<noteq> 1" by (simp add: sample_packet_def)
  have l: "31 \<le> length (replicate 31 (0 :: byte))" by simp
  have c: "header_checksum (ob_header ((ob20_zero 5 7)\<lparr>ob_header := (ob_header (ob20_zero 5 7))\<lparr>pkt_seq := 1, header_checksum := 59916\<rparr>\<rparr>)) \<noteq> 0"
    by simp
  show ?thesis
    using header_corruption_rejected [OF l sample_header c _ ne [symmetric] sample_fields(4-6), of "ob20_zero 5 7"] ne by simp
qed
subsection \<open>Parsing the extra information\<close>

text \<open>The extra information as the server sends it: groups of items, each with its type.\<close>

datatype flt_group = Controls "control_item list" | Queries "query_item list" | OtherGroup "16 word" mem

fun group_type :: "flt_group \<Rightarrow> 16 word" where
  "group_type (Controls ts) = flt_type FLT_CONTROL_INFO"
| "group_type (Queries ts) = flt_type FLT_QUERY_INFO"
| "group_type (OtherGroup x v) = x"

fun group_body :: "flt_group \<Rightarrow> mem" where
  "group_body (Controls ts) = concat (map (\<lambda>t. tlv (control_id t) (control_val t)) ts)"
| "group_body (Queries ts) = concat (map (\<lambda>t. tlv (query_id t) (query_val t)) ts)"
| "group_body (OtherGroup x v) = v"

fun group_ok :: "flt_group \<Rightarrow> bool" where
  "group_ok (OtherGroup x v) \<longleftrightarrow> x \<notin> {flt_type FLT_CONTROL_INFO, flt_type FLT_APP_INFO, flt_type FLT_QUERY_INFO, flt_type FLT_SPAN_INFO}"
| "group_ok _ \<longleftrightarrow> True"

fun group_apply :: "flt_group \<Rightarrow> FLTInfo \<Rightarrow> FLTInfo" where
  "group_apply (Controls ts) flt =
     flt\<lparr>fl_control_info := fold control_apply ts ((fl_control_info flt)\<lparr>ctl_type := FLT_CONTROL_INFO\<rparr>)\<rparr>"
| "group_apply (Queries ts) flt =
     flt\<lparr>fl_query_info := fold query_apply ts ((fl_query_info flt)\<lparr>qry_type := FLT_QUERY_INFO\<rparr>)\<rparr>"
| "group_apply (OtherGroup x v) flt = flt"

definition groups_bytes :: "flt_group list \<Rightarrow> mem" where
  "groups_bytes gs = concat (map (\<lambda>g. tlv (group_type g) (group_body g)) gs)"

lemma sub_object_holds:
  assumes "holds_at m pos v"
  obtains sub where "sub_object m pos = Some sub" and "holds_at sub 0 v" and "length v \<le> length sub"
proof -
  have "0 \<le> pos" using assms by (rule holds_at_nonneg)
  then obtain k where k: "pos = int k" by (metis nonneg_int_cases)
  with assms show thesis
    by (intro that [of "drop k m"]) (auto simp: sub_object_def holds_at_def load_bytes_int load_bytes_def split: if_splits)
qed

lemma group_parsed:
  assumes "group_ok g" and "holds_at sub 0 (group_body g)" and "length (group_body g) \<le> length sub"
    and "length (group_body g) < 2 ^ 31"
    and "group_type g \<in> {flt_type FLT_CONTROL_INFO, flt_type FLT_APP_INFO, flt_type FLT_QUERY_INFO, flt_type FLT_SPAN_INFO}"
  obtains ty info info' pos' where "flt_target flt (group_type g) = Some (ty, info)"
    and "flt_deserialize_extra_info (Some sub) (int (length (group_body g))) 0 ty (set_info_type ty info)
      = Some (OB_SUCCESS, info', pos')"
    and "flt_write_back info' flt = group_apply g flt"
proof (cases g)
  case (Controls ts)
  let ?i = "(fl_control_info flt)\<lparr>ctl_type := FLT_CONTROL_INFO\<rparr>"
  have "flt_deserialize_extra_info (Some sub) (int (length (group_body g))) 0 FLT_CONTROL_INFO (ControlInfo ?i)
      = Some (OB_SUCCESS, ControlInfo (fold control_apply ts ?i), int (length (group_body g)))"
    by (rule deserialize_extra_info_loop [OF flt_funcs.simps(4) as_control.simps(1) control_reader.loop_items])
      (use assms Controls in auto)
  then show thesis using Controls that by (simp add: flt_target_def)
next
  case (Queries ts)
  let ?i = "(fl_query_info flt)\<lparr>qry_type := FLT_QUERY_INFO\<rparr>"
  have "flt_deserialize_extra_info (Some sub) (int (length (group_body g))) 0 FLT_QUERY_INFO (QueryInfo ?i)
      = Some (OB_SUCCESS, QueryInfo (fold query_apply ts ?i), int (length (group_body g)))"
    by (rule deserialize_extra_info_loop [OF flt_funcs.simps(3) as_query.simps(1) query_reader.loop_items])
      (use assms Queries in auto)
  then show thesis using Queries that by (simp add: flt_target_def)
next
  case (OtherGroup x v)
  with assms(1,5) show thesis by simp
qed

lemma deserialize_groups:
  assumes "list_all group_ok gs" and "holds_at m pos (groups_bytes gs)"
    and "len = pos + int (length (groups_bytes gs))" and "len < 2 ^ 31" and "ob_flt p = Some flt"
  shows "extrainfo_deserialize_loop m len pos p = Some (OB_SUCCESS, len, p\<lparr>ob_flt := Some (fold group_apply gs flt)\<rparr>)"
  using assms(1-3,5)
proof (induction gs arbitrary: pos p flt)
  case Nil
  then show ?case by (subst extrainfo_deserialize_loop.simps) (simp add: groups_bytes_def)
next
  case (Cons g gs)
  let ?v = "group_body g" and ?x = "group_type g"
  have h: "holds_at m pos (tlv ?x ?v)" and r: "holds_at m (pos + 6 + int (length ?v)) (groups_bytes gs)"
    using Cons.prems(2) by (simp_all add: groups_bytes_def holds_at_append ac_simps)
  have len: "len = pos + 6 + int (length ?v) + int (length (groups_bytes gs))"
    using Cons.prems(3) by (simp add: groups_bytes_def)
  have small: "length ?v < 2 ^ 31" using len holds_at_nonneg [OF h] assms(4) by simp
  have l6: "pos + 6 \<le> len" using len by simp
  note res = resolve_tlv [OF h l6 small]
  have g: "group_ok g" "list_all group_ok gs" using Cons.prems(1) by simp_all
  let ?set = "{flt_type FLT_CONTROL_INFO, flt_type FLT_APP_INFO, flt_type FLT_QUERY_INFO, flt_type FLT_SPAN_INFO}"
  let ?p = "p\<lparr>ob_flt := Some (group_apply g flt)\<rparr>"
  have IH: "extrainfo_deserialize_loop m len (pos + 6 + int (length ?v)) ?p
      = Some (OB_SUCCESS, len, p\<lparr>ob_flt := Some (fold group_apply (g # gs) flt)\<rparr>)"
    using Cons.IH [OF g(2) r len, of ?p "group_apply g flt"] by simp
  show ?case
  proof (cases "?x \<in> ?set")
    case True
    obtain sub where sub: "sub_object m (pos + 6) = Some sub" "holds_at sub 0 ?v" "length ?v \<le> length sub"
      using res(3) by (rule sub_object_holds)
    obtain ty info info' pos' where t: "flt_target flt ?x = Some (ty, info)"
      "flt_deserialize_extra_info (Some sub) (int (length ?v)) 0 ty (set_info_type ty info) = Some (OB_SUCCESS, info', pos')"
      "flt_write_back info' flt = group_apply g flt"
      by (rule group_parsed [OF g(1) sub(2,3) small True])
    show ?thesis
      using True l6 IH Cons.prems(4)
      by (subst extrainfo_deserialize_loop.simps) (simp only: res sub t bind.bind_lunit prod.case if_True if_False Let_def simp_thms, simp)
  next
    case False
    then have "group_apply g flt = flt" by (cases g) simp_all
    moreover have "p\<lparr>ob_flt := Some flt\<rparr> = p" using Cons.prems(4) by (cases p) simp
    ultimately show ?thesis using False l6 IH
      by (subst extrainfo_deserialize_loop.simps) (simp only: res bind.bind_lunit prod.case if_True if_False simp_thms, simp)
  qed
qed

definition items_bytes :: "(nat \<times> mem) list \<Rightarrow> mem" where
  "items_bytes es = concat (map (\<lambda>(k, v). tlv (of_nat k) v) es)"

lemma tlv_korr:
  assumes h: "holds_at m pos (tlv x v)" and small: "length v < 2 ^ 32"
  shows "uint2korr m pos = Some x" and "uint4korr m (pos + 2) = Some (word_of_nat (length v))"
    and "uint (word_of_nat (length v) :: 32 word) = int (length v)" and "holds_at m (pos + 6) v"
proof -
  have "holds_at m pos (le_bytes 2 x)" "holds_at m (pos + 2) (le_bytes 4 (word_of_nat (length v) :: 32 word))"
    using h by (simp_all add: tlv_def holds_at_append add.assoc)
  then show "uint2korr m pos = Some x" "uint4korr m (pos + 2) = Some (word_of_nat (length v))"
    by (simp_all add: korr_at)
  show "uint (word_of_nat (length v) :: 32 word) = int (length v)"
    using small by (simp add: unsigned_of_nat take_bit_nat_eq_self)
  show "holds_at m (pos + 6) v" using h by (simp add: tlv_def holds_at_append add.assoc)
qed

lemma decode_skip:
  assumes "list_all (\<lambda>(k, v). k \<le> 2004 \<and> k \<noteq> 2003) es" and "holds_at m pos (items_bytes es)"
    and "pos + int (length (items_bytes es)) \<le> len" and "len < 2 ^ 31"
  shows "decode_extra_loop m len pos p = decode_extra_loop m len (pos + int (length (items_bytes es))) p"
  using assms(1-3)
proof (induction es arbitrary: pos)
  case (Cons e es)
  obtain k v where e: "e = (k, v)" by (cases e)
  have k: "k \<le> 2004" "k \<noteq> 2003" using Cons.prems(1) by (simp_all add: e)
  have h: "holds_at m pos (tlv (of_nat k) v)" and r: "holds_at m (pos + 6 + int (length v)) (items_bytes es)"
    using Cons.prems(2) by (simp_all add: items_bytes_def e holds_at_append ac_simps)
  have len: "pos + 6 + int (length v) + int (length (items_bytes es)) \<le> len"
    using Cons.prems(3) by (simp add: items_bytes_def e)
  have small: "length v < 2 ^ 32" using len holds_at_nonneg [OF h] assms(4) by simp
  note t = tlv_korr [OF h small]
  have "unat (of_nat k :: 16 word) = k" using k by (simp add: unsigned_of_nat take_bit_nat_eq_self)
  then have ent: "extra_serialize_funcs (unat (of_nat k :: 16 word)) = Some None"
    using k by (simp add: extra_serialize_funcs_def)
  have "pos < len" using len by simp
  then have "decode_extra_loop m len pos p = decode_extra_loop m len (pos + 6 + int (length v)) p"
    by (subst decode_extra_loop.simps) (simp only: t ent bind.bind_lunit option.case Let_def if_True)
  also have "\<dots> = decode_extra_loop m len (pos + 6 + int (length v) + int (length (items_bytes es))) p"
    using r len Cons.prems(1) by (intro Cons.IH) simp_all
  finally show ?case by (simp add: items_bytes_def e ac_simps)
qed (simp add: items_bytes_def)

lemma decode_full_trace:
  assumes "list_all group_ok gs" and "holds_at m pos (tlv 2003 (groups_bytes gs))"
    and "len = pos + 6 + int (length (groups_bytes gs))" and "len < 2 ^ 31" and "ob_flt p = Some flt"
  shows "decode_extra_loop m len pos p = Some (OB_SUCCESS, p\<lparr>ob_flt := Some (fold group_apply gs flt)\<rparr>)"
proof -
  have small: "length (groups_bytes gs) < 2 ^ 32" using assms(3,4) holds_at_nonneg [OF assms(2)] by simp
  note t = tlv_korr [OF assms(2) small]
  have ent: "extra_serialize_funcs (unat (2003 :: 16 word)) = Some (Some \<lparr>ei_serialize_func = extrainfo_serialize_flt,
        ei_deserialize_func = extrainfo_deserialize_flt,
        ei_get_serialize_size_func = extrainfo_get_serialize_size_flt\<rparr>)"
    by (simp add: extra_serialize_funcs_def)
  have d: "extrainfo_deserialize_flt m len (pos + 6) p = Some (OB_SUCCESS, len, p\<lparr>ob_flt := Some (fold group_apply gs flt)\<rparr>)"
    unfolding extrainfo_deserialize_flt_def
    using deserialize_groups [OF assms(1) t(4) assms(3,4,5)] by simp
  have stop: "decode_extra_loop m len len q = Some (OB_SUCCESS, q)" for q
    by (subst decode_extra_loop.simps) simp
  have "pos < len" using assms(3) by simp
  then show ?thesis
    by (subst decode_extra_loop.simps)
      (simp only: t ent d bind.bind_lunit option.case Let_def if_True ExtraInfoSerializeFunc.simps prod.case,
        simp add: stop flip: assms(3))
qed

lemma decode_block:
  assumes "holds_at m base (le_bytes 4 (word_of_nat (length body) :: 32 word) @ body)" and "length body < 2 ^ 31"
  obtains row where "decode_protocol20_extra_info p m base = decode_extra_loop row (int (length body)) 0 p"
    and "holds_at row 0 body"
proof -
  have h: "holds_at m base (le_bytes 4 (word_of_nat (length body) :: 32 word))" "holds_at m (base + 4) body"
    using assms(1) by (simp_all add: holds_at_append)
  obtain row where row: "sub_object m (base + 4) = Some row" "holds_at row 0 body"
    using h(2) by (rule sub_object_holds)
  have "uint (word_of_nat (length body) :: 32 word) = int (length body)"
    using assms(2) by (simp add: unsigned_of_nat take_bit_nat_eq_self)
  then show thesis
    using that [of row] row korr_at(2) [OF h(1)] by (simp add: decode_protocol20_extra_info_def)
qed

lemma extra_block_decoded:
  assumes "list_all (\<lambda>(k, v). k \<le> 2004 \<and> k \<noteq> 2003) es" and "list_all group_ok gs"
    and "body = items_bytes es @ tlv 2003 (groups_bytes gs)" and "length body < 2 ^ 31"
    and "holds_at m base (le_bytes 4 (word_of_nat (length body) :: 32 word) @ body)"
    and "ob_flt p = Some flt"
  shows "decode_protocol20_extra_info p m base = Some (OB_SUCCESS, p\<lparr>ob_flt := Some (fold group_apply gs flt)\<rparr>)"
proof -
  obtain row where d: "decode_protocol20_extra_info p m base = decode_extra_loop row (int (length body)) 0 p"
    and row: "holds_at row 0 body"
    by (rule decode_block [OF assms(5,4)])
  let ?n = "int (length (items_bytes es))"
  have h: "holds_at row 0 (items_bytes es)" "holds_at row ?n (tlv 2003 (groups_bytes gs))"
    using row by (simp_all add: assms(3) holds_at_append)
  have "decode_extra_loop row (int (length body)) 0 p = decode_extra_loop row (int (length body)) ?n p"
    using decode_skip [OF assms(1) h(1), of "int (length body)" p] assms(3,4) by simp
  also have "\<dots> = Some (OB_SUCCESS, p\<lparr>ob_flt := Some (fold group_apply gs flt)\<rparr>)"
    using assms(3,4) by (intro decode_full_trace [OF assms(2) h(2) _ _ assms(6)]) simp_all
  finally show ?thesis using d by simp
qed


text \<open>The comment on \<^verbatim>\<open>ExtraInfoKeyType\<close> reserves the keys 2001 to 65535 for server, driver and proxy,
  but the table of functions ends at 2004 and its index is not checked: an item with a larger key, behind items
  the driver skips, reads a function pointer outside the table.\<close>

theorem large_key_out_of_table:
  assumes "list_all (\<lambda>(k, v). k \<le> 2004 \<and> k \<noteq> 2003) es" and "2004 < k" and "k < 2 ^ 16"
    and "body = items_bytes es @ tlv (of_nat k) v @ rest" and "length body < 2 ^ 31"
    and "holds_at m base (le_bytes 4 (word_of_nat (length body) :: 32 word) @ body)"
  shows "decode_protocol20_extra_info p m base = None"
proof -
  obtain row where d: "decode_protocol20_extra_info p m base = decode_extra_loop row (int (length body)) 0 p"
    and row: "holds_at row 0 body"
    by (rule decode_block [OF assms(6,5)])
  let ?n = "int (length (items_bytes es))"
  have h: "holds_at row 0 (items_bytes es)" "holds_at row ?n (tlv (of_nat k) v)"
    using row by (simp_all add: assms(4) holds_at_append)
  have small: "length v < 2 ^ 32" using assms(4,5) by simp
  have key: "unat (of_nat k :: 16 word) = k" using assms(3) by (simp add: unsigned_of_nat take_bit_nat_eq_self)
  have "decode_extra_loop row (int (length body)) 0 p = decode_extra_loop row (int (length body)) ?n p"
    using decode_skip [OF assms(1) h(1), of "int (length body)" p] assms(4,5) by simp
  also have "\<dots> = None"
    using assms(2,4) tlv_korr [OF h(2) small]
    by (subst decode_extra_loop.simps) (simp add: extra_serialize_funcs_def key)
  finally show ?thesis using d by simp
qed

subsection \<open>The list of extra information\<close>

definition extra_list :: "Ob20Protocol \<Rightarrow> addr list \<Rightarrow> bool" where
  "extra_list p xs \<longleftrightarrow> is_list (ob_nodes p) (ob_list p) xs"

lemma set_extra_info_list:
  assumes "extra_list p xs" and "malloc (ob_nodes p) = Some a" and "ob_nodes p a = None"
  obtains p' where "ob20_set_extra_info malloc p key value = Some (OB_SUCCESS, p')" and "extra_list p' (a # xs)"
    and "map_option data (ob_nodes p' a) = Some \<lparr>ei_key = key, ei_value = value\<rparr>"
    and "\<And>b. b \<in> set xs \<Longrightarrow> map_option data (ob_nodes p' b) = map_option data (ob_nodes p b)"
    and "ob_flt p' = ob_flt p" and "ob_header p' = ob_header p"
proof -
  let ?n = "\<lparr>prev = None, nxt = None, data = \<lparr>ei_key = key, ei_value = value\<rparr>\<rparr>"
  let ?h = "(ob_nodes p)(a \<mapsto> ?n)"
  have fresh: "a \<notin> set xs"
    using assms(1,3) links_dom [of "ob_nodes p" None xs None a] by (auto simp: extra_list_def is_list_def)
  have "links h q ys r \<Longrightarrow> a \<notin> set ys \<Longrightarrow> links (h(a \<mapsto> ?n)) q ys r" for h q ys r
    by (induction ys arbitrary: q) (auto split: option.splits)
  then have l: "is_list ?h (ob_list p) xs"
    using assms(1) fresh by (auto simp: extra_list_def is_list_def)
  obtain h' where h': "list_add ?h (ob_list p) a = Some (h', Some a)" "is_list h' (Some a) (a # xs)"
    "data_of h' (a # xs) = data_of ?h (a # xs)"
    using list_add_front [OF l _ fresh, of ?n] by auto
  show thesis
    using h' fresh assms(2)
    by (intro that [of "p\<lparr>ob_nodes := h', ob_list := Some a\<rparr>"])
      (auto simp: ob20_set_extra_info_def extra_list_def data_of_def)
qed

lemma clear_loop_step:
  "clear_extra_info_loop p = (case ob_list p of None \<Rightarrow> Some p
     | Some l \<Rightarrow> clear_extra_info_loop_body p l \<bind> clear_extra_info_loop)"
  by (subst clear_extra_info_loop.simps) (simp split: option.split)

text \<open>C30: \<^verbatim>\<open>clear_extra_info\<close> empties a list of at most one item and frees its node; with two or more it
  reads the node it has just freed, because \<^verbatim>\<open>list_free\<close> frees the whole chain in the first round.\<close>

theorem clear_extra_info_result:
  assumes "extra_list p xs"
  shows "clear_extra_info p = (if length xs \<le> 1
    then Some (p\<lparr>ob_nodes := (\<lambda>a. if a \<in> set xs then None else ob_nodes p a), ob_list := None, ob_current := None\<rparr>)
    else None)"
proof -
  have l: "ob_list p = hd_or xs None" "links (ob_nodes p) None xs None" "distinct xs"
    using assms by (simp_all add: extra_list_def is_list_def)
  let ?h = "\<lambda>a. if a \<in> set xs then None else ob_nodes p a"
  let ?p = "p\<lparr>ob_current := ob_list p\<rparr>"
  have free: "list_free (ob_nodes p) (ob_list p) False = Some (?h, [])"
    using list_free_links [OF l(2,3), of False] l(1) by simp
  show ?thesis
  proof (cases xs)
    case Nil
    have "clear_extra_info_loop ?p = Some ?p" using l(1) Nil by (subst clear_loop_step) simp
    then show ?thesis using Nil by (simp add: clear_extra_info_def)
  next
    case (Cons a ys)
    obtain n where n: "ob_nodes p a = Some n" "nxt n = hd_or ys None"
      using l(2) Cons by (auto split: option.splits)
    let ?q = "p\<lparr>ob_nodes := ?h, ob_list := nxt n, ob_current := nxt n\<rparr>"
    have b: "clear_extra_info_loop_body ?p a = Some ?q"
      using free n by (simp add: clear_extra_info_loop_body_def)
    have step: "clear_extra_info_loop ?p = clear_extra_info_loop ?q"
      using l(1) Cons b by (subst clear_loop_step) simp
    show ?thesis
    proof (cases ys)
      case Nil
      have "clear_extra_info_loop ?q = Some ?q" using n(2) Nil by (subst clear_loop_step) simp
      then show ?thesis using step Cons Nil by (simp add: clear_extra_info_def)
    next
      case (Cons b zs)
      have "?h b = None" using \<open>xs = a # ys\<close> Cons by simp
      then have "clear_extra_info_loop ?q = None"
        using n(2) Cons by (subst clear_loop_step) (simp add: clear_extra_info_loop_body_def)
      then show ?thesis using step \<open>xs = a # ys\<close> Cons by (simp add: clear_extra_info_def)
    qed
  qed
qed

subsection \<open>Writing the extra information\<close>

definition trace_value :: "Ob20Protocol \<Rightarrow> mem \<Rightarrow> bool" where
  "trace_value p bs \<longleftrightarrow> (\<exists>flt t. ob_flt p = Some flt \<and> fl_trace flt = Some t \<and>
     fl_value_data flt = \<lparr>value_data' = SerializeBuf, length' = of_nat (length bs)\<rparr> \<and>
     length bs \<le> length (tr_serialize_buf t) \<and> take (length bs) (tr_serialize_buf t) = bs \<and> length bs < 2 ^ 31)"

lemma trace_value_simps:
  assumes "trace_value p bs"
  shows "value_of p FltValueData = Some \<lparr>value_data' = SerializeBuf, length' = of_nat (length bs)\<rparr>"
    and "data_behind p SerializeBuf \<bind> (\<lambda>src. load_bytes src 0 (length bs)) = Some bs"
    and "sint (of_nat (length bs) :: 64 word) = int (length bs)" and "unat (of_nat (length bs) :: 64 word) = length bs"
proof -
  have small: "length bs < 2 ^ 31" using assms by (auto simp: trace_value_def)
  show "value_of p FltValueData = Some \<lparr>value_data' = SerializeBuf, length' = of_nat (length bs)\<rparr>"
    "data_behind p SerializeBuf \<bind> (\<lambda>src. load_bytes src 0 (length bs)) = Some bs"
    using assms by (auto simp: trace_value_def value_of_def data_behind_def load_bytes_def)
  show "sint (of_nat (length bs) :: 64 word) = int (length bs)"
    using small int_word_sint [of "int (length bs)", where ?'a = 64] by simp
  show "unat (of_nat (length bs) :: 64 word) = length bs"
    using small by (simp add: unsigned_of_nat take_bit_nat_eq_self)
qed

lemma serialize_flt:
  assumes v: "trace_value p bs" and "0 \<le> base + pos" and fit: "base + pos + 6 + int (length bs) \<le> int (length m)"
    and "pos + 6 + int (length bs) \<le> len"
  shows "extrainfo_serialize_flt p m (Some base) len pos FltValueData =
    Some (OB_SUCCESS, put m (base + pos) (tlv 2003 bs), pos + 6 + int (length bs))"
proof -
  obtain src where src: "data_behind p SerializeBuf = Some src" "load_bytes src 0 (length bs) = Some bs"
    using trace_value_simps(2) [OF v] by (auto split: bind_splits)
  have c: "(of_nat 2003 :: 64 word) = scast (2003 :: 16 word)" by simp
  show ?thesis
    using assms(4) trace_value_simps(1,3,4) [OF v] store_tlv [OF assms(2) fit, where type = 2003]
    by (simp add: extrainfo_serialize_flt_def src)
qed


definition trace_item :: "Ob20Protocol \<Rightarrow> addr \<Rightarrow> bool" where
  "trace_item p a \<longleftrightarrow> map_option data (ob_nodes p a) = Some \<lparr>ei_key = 2003, ei_value = FltValueData\<rparr>"

lemma full_trc_entry:
  "extra_serialize_funcs 2003 = Some (Some \<lparr>ei_serialize_func = extrainfo_serialize_flt,
        ei_deserialize_func = extrainfo_deserialize_flt,
        ei_get_serialize_size_func = extrainfo_get_serialize_size_flt\<rparr>)"
  by (simp add: extra_serialize_funcs_def)

lemma fill_step:
  assumes "ob_current p = Some a" and "trace_item p a" and "trace_value p bs"
    and "0 \<le> base + 2 * pos" and "base + 2 * pos + 6 + int (length bs) \<le> int (length m)"
    and "pos + 6 + int (length bs) \<le> len" and "ob_nodes p a = Some n"
  shows "fill_extra_loop p m base len pos =
    fill_extra_loop (p\<lparr>ob_current := nxt n\<rparr>) (put m (base + 2 * pos) (tlv 2003 bs)) base len (pos + 6 + int (length bs))"
proof -
  have e: "base + pos + pos = base + 2 * pos" by simp
  have "data n = \<lparr>ei_key = 2003, ei_value = FltValueData\<rparr>" using assms(2,7) by (simp add: trace_item_def)
  moreover have "extrainfo_serialize_flt p m (Some (base + pos)) len pos FltValueData =
      Some (OB_SUCCESS, put m (base + 2 * pos) (tlv 2003 bs), pos + 6 + int (length bs))"
    by (rule serialize_flt [OF assms(3), of "base + pos" pos m len, unfolded e, OF assms(4-6)])
  ultimately show ?thesis
    using assms(1,7) by (subst fill_extra_loop.simps) (simp add: full_trc_entry)
qed

lemma length_step:
  assumes "ob_current p = Some a" and "trace_item p a" and "trace_value p bs" and "ob_nodes p a = Some n"
  shows "extra_length_loop p acc = extra_length_loop (p\<lparr>ob_current := nxt n\<rparr>) (acc + (6 + of_nat (length bs)))"
proof -
  have "data n = \<lparr>ei_key = 2003, ei_value = FltValueData\<rparr>" using assms(2,4) by (simp add: trace_item_def)
  then show ?thesis
    using assms(1,4) trace_value_simps(1) [OF assms(3)]
    by (subst extra_length_loop.simps) (simp add: full_trc_entry extrainfo_get_serialize_size_flt_def add.assoc)
qed

lemma trace_item_current [simp]:
  "trace_item (p\<lparr>ob_current := c\<rparr>) a = trace_item p a" "trace_value (p\<lparr>ob_current := c\<rparr>) bs = trace_value p bs"
  by (simp_all add: trace_item_def trace_value_def)

text \<open>C31: one full-trace item: \<^verbatim>\<open>get_protocol20_extra_info_length\<close> announces exactly the number of bytes
  that \<^verbatim>\<open>fill_protocol20_extra_info\<close> then writes, and what it writes at the given place is the item with the
  serialised trace information, nothing else.\<close>

theorem extra_info_written:
  assumes "extra_list p [a]" and "trace_item p a" and "trace_value p bs"
    and "0 \<le> base" and "base + 6 + int (length bs) \<le> int (length m)"
  shows "\<exists>n. get_protocol20_extra_info_length p = Some (n, p\<lparr>ob_current := None\<rparr>) \<and> uint n = 6 + int (length bs) \<and>
    fill_protocol20_extra_info (Some p) m base (uint n) =
      Some (uint n, put m base (tlv 2003 bs), Some (p\<lparr>ob_current := None\<rparr>))"
proof -
  obtain k where k: "ob_list p = Some a" "ob_nodes p a = Some k" "nxt k = None"
    using assms(1) by (auto simp: extra_list_def is_list_def split: option.splits)
  let ?p = "p\<lparr>ob_current := ob_list p\<rparr>"
  let ?n = "6 + of_nat (length bs) :: 64 word"
  have small: "length bs < 2 ^ 31" using assms(3) by (auto simp: trace_value_def)
  have "?n = of_nat (6 + length bs)" by simp
  then have n: "uint ?n = 6 + int (length bs)"
    using small by (simp only: unsigned_of_nat) (simp add: take_bit_nat_eq_self)
  have "extra_length_loop ?p 0 = Some (?n, p\<lparr>ob_current := None\<rparr>)"
    using length_step [of ?p a bs k 0] assms(2,3) k by simp (subst extra_length_loop.simps, simp)
  then have len: "get_protocol20_extra_info_length p = Some (?n, p\<lparr>ob_current := None\<rparr>)"
    by (simp add: get_protocol20_extra_info_length_def)
  have "fill_extra_loop ?p m base (6 + int (length bs)) 0 =
      Some (6 + int (length bs), put m base (tlv 2003 bs), p\<lparr>ob_current := None\<rparr>)"
    using fill_step [of ?p a bs base 0 m "6 + int (length bs)" k] assms(2-5) k by simp (subst fill_extra_loop.simps, simp)
  then have "fill_protocol20_extra_info (Some p) m base (uint ?n) =
      Some (uint ?n, put m base (tlv 2003 bs), Some (p\<lparr>ob_current := None\<rparr>))"
    unfolding n by (simp add: fill_protocol20_extra_info_def k)
  with len n show ?thesis by blast
qed

text \<open>C32: with two items the position is added twice, to the pointer and through \<^verbatim>\<open>pos\<close>: the second item is
  written behind the announced length, and the room for it keeps whatever the buffer held.\<close>

theorem second_extra_info_misplaced:
  assumes "extra_list p [a, b]" and "trace_item p a" and "trace_item p b" and "trace_value p bs"
    and "0 \<le> base" and "base + 3 * (6 + int (length bs)) \<le> int (length m)"
  shows "\<exists>n m'. get_protocol20_extra_info_length p = Some (n, p\<lparr>ob_current := None\<rparr>) \<and> uint n = 2 * (6 + int (length bs)) \<and>
    fill_protocol20_extra_info (Some p) m base (uint n) = Some (uint n, m', Some (p\<lparr>ob_current := None\<rparr>)) \<and>
    m' = put (put m base (tlv 2003 bs)) (base + uint n) (tlv 2003 bs) \<and>
    load_bytes m' (base + 6 + int (length bs)) (6 + length bs) = load_bytes m (base + 6 + int (length bs)) (6 + length bs)"
proof -
  obtain j k where j: "ob_list p = Some a" "ob_nodes p a = Some j" "nxt j = Some b"
    and k: "ob_nodes p b = Some k" "nxt k = None"
    using assms(1) by (auto simp: extra_list_def is_list_def split: option.splits)
  let ?p = "p\<lparr>ob_current := ob_list p\<rparr>" and ?L = "6 + int (length bs)"
  let ?n = "6 + of_nat (length bs) + (6 + of_nat (length bs)) :: 64 word"
  have small: "length bs < 2 ^ 31" using assms(4) by (auto simp: trace_value_def)
  have "?n = of_nat (12 + 2 * length bs)" by simp
  then have n: "uint ?n = 2 * ?L"
    using small by (simp only: unsigned_of_nat) (simp add: take_bit_nat_eq_self)
  have len: "get_protocol20_extra_info_length p = Some (?n, p\<lparr>ob_current := None\<rparr>)"
    using length_step [of ?p a bs j 0] length_step [of "p\<lparr>ob_current := Some b\<rparr>" b bs k "6 + of_nat (length bs)"] assms(2-4) j k
    by (simp add: get_protocol20_extra_info_length_def) (subst extra_length_loop.simps, simp)
  let ?T = "tlv 2003 bs"
  let ?m1 = "put m base ?T" and ?m2 = "put (put m base ?T) (base + 2 * ?L) ?T"
  have l1: "length ?m1 = length m" using assms(5,6) by (intro length_put) simp_all
  have f1: "fill_extra_loop ?p m base (2 * ?L) 0 = fill_extra_loop (p\<lparr>ob_current := Some b\<rparr>) ?m1 base (2 * ?L) ?L"
    using fill_step [of ?p a bs base 0 m "2 * ?L" j] assms(2-6) j by simp
  have f2: "fill_extra_loop (p\<lparr>ob_current := Some b\<rparr>) ?m1 base (2 * ?L) ?L =
      fill_extra_loop (p\<lparr>ob_current := None\<rparr>) ?m2 base (2 * ?L) (2 * ?L)"
    using fill_step [of "p\<lparr>ob_current := Some b\<rparr>" b bs base ?L ?m1 "2 * ?L" k] assms(2-6) k l1 by (simp add: add.commute)
  have f3: "fill_extra_loop (p\<lparr>ob_current := None\<rparr>) ?m2 base (2 * ?L) (2 * ?L) = Some (2 * ?L, ?m2, p\<lparr>ob_current := None\<rparr>)"
    by (subst fill_extra_loop.simps) simp
  have fill: "fill_protocol20_extra_info (Some p) m base (uint ?n) = Some (uint ?n, ?m2, Some (p\<lparr>ob_current := None\<rparr>))"
    unfolding n by (simp only: fill_protocol20_extra_info_def option.case f1 f2 f3) (simp add: j)
  have "load_bytes ?m2 (base + ?L) (6 + length bs) = load_bytes ?m1 (base + ?L) (6 + length bs)"
    using assms(5,6) by (intro load_bytes_put_before) (simp_all add: l1)
  also have "\<dots> = load_bytes m (base + ?L) (6 + length bs)"
    using assms(5,6) by (intro load_bytes_put_after) simp_all
  finally have keep: "load_bytes ?m2 (base + 6 + int (length bs)) (6 + length bs) =
      load_bytes m (base + 6 + int (length bs)) (6 + length bs)" by (simp only: add.assoc)
  show ?thesis
    by (rule exI [of _ ?n], rule exI [of _ ?m2]) (intro conjI len n fill keep, simp only: n)
qed

text \<open>A protocol state with a trace whose serialise buffer starts with \<open>bs\<close>, and list nodes \<open>h\<close>.\<close>

definition sample_ob20 :: "mem \<Rightarrow> addr option \<Rightarrow> Ob20ProtocolExtraInfo heap \<Rightarrow> Ob20Protocol" where
  "sample_ob20 bs l h = (ob20_zero 5 7)\<lparr>ob_list := l, ob_nodes := h,
     ob_flt := Some (flt_blank\<lparr>fl_trace := Some ((empty_trace (\<lambda>_. 1) [] (1, 2))\<lparr>tr_serialize_buf := bs\<rparr>),
       fl_value_data := \<lparr>value_data' = SerializeBuf, length' = of_nat (length bs)\<rparr>\<rparr>)\<rparr>"

abbreviation (input) trc_item :: Ob20ProtocolExtraInfo where
  "trc_item \<equiv> \<lparr>ei_key = 2003, ei_value = FltValueData\<rparr>"

lemma sample_value: "length bs < 2 ^ 31 \<Longrightarrow> trace_value (sample_ob20 bs l h) bs"
  by (simp add: trace_value_def sample_ob20_def)

theorem clear_extra_info_result_witness:
  "clear_extra_info (sample_ob20 [1] (Some 3) [3 \<mapsto> \<lparr>prev = None, nxt = None, data = trc_item\<rparr>]) =
     Some (sample_ob20 [1] None Map.empty) \<and>
   clear_extra_info (sample_ob20 [1] (Some 3) [3 \<mapsto> \<lparr>prev = None, nxt = Some 4, data = trc_item\<rparr>,
     4 \<mapsto> \<lparr>prev = Some 3, nxt = None, data = trc_item\<rparr>]) = None"
proof -
  have "extra_list (sample_ob20 [1] (Some 3) [3 \<mapsto> \<lparr>prev = None, nxt = None, data = trc_item\<rparr>]) [3]"
    by (simp add: extra_list_def is_list_def sample_ob20_def)
  note a = clear_extra_info_result [OF this]
  have "extra_list (sample_ob20 [1] (Some 3) [3 \<mapsto> \<lparr>prev = None, nxt = Some 4, data = trc_item\<rparr>,
     4 \<mapsto> \<lparr>prev = Some 3, nxt = None, data = trc_item\<rparr>]) [3, 4]"
    by (simp add: extra_list_def is_list_def sample_ob20_def)
  note b = clear_extra_info_result [OF this]
  show ?thesis
    unfolding a b by (auto simp: sample_ob20_def ob20_zero_def fun_eq_iff)
qed

theorem extra_info_written_witness:
  "\<exists>n. uint n = 8 \<and> fill_protocol20_extra_info
     (Some (sample_ob20 [1, 2] (Some 3) [3 \<mapsto> \<lparr>prev = None, nxt = None, data = trc_item\<rparr>])) (replicate 12 0) 4 (uint (n :: 64 word)) =
     Some (uint n, put (replicate 12 0) 4 (tlv 2003 [1, 2]),
       Some (sample_ob20 [1, 2] (Some 3) [3 \<mapsto> \<lparr>prev = None, nxt = None, data = trc_item\<rparr>]))"
proof -
  let ?p = "sample_ob20 [1, 2] (Some 3) [3 \<mapsto> \<lparr>prev = None, nxt = None, data = trc_item\<rparr>]"
  have l: "extra_list ?p [3]" "trace_item ?p 3" by (simp_all add: extra_list_def is_list_def trace_item_def sample_ob20_def)
  have v: "trace_value ?p [1, 2]" by (rule sample_value) simp
  have "?p\<lparr>ob_current := None\<rparr> = ?p" by (simp add: sample_ob20_def ob20_zero_def)
  then show ?thesis using extra_info_written [OF l v, of 4 "replicate 12 0"] by auto
qed

theorem second_extra_info_misplaced_witness:
  "\<exists>n m'. uint n = 14 \<and> fill_protocol20_extra_info
     (Some (sample_ob20 [1] (Some 3) [3 \<mapsto> \<lparr>prev = None, nxt = Some 4, data = trc_item\<rparr>,
        4 \<mapsto> \<lparr>prev = Some 3, nxt = None, data = trc_item\<rparr>])) (replicate 21 9) 0 (uint (n :: 64 word)) =
     Some (uint n, m', Some (sample_ob20 [1] (Some 3) [3 \<mapsto> \<lparr>prev = None, nxt = Some 4, data = trc_item\<rparr>,
        4 \<mapsto> \<lparr>prev = Some 3, nxt = None, data = trc_item\<rparr>])) \<and> load_bytes m' 7 7 = Some (replicate 7 9)"
proof -
  let ?p = "sample_ob20 [1] (Some 3) [3 \<mapsto> \<lparr>prev = None, nxt = Some 4, data = trc_item\<rparr>,
        4 \<mapsto> \<lparr>prev = Some 3, nxt = None, data = trc_item\<rparr>]"
  have l: "extra_list ?p [3, 4]" "trace_item ?p 3" "trace_item ?p 4"
    by (simp_all add: extra_list_def is_list_def trace_item_def sample_ob20_def)
  have v: "trace_value ?p [1]" by (rule sample_value) simp
  have "?p\<lparr>ob_current := None\<rparr> = ?p" by (simp add: sample_ob20_def ob20_zero_def)
  moreover have "load_bytes (replicate 21 9) 7 7 = Some (replicate 7 9)" by (simp add: load_bytes_def)
  ultimately show ?thesis using second_extra_info_misplaced [OF l v, of 0 "replicate 21 9"] by auto
qed

theorem large_key_out_of_table_witness:
  "decode_protocol20_extra_info (ob20_zero 5 7) (le_bytes 4 (7 :: 32 word) @ tlv 2100 [0]) 0 = None"
  using large_key_out_of_table [of "[]" 2100 "tlv 2100 [0]" "[0]" "[]" "le_bytes 4 (7 :: 32 word) @ tlv 2100 [0]" 0 "ob20_zero 5 7"]
  by (simp add: items_bytes_def holds_at_def load_bytes_def)


end
