(* ===== verification/MaNet.thy ===== *)
theory MaNet
  imports ObProtocol20
begin

unbundle bit_operations_syntax

section \<open>Packets (libmariadb/ma_net.c, libmariadb/ma_compress.c)\<close>

text \<open>
  The packet layer cuts what a client sends into packets of a 4-byte header and at most
  16777215 bytes, gathers small packets in a buffer, and reads packets back.  Over a connection
  with compression the packets travel inside compressed packets, over a connection with the OB 2.0
  protocol inside the packets of \<^verbatim>\<open>ob_protocol20.c\<close>.

  \<open>NET\<close> is the structure of the same name; the pointers into the buffer are offsets.  What lies
  outside the library is in the environment \<open>net_env\<close>: the two functions of the transport (how many
  bytes were written; how many were read, and which), \<^verbatim>\<open>malloc\<close> and \<^verbatim>\<open>realloc\<close> (the content of a new
  block is unspecified), zlib, and the checksum instruction.  \<open>None\<close> is undefined behaviour or
  non-termination.
\<close>

subsection \<open>Environment and state\<close>

record 's net_env =
  pvio_write :: "'s \<Rightarrow> mem \<Rightarrow> int \<times> 's"
  pvio_read :: "'s \<Rightarrow> int \<Rightarrow> int \<times> mem \<times> 's"
  env_malloc :: "int \<Rightarrow> mem option"
  env_realloc :: "cbuf \<Rightarrow> int \<Rightarrow> mem option"
  z_compress :: "mem \<Rightarrow> int \<Rightarrow> int + mem"
  z_uncompress :: "mem \<Rightarrow> int \<Rightarrow> mem option"
  crc64_sse42 :: "64 word \<Rightarrow> mem \<Rightarrow> int \<Rightarrow> 64 word option"
  has_sse42 :: bool

record 's NET =
  buff :: mem
  write_pos :: int
  read_pos :: int
  remain_in_buf :: int
  buf_length :: int
  where_b :: int
  max_packet :: int
  max_packet_size :: int
  pkt_nr :: "32 word"
  compress_pkt_nr :: "32 word"
  reading_or_writing :: "8 word"
  save_char :: byte
  compress :: bool
  use_ob20protocol :: bool
  last_errno :: int
  net_error :: "8 word"
  multi_status :: "32 word"
  ob20protocol :: "Ob20Protocol option"
  net_io :: 's

abbreviation (input) MAX_PACKET_LENGTH :: int where "MAX_PACKET_LENGTH \<equiv> 16777215"
abbreviation (input) MAX_PACKET_LENGTH_WITH_OB20 :: int where "MAX_PACKET_LENGTH_WITH_OB20 \<equiv> 16777183"
abbreviation (input) IO_SIZE :: int where "IO_SIZE \<equiv> 4096"
abbreviation (input) packet_error :: int where "packet_error \<equiv> 4294967295"
abbreviation (input) ER_OUT_OF_RESOURCES :: int where "ER_OUT_OF_RESOURCES \<equiv> 1041"
abbreviation (input) ER_NET_PACKET_TOO_LARGE :: int where "ER_NET_PACKET_TOO_LARGE \<equiv> 1153"
abbreviation (input) ER_NET_UNCOMPRESS_ERROR :: int where "ER_NET_UNCOMPRESS_ERROR \<equiv> 1157"
abbreviation (input) ER_NET_READ_ERROR :: int where "ER_NET_READ_ERROR \<equiv> 1158"
abbreviation (input) ER_NET_ERROR_ON_WRITE :: int where "ER_NET_ERROR_ON_WRITE \<equiv> 1160"

text \<open>Length of a byte list as the \<^verbatim>\<open>size_t\<close> the source passes along with a pointer.\<close>

definition len64 :: "mem \<Rightarrow> 64 word" where
  "len64 bs = of_nat (length bs)"

subsection \<open>Compression (\<^verbatim>\<open>ma_compress.c\<close>)\<close>

text \<open>
  \<^verbatim>\<open>_mariadb_compress_alloc\<close> returns the compressed block or null, and the new values of \<^verbatim>\<open>len\<close> and
  \<^verbatim>\<open>complen\<close>.  When zlib fails \<^verbatim>\<open>complen\<close> is what zlib left in it.
\<close>

definition mariadb_compress_alloc :: "'s net_env \<Rightarrow> mem \<Rightarrow> mem option \<times> int" where
  "mariadb_compress_alloc env packet =
     (let complen = int (length packet) * 120 div 100 + 12 in
      case env_malloc env complen of
        None \<Rightarrow> (None, complen)
      | Some _ \<Rightarrow>
          (case z_compress env packet complen of
             Inl complen \<Rightarrow> (None, complen)
           | Inr c \<Rightarrow>
               if int (length c) \<ge> int (length packet) then (None, 0)
               else (Some c, int (length packet))))"

definition mariadb_compress :: "'s net_env \<Rightarrow> mem \<Rightarrow> bool \<times> mem \<times> int" where
  "mariadb_compress env packet =
     (if int (length packet) < 50 then (False, packet, 0)
      else case mariadb_compress_alloc env packet of
        (None, complen) \<Rightarrow> (complen = 0, packet, complen)
      | (Some compbuf, complen) \<Rightarrow> (False, compbuf, complen))"

definition mariadb_uncompress :: "'s net_env \<Rightarrow> mem \<Rightarrow> int \<Rightarrow> (mem \<times> int) option" where
  "mariadb_uncompress env packet complen =
     (if complen \<noteq> 0 then
        (case env_malloc env complen of
           None \<Rightarrow> None
         | Some _ \<Rightarrow> map_option (\<lambda>d. (d, int (length d))) (z_uncompress env packet complen))
      else Some (packet, int (length packet)))"

subsection \<open>Life cycle of the buffer\<close>

definition ma_net_init :: "'s net_env \<Rightarrow> bool \<Rightarrow> int \<Rightarrow> int \<Rightarrow> 's NET \<Rightarrow> int \<times> 's NET" where
  "ma_net_init env has_extension net_buffer_length max_allowed_packet net =
     (case env_malloc env net_buffer_length of
        None \<Rightarrow> (1, net\<lparr>buff := []\<rparr>)
      | Some b \<Rightarrow>
          if \<not> has_extension then (1, net\<lparr>buff := b\<rparr>)
          else (0, net\<lparr>buff := replicate (nat net_buffer_length) 0,
                 max_packet_size := max net_buffer_length max_allowed_packet,
                 max_packet := net_buffer_length, net_error := 0, compress_pkt_nr := 0, pkt_nr := 0,
                 write_pos := 0, read_pos := 0, compress := False, reading_or_writing := 0,
                 where_b := 0, remain_in_buf := 0, last_errno := 0, use_ob20protocol := False\<rparr>))"

definition ma_net_end :: "'s NET \<Rightarrow> 's NET option" where
  "ma_net_end net = (case ob20protocol net of
     None \<Rightarrow> Some (net\<lparr>buff := []\<rparr>)
   | Some p \<Rightarrow> do {
       _ \<leftarrow> ob20_end (Some p);
       Some (net\<lparr>buff := [], ob20protocol := None, use_ob20protocol := False, compress := False\<rparr>) })"

definition net_realloc :: "'s net_env \<Rightarrow> 's NET \<Rightarrow> int \<Rightarrow> bool \<times> 's NET" where
  "net_realloc env net len =
     (if len \<ge> max_packet_size net then (True, net\<lparr>net_error := 1, last_errno := ER_NET_PACKET_TOO_LARGE\<rparr>)
      else
        let pkt_length = (len + IO_SIZE - 1) div IO_SIZE * IO_SIZE in
        case env_realloc env (Some (buff net)) (pkt_length + NET_HEADER_SIZE + COMP_HEADER_SIZE) of
          None \<Rightarrow> (True, net\<lparr>net_error := 1\<rparr>)
        | Some b \<Rightarrow> (False, net\<lparr>buff := b, write_pos := 0, max_packet := pkt_length\<rparr>))"

definition ma_net_clear :: "'s NET \<Rightarrow> 's NET" where
  "ma_net_clear net =
     (if multi_status net > 0 then net
      else net\<lparr>compress_pkt_nr := 0, pkt_nr := 0, write_pos := 0\<rparr>)"

subsection \<open>Writing\<close>

text \<open>The loop over \<^verbatim>\<open>ma_pvio_write\<close>: \<open>False\<close> when the transport failed.\<close>

function write_loop :: "('s \<Rightarrow> mem \<Rightarrow> int \<times> 's) \<Rightarrow> 's \<Rightarrow> mem \<Rightarrow> (bool \<times> 's) option" where
  "write_loop wr s bs =
     (if bs = [] then Some (True, s)
      else case wr s bs of (n, s) \<Rightarrow>
        if n \<le> 0 then Some (False, s)
        else if n > int (length bs) then None
        else write_loop wr s (drop (nat n) bs))"
  by auto
termination
  by (relation "measure (\<lambda>(wr, s, bs). length bs)") auto

declare write_loop.simps [simp del]

text \<open>
  The part of \<^verbatim>\<open>ma_net_real_write\<close> for the OB 2.0 protocol, in its steps: the size of the write buffer,
  the extra information, and the packet around them.  \<open>Inl\<close> is an early return.
\<close>

definition ob20_grow ::
  "'s net_env \<Rightarrow> 's NET \<Rightarrow> Ob20Protocol \<Rightarrow> 32 word \<Rightarrow> (int + Ob20Protocol) \<times> 's NET" where
  "ob20_grow env net p len =
     (if ob_real_write_buffer_length p < len then
        (case env_realloc env (ob_real_write_buffer p) (uint len) of
           None \<Rightarrow> (Inl 1, net\<lparr>last_errno := ER_OUT_OF_RESOURCES, net_error := 2, reading_or_writing := 0,
                       ob20protocol := Some (p\<lparr>ob_real_write_buffer := None\<rparr>)\<rparr>)
         | Some b \<Rightarrow> (Inr (p\<lparr>ob_real_write_buffer := Some b, ob_real_write_buffer_length := len\<rparr>), net))
      else (Inr p, net))"

definition ob20_set_flags :: "Ob20Protocol \<Rightarrow> (32 word \<Rightarrow> 32 word) \<Rightarrow> Ob20Protocol" where
  "ob20_set_flags p f = p\<lparr>ob_header := (ob_header p)\<lparr>flags := f (flags (ob_header p))\<rparr>\<rparr>"

definition ob20_store_extra ::
  "Ob20Protocol \<Rightarrow> mem \<Rightarrow> 32 word \<Rightarrow> (bool \<times> 32 word \<times> mem \<times> Ob20Protocol) option" where
  "ob20_store_extra p b extra =
     (if extra \<noteq> 0 then do {
        b \<leftarrow> int4store b 31 (ucast extra);
        (pos, b, q) \<leftarrow> fill_protocol20_extra_info (Some p) b 35 (uint extra);
        p \<leftarrow> q;
        let p = ob20_set_flags p (\<lambda>w. unset_bit 1 (set_bit 0 (set_bit 3 w)));
        if pos \<noteq> uint extra then Some (False, extra, b, p)
        else do {
          p \<leftarrow> clear_extra_info p;
          Some (True, extra + 4, b, p) } }
      else Some (True, extra, b, ob20_set_flags p (\<lambda>w. unset_bit 3 (unset_bit 0 w))))"

definition ob20_frame :: "'s net_env \<Rightarrow> 's NET \<Rightarrow> mem \<Rightarrow> ((int + mem) \<times> 's NET) option" where
  "ob20_frame env net packet = do {
     p \<leftarrow> ob20protocol net;
     (n, p) \<leftarrow> get_protocol20_extra_info_length p;
     let extra = (ucast n :: 32 word);
     let ob20_packet_len = ucast (len64 packet) + extra + (if extra \<noteq> 0 then 32 else 28);
     (case ob20_grow env net p (ob20_packet_len + 8) of
        (Inl rc, net) \<Rightarrow> Some (Inl rc, net)
      | (Inr p, net) \<Rightarrow> do {
          b \<leftarrow> ob_real_write_buffer p;
          (ok, extra, b, p) \<leftarrow> ob20_store_extra p b extra;
          if \<not> ok then Some (Inl 1, net\<lparr>ob20protocol := Some (p\<lparr>ob_real_write_buffer := Some b\<rparr>)\<rparr>)
          else do {
            b \<leftarrow> store_bytes b (31 + uint extra) packet;
            body \<leftarrow> sub_object b 31;
            crc32 \<leftarrow> ob_crc32 (crc64_sse42 env) (has_sse42 env) 0 body (sint (len64 packet + ucast extra));
            b \<leftarrow> int4store b (31 + uint extra + int (length packet)) (ucast crc32);
            let p = p\<lparr>ob_header := (ob_header p)\<lparr>payload_len := ucast (len64 packet + ucast extra)\<rparr>\<rparr>;
            let nr = compress_pkt_nr net;
            let net = net\<lparr>compress_pkt_nr := nr + 1\<rparr>;
            (pos, b, p) \<leftarrow> fill_protocol20_header p (ucast ob20_packet_len) (ucast nr) 0 b;
            let net = net\<lparr>ob20protocol := Some (p\<lparr>ob_real_write_buffer := Some b\<rparr>)\<rparr>;
            if pos \<noteq> 31 then Some (Inl 1, net)
            else do {
              bs \<leftarrow> load_bytes b 0 (unat ob20_packet_len + 7);
              Some (Inr bs, net) } } }) }"

definition compress_frame :: "'s net_env \<Rightarrow> 's NET \<Rightarrow> mem \<Rightarrow> ((int + mem) \<times> 's NET) option" where
  "compress_frame env net packet =
     (case env_malloc env (int (length packet) + 8) of
        None \<Rightarrow> Some (Inl 1, net\<lparr>last_errno := ER_OUT_OF_RESOURCES, net_error := 2, reading_or_writing := 0\<rparr>)
      | Some b \<Rightarrow> do {
          b \<leftarrow> store_bytes b 7 packet;
          let (failed, c, complen) = mariadb_compress env packet;
          let complen = (if failed then 0 else complen);
          b \<leftarrow> store_bytes b 7 c;
          b \<leftarrow> int3store b 4 (word_of_int complen);
          b \<leftarrow> int3store b 0 (len64 c);
          b \<leftarrow> store_byte b 3 (ucast (compress_pkt_nr net));
          bs \<leftarrow> load_bytes b 0 (length c + 7);
          Some (Inr bs, net\<lparr>compress_pkt_nr := compress_pkt_nr net + 1\<rparr>) })"

definition ma_net_real_write :: "'s net_env \<Rightarrow> 's NET \<Rightarrow> mem \<Rightarrow> (int \<times> 's NET) option" where
  "ma_net_real_write env net packet =
     (if net_error net = 2 then Some (- 1, net)
      else do {
        let net = net\<lparr>reading_or_writing := 2\<rparr>;
        (r, net) \<leftarrow> (if compress net then
                     if use_ob20protocol net then ob20_frame env net packet else compress_frame env net packet
                   else Some (Inr packet, net));
        (case r of
           Inl rc \<Rightarrow> Some (rc, net)
         | Inr bs \<Rightarrow> do {
             (ok, s) \<leftarrow> write_loop (pvio_write env) (net_io net) bs;
             if ok then Some (0, net\<lparr>net_io := s, reading_or_writing := 0\<rparr>)
             else Some (1, net\<lparr>net_io := s, net_error := 2, last_errno := ER_NET_ERROR_ON_WRITE,
                            reading_or_writing := 0\<rparr>) }) })"

definition ma_net_flush :: "'s net_env \<Rightarrow> 's NET \<Rightarrow> (int \<times> 's NET) option" where
  "ma_net_flush env net =
     (if multi_status net > 0 then Some (0, net)
      else do {
        (error, net) \<leftarrow> (if write_pos net \<noteq> 0 then do {
            bs \<leftarrow> load_bytes (buff net) 0 (nat (write_pos net));
            (error, net) \<leftarrow> ma_net_real_write env net bs;
            Some (error, net\<lparr>write_pos := 0\<rparr>) }
          else Some (0, net));
        Some (error, if compress net then net\<lparr>pkt_nr := compress_pkt_nr net\<rparr> else net) })"

text \<open>
  \<^verbatim>\<open>ma_net_write_buff\<close>, in its steps: with the OB 2.0 protocol the extra information is sent alone when
  it does not fit beside the buffered bytes, and the buffer grows; then the room left is computed, full
  buffers are sent, and the rest is kept.
\<close>

definition write_buff_prepare :: "'s net_env \<Rightarrow> 's NET \<Rightarrow> int \<Rightarrow> (bool \<times> 's NET) option" where
  "write_buff_prepare env net len = do {
     p \<leftarrow> ob20protocol net;
     (n, p) \<leftarrow> get_protocol20_extra_info_length p;
     let net = net\<lparr>ob20protocol := Some p\<rparr>;
     if uint n > MAX_PACKET_LENGTH_WITH_OB20 then Some (False, net)
     else do {
       (rc, net) \<leftarrow> (if uint n + write_pos net > MAX_PACKET_LENGTH_WITH_OB20
                   then ma_net_real_write env net [] else Some (0, net));
       if rc \<noteq> 0 then Some (False, net)
       else if len > max_packet net - write_pos net \<and> max_packet net \<le> MAX_PACKET_LENGTH_WITH_OB20 then
         (let write_len = write_pos net;
              resize_len = min (len + write_len) MAX_PACKET_LENGTH_WITH_OB20
          in case net_realloc env net resize_len of
               (True, net) \<Rightarrow> Some (False, net)
             | (False, net) \<Rightarrow> Some (True, net\<lparr>write_pos := write_pos net + write_len\<rparr>))
       else Some (True, net) } }"

definition write_buff_left :: "'s NET \<Rightarrow> int" where
  "write_buff_left net = to_uint64
     ((if max_packet net > MAX_PACKET_LENGTH_WITH_OB20 \<and> compress net \<and> use_ob20protocol net
       then MAX_PACKET_LENGTH_WITH_OB20
       else if max_packet net > MAX_PACKET_LENGTH \<and> compress net then MAX_PACKET_LENGTH
       else max_packet net) - write_pos net)"

text \<open>The loop over full compressed packets: the bytes that are left, or \<open>None\<close> in the first component after a failure.\<close>

function write_full_packets ::
  "'s net_env \<Rightarrow> int \<Rightarrow> 's NET \<Rightarrow> mem \<Rightarrow> (mem option \<times> 's NET) option" where
  "write_full_packets env left net packet =
     (if 0 < left \<and> int (length packet) > left then do {
        (rc, net) \<leftarrow> ma_net_real_write env net (take (nat left) packet);
        if rc \<noteq> 0 then Some (None, net)
        else write_full_packets env left net (drop (nat left) packet) }
      else Some (Some packet, net))"
  by auto
termination
  by (relation "measure (\<lambda>(env, left, net, packet). length packet)") auto

declare write_full_packets.simps [simp del]

definition write_buff_keep :: "'s NET \<Rightarrow> mem \<Rightarrow> (int \<times> 's NET) option" where
  "write_buff_keep net packet = do {
     b \<leftarrow> store_bytes (buff net) (write_pos net) packet;
     Some (0, net\<lparr>buff := b, write_pos := write_pos net + int (length packet)\<rparr>) }"

text \<open>The first branch of the overflow case: the room left is filled and the buffer sent.\<close>

definition write_buff_fill :: "'s net_env \<Rightarrow> 's NET \<Rightarrow> mem \<Rightarrow> int \<Rightarrow> (mem option \<times> 's NET) option" where
  "write_buff_fill env net packet left =
     (if write_pos net \<noteq> 0 then do {
        b \<leftarrow> store_bytes (buff net) (write_pos net) (take (nat left) packet);
        let net = net\<lparr>buff := b\<rparr>;
        bs \<leftarrow> load_bytes b 0 (nat (write_pos net + left));
        (rc, net) \<leftarrow> ma_net_real_write env net bs;
        if rc \<noteq> 0 then Some (None, net)
        else Some (Some (drop (nat left) packet), net\<lparr>write_pos := 0\<rparr>) }
      else Some (Some packet, net))"

definition write_buff_store :: "'s net_env \<Rightarrow> 's NET \<Rightarrow> mem \<Rightarrow> (int \<times> 's NET) option" where
  "write_buff_store env net packet =
     (let left = write_buff_left net in
      if int (length packet) > left then do {
        (r, net) \<leftarrow> write_buff_fill env net packet left;
        (r, net) \<leftarrow> (case r of
            None \<Rightarrow> Some (None, net)
          | Some packet \<Rightarrow>
              if compress net then
                write_full_packets env
                  (if use_ob20protocol net then MAX_PACKET_LENGTH_WITH_OB20 else MAX_PACKET_LENGTH) net packet
              else Some (Some packet, net));
        (case r of
           None \<Rightarrow> Some (1, net)
         | Some packet \<Rightarrow>
             if int (length packet) > max_packet net then do {
               (rc, net) \<leftarrow> ma_net_real_write env net packet;
               Some (if rc \<noteq> 0 then 1 else 0, net) }
             else write_buff_keep net packet) }
      else write_buff_keep net packet)"

definition ma_net_write_buff :: "'s net_env \<Rightarrow> 's NET \<Rightarrow> mem \<Rightarrow> (int \<times> 's NET) option" where
  "ma_net_write_buff env net packet =
     (if packet = [] then Some (0, net)
      else do {
        (ok, net) \<leftarrow> (if use_ob20protocol net then write_buff_prepare env net (int (length packet)) else Some (True, net));
        if \<not> ok then Some (1, net) else write_buff_store env net packet })"

text \<open>The two calls \<^verbatim>\<open>ma_net_write_buff(...) || ma_net_write_buff(...)\<close> for header and data.\<close>

definition write_buff2 :: "'s net_env \<Rightarrow> 's NET \<Rightarrow> mem \<Rightarrow> mem \<Rightarrow> (int \<times> 's NET) option" where
  "write_buff2 env net hdr packet = do {
     (rc, net) \<leftarrow> ma_net_write_buff env net hdr;
     if rc \<noteq> 0 then Some (1, net)
     else do {
       (rc, net) \<leftarrow> ma_net_write_buff env net packet;
       Some (if rc \<noteq> 0 then 1 else 0, net) } }"

definition net_header :: "int \<Rightarrow> byte \<Rightarrow> mem" where
  "net_header len nr = le_bytes 3 (word_of_int len :: 64 word) @ [nr]"

definition net_update_request_id :: "bool \<Rightarrow> 's NET \<Rightarrow> 's NET" where
  "net_update_request_id always net = (case ob20protocol net of
     None \<Rightarrow> net
   | Some p \<Rightarrow>
       if use_ob20protocol net \<and> (always \<or> ob_update_request_id p)
       then net\<lparr>ob20protocol := Some (p\<lparr>ob_header := (ob_header p)\<lparr>request_id := update_request_id (request_id (ob_header p))\<rparr>\<rparr>)\<rparr>
       else net)"

function net_write_loop :: "'s net_env \<Rightarrow> 's NET \<Rightarrow> mem \<Rightarrow> (int \<times> 's NET) option" where
  "net_write_loop env net packet =
     (let hdr = net_header (min (int (length packet)) MAX_PACKET_LENGTH) (ucast (pkt_nr net));
          net = net\<lparr>pkt_nr := pkt_nr net + 1\<rparr> in
      if int (length packet) \<ge> MAX_PACKET_LENGTH then do {
        (rc, net) \<leftarrow> write_buff2 env net hdr (take 16777215 packet);
        if rc \<noteq> 0 then Some (1, net)
        else net_write_loop env net (drop 16777215 packet) }
      else write_buff2 env net hdr packet)"
  by auto
termination
  by (relation "measure (\<lambda>(env, net, packet). length packet)") auto

declare net_write_loop.simps [simp del]

definition ma_net_write :: "'s net_env \<Rightarrow> 's NET \<Rightarrow> mem \<Rightarrow> (int \<times> 's NET) option" where
  "ma_net_write env net packet = net_write_loop env (net_update_request_id False net) packet"

definition command_nr :: "'s NET \<Rightarrow> byte \<times> 's NET" where
  "command_nr net =
     (if use_ob20protocol net \<or> \<not> compress net then (ucast (pkt_nr net), net\<lparr>pkt_nr := pkt_nr net + 1\<rparr>)
      else (0, net))"

text \<open>\<open>cmd\<close> is the command byte, which only the first packet carries.\<close>

function write_command_loop :: "'s net_env \<Rightarrow> 's NET \<Rightarrow> mem \<Rightarrow> mem \<Rightarrow> (int \<times> 's NET) option" where
  "write_command_loop env net cmd packet =
     (let len = int (length cmd) + int (length packet); (nr, net) = command_nr net in
      if len \<ge> MAX_PACKET_LENGTH then do {
        (rc, net) \<leftarrow> write_buff2 env net (net_header MAX_PACKET_LENGTH nr @ cmd) (take (16777215 - length cmd) packet);
        if rc \<noteq> 0 then Some (1, net)
        else write_command_loop env net [] (drop (16777215 - length cmd) packet) }
      else write_buff2 env net (net_header len nr @ cmd) packet)"
  by auto
termination
  by (relation "measure (\<lambda>(env, net, cmd, packet). length cmd + length packet)") auto

declare write_command_loop.simps [simp del]

definition ma_net_write_command :: "'s net_env \<Rightarrow> 's NET \<Rightarrow> byte \<Rightarrow> mem \<Rightarrow> bool \<Rightarrow> (int \<times> 's NET) option" where
  "ma_net_write_command env net command packet disable_flush = do {
     (rc, net) \<leftarrow> write_command_loop env (net_update_request_id True net) [command] packet;
     if rc = 0 \<and> \<not> disable_flush then do {
       (rc, net) \<leftarrow> ma_net_flush env net;
       Some (if rc \<noteq> 0 then 1 else 0, net) }
     else Some (rc, net) }"

definition net_add_multi_command :: "'s net_env \<Rightarrow> 's NET \<Rightarrow> byte \<Rightarrow> mem \<Rightarrow> (int \<times> 's NET) option" where
  "net_add_multi_command env net command packet =
     (if multi_status net = 0 then Some (1, net)
      else ma_net_write_command env (net\<lparr>compress_pkt_nr := 0, pkt_nr := 0\<rparr>) command packet True)"

subsection \<open>Reading\<close>

text \<open>
  The loop over \<^verbatim>\<open>ma_pvio_cache_read\<close> that fills \<open>remain\<close> bytes of the buffer from \<open>pos\<close>:
  \<open>False\<close> when the transport failed.  The transport returns the number of bytes and the bytes.
\<close>

function read_loop :: "('s \<Rightarrow> int \<Rightarrow> int \<times> mem \<times> 's) \<Rightarrow> 's \<Rightarrow> mem \<Rightarrow> int \<Rightarrow> int \<Rightarrow> (bool \<times> mem \<times> 's) option" where
  "read_loop rd s b pos remain =
     (if remain > 0 then
        (case rd s remain of (n, bs, s) \<Rightarrow>
           if n \<le> 0 then Some (False, b, s)
           else if n > remain \<or> int (length bs) \<noteq> n then None
           else case store_bytes b pos bs of None \<Rightarrow> None
                | Some b \<Rightarrow> read_loop rd s b (pos + n) (remain - n))
      else Some (True, b, s))"
  by auto
termination
  by (relation "measure (\<lambda>(rd, s, b, pos, remain). nat remain)") auto

declare read_loop.simps [simp del]

text \<open>\<^verbatim>\<open>ma_real_read\<close>, with the second round of its loop, which reads the data, as a function of its own.\<close>

definition real_read_data :: "'s net_env \<Rightarrow> 's NET \<Rightarrow> int \<Rightarrow> int \<Rightarrow> (int \<times> int \<times> 's NET) option" where
  "real_read_data env net len complen =
     (let helping = max len complen + where_b net;
          (failed, net) = (if helping \<ge> max_packet net then net_realloc env net helping else (False, net))
      in
      if failed then Some (packet_error, complen, net\<lparr>reading_or_writing := 0\<rparr>)
      else do {
        (ok, b, s) \<leftarrow> read_loop (pvio_read env) (net_io net) (buff net) (where_b net) len;
        let net = net\<lparr>buff := b, net_io := s\<rparr>;
        if \<not> ok then Some (packet_error, complen, net\<lparr>net_error := 2, reading_or_writing := 0\<rparr>)
        else Some (len, complen, net\<lparr>reading_or_writing := 0\<rparr>) })"

definition ma_real_read :: "'s net_env \<Rightarrow> 's NET \<Rightarrow> (int \<times> int \<times> 's NET) option" where
  "ma_real_read env net = do {
     (ok, b, s) \<leftarrow> read_loop (pvio_read env) (net_io net) (buff net) (where_b net) (if compress net then 7 else 4);
     let net = net\<lparr>buff := b, net_io := s\<rparr>;
     if \<not> ok then Some (packet_error, 0, net\<lparr>net_error := 2, reading_or_writing := 0\<rparr>)
     else do {
       nr \<leftarrow> load_byte b (where_b net + 3);
       let net = net\<lparr>pkt_nr := ucast nr + 1, compress_pkt_nr := ucast nr + 1\<rparr>;
       complen \<leftarrow> (if compress net then map_option uint (uint3korr b (where_b net + 4)) else Some 0);
       len \<leftarrow> map_option uint (uint3korr b (where_b net));
       if len = 0 then Some (0, complen, net\<lparr>reading_or_writing := 0\<rparr>)
       else real_read_data env net len complen } }"

text \<open>Packets without compression: a packet of full length is followed by another.\<close>

partial_function (option) read_more :: "'s net_env \<Rightarrow> 's NET \<Rightarrow> int \<Rightarrow> int \<Rightarrow> (int \<times> int \<times> 's NET) option" where
  "read_more env net acc len =
     (if len = MAX_PACKET_LENGTH then do {
        let net = net\<lparr>where_b := where_b net + len\<rparr>;
        (len', complen, net) \<leftarrow> ma_real_read env net;
        read_more env net (acc + len) len' }
      else Some (acc, len, net))"

definition net_read_plain :: "'s net_env \<Rightarrow> 's NET \<Rightarrow> (int \<times> 's NET) option" where
  "net_read_plain env net = do {
     let last_pos = where_b net;
     (len, complen, net) \<leftarrow> ma_real_read env net;
     (acc, len, net) \<leftarrow> read_more env net 0 len;
     let len = (if len \<noteq> packet_error then len + acc else len);
     let net = net\<lparr>where_b := last_pos, read_pos := last_pos\<rparr>;
     if len \<noteq> packet_error then do {
       b \<leftarrow> store_byte (buff net) (read_pos net + len) 0;
       Some (len, net\<lparr>buff := b\<rparr>) }
     else Some (len, net) }"

text \<open>The extra information of a packet: its size with the length field, and the state after parsing it.\<close>

definition ob20_read_extra :: "Ob20Protocol \<Rightarrow> mem \<Rightarrow> int \<Rightarrow> (int \<times> Ob20Protocol) option" where
  "ob20_read_extra p m cur =
     (if OB_EXTRA_INFO_EXIST (flags (ob_header p)) then do {
        n \<leftarrow> uint4korr m cur;
        p \<leftarrow> (if OB_IS_NEW_EXTRA_INFO (flags (ob_header p))
             then map_option snd (decode_protocol20_extra_info p m cur) else Some p);
        Some (uint n + 4, p) }
      else Some (0, p))"

text \<open>
  One packet of the OB 2.0 protocol, read to \<open>where_b\<close>, is replaced by its payload without the extra
  information; the result is the length of that, or \<open>None\<close> for the error return.  The result of parsing
  the extra information is ignored.
\<close>

definition ob20_unframe :: "'s net_env \<Rightarrow> 's NET \<Rightarrow> int \<Rightarrow> (int option \<times> 's NET) option" where
  "ob20_unframe env net packet_length = do {
     let fail = (\<lambda>net. Some (None, net\<lparr>net_error := 2, last_errno := ER_NET_READ_ERROR\<rparr>));
     p \<leftarrow> ob20protocol net;
     (ret, p) \<leftarrow> decode_protocol20_header p (buff net) (where_b net) (word_of_int packet_length) (pkt_nr net - 1) 0;
     let net = net\<lparr>ob20protocol := Some p\<rparr>;
     if ret \<noteq> 0 then fail net
     else do {
       let cur = where_b net + 24;
       let plen = uint (payload_len (ob_header p));
       packet_crc32 \<leftarrow> uint4korr (buff net) (cur + plen);
       crc_ok \<leftarrow> (if packet_crc32 \<noteq> 0 then do {
           body \<leftarrow> sub_object (buff net) cur;
           crc32 \<leftarrow> ob_crc32 (crc64_sse42 env) (has_sse42 env) 0 body plen;
           Some (crc32 = packet_crc32) }
         else Some True);
       if \<not> crc_ok then fail net
       else do {
         p \<leftarrow> clear_extra_info p;
         (extra, p) \<leftarrow> ob20_read_extra p (buff net) cur;
         let rest = to_uint64 (plen - extra);
         bs \<leftarrow> load_bytes (buff net) (cur + extra) (nat rest);
         b \<leftarrow> store_bytes (buff net) (where_b net) bs;
         Some (Some rest, net\<lparr>buff := b, ob20protocol := Some p\<rparr>) } } }"

definition net_uncompress :: "'s net_env \<Rightarrow> 's NET \<Rightarrow> int \<Rightarrow> int \<Rightarrow> (int option \<times> 's NET) option" where
  "net_uncompress env net packet_length complen = do {
     bs \<leftarrow> load_bytes (buff net) (where_b net) (nat packet_length);
     (case mariadb_uncompress env bs complen of
        None \<Rightarrow> Some (None, net\<lparr>net_error := 2, last_errno := ER_NET_UNCOMPRESS_ERROR\<rparr>)
      | Some (d, complen) \<Rightarrow> do {
          b \<leftarrow> store_bytes (buff net) (where_b net) d;
          Some (Some complen, net\<lparr>buff := b\<rparr>) }) }"

definition mem_move :: "mem \<Rightarrow> int \<Rightarrow> int \<Rightarrow> int \<Rightarrow> mem option" where
  "mem_move b dst src n = do {
     bs \<leftarrow> load_bytes b src (nat n);
     store_bytes b dst bs }"

text \<open>
  The loop \<^verbatim>\<open>for (;;)\<close> of \<^verbatim>\<open>ma_net_read\<close>: a step looks for a packet in the buffer (\<open>net_scan\<close>) or gets the next
  compressed packet (\<open>net_fetch\<close>).  Its state is \<open>(buffer_length, current, start, is_multi_packet)\<close>; a step ends the function
  (\<open>Return\<close>), leaves the loop (\<open>Break\<close>, also after an uncompress error), continues, or needs more bytes.
\<close>

type_synonym read_state = "int \<times> int \<times> int \<times> bool"

datatype read_step = Return int | Break read_state | Again read_state | More

fun net_scan :: "'s NET \<Rightarrow> read_state \<Rightarrow> (read_step \<times> 's NET) option" where
  "net_scan net (buffer_length, current, start, is_multi) =
     (if to_uint64 (buffer_length - current) \<ge> 4 then do {
        packet_length \<leftarrow> map_option uint (uint3korr (buff net) current);
        if packet_length = 0 then Some (Break (buffer_length, current + 4, start, is_multi), net)
        else if packet_length + 4 \<le> to_uint64 (buffer_length - current) then do {
          (b, buffer_length, current) \<leftarrow>
            (if \<not> is_multi then Some (buff net, buffer_length, current + packet_length + 4)
             else do {
               b \<leftarrow> mem_move (buff net) current (current + 4) (buffer_length - current);
               Some (b, buffer_length - 4, current + packet_length) });
          let net = net\<lparr>buff := b\<rparr>;
          if packet_length \<noteq> MAX_PACKET_LENGTH then Some (Break (buffer_length, current, start, False), net)
          else if start \<noteq> 0 then do {
            b \<leftarrow> mem_move (buff net) 0 start (buffer_length - start);
            Some (Again (buffer_length - start, current, 0, True), net\<lparr>buff := b\<rparr>) }
          else Some (Again (buffer_length, current, start, True), net) }
        else Some (More, net) }
      else Some (More, net))"

fun net_fetch :: "'s net_env \<Rightarrow> 's NET \<Rightarrow> read_state \<Rightarrow> (read_step \<times> 's NET) option" where
  "net_fetch env net (buffer_length, current, start, is_multi) = do {
     b \<leftarrow> (if start \<noteq> 0 then mem_move (buff net) 0 start (buffer_length - start) else Some (buff net));
     let current = current - start;
     let buffer_length = buffer_length - start;
     (packet_length, complen, net) \<leftarrow> ma_real_read env (net\<lparr>buff := b, where_b := buffer_length\<rparr>);
     if packet_length = packet_error then Some (Return packet_error, net)
     else if use_ob20protocol net then do {
       (r, net) \<leftarrow> ob20_unframe env net packet_length;
       Some (case r of None \<Rightarrow> Return packet_error | Some n \<Rightarrow> Again (buffer_length + n, current, 0, is_multi), net) }
     else do {
       (r, net) \<leftarrow> net_uncompress env net packet_length complen;
       Some (case r of None \<Rightarrow> Break (buffer_length, current, 0, is_multi)
                     | Some n \<Rightarrow> Again (buffer_length + n, current, 0, is_multi), net) } }"

definition net_read_step :: "'s net_env \<Rightarrow> 's NET \<Rightarrow> read_state \<Rightarrow> (read_step \<times> 's NET) option" where
  "net_read_step env net st = do {
     (r, net) \<leftarrow> net_scan net st;
     if r = More then net_fetch env net st else Some (r, net) }"

partial_function (option) net_read_loop ::
  "'s net_env \<Rightarrow> 's NET \<Rightarrow> read_state \<Rightarrow> (read_step \<times> 's NET) option" where
  "net_read_loop env net st = do {
     (r, net) \<leftarrow> net_read_step env net st;
     (case r of Again st \<Rightarrow> net_read_loop env net st | _ \<Rightarrow> Some (r, net)) }"

text \<open>
  With compression the end of a packet is kept in \<open>save_char\<close> while it is overwritten by a terminator.
  The index of the terminator is computed in 64 bits.
\<close>

definition net_read_compressed :: "'s net_env \<Rightarrow> 's NET \<Rightarrow> (int \<times> 's NET) option" where
  "net_read_compressed env net = do {
     (buffer_length, current, b) \<leftarrow>
       (if remain_in_buf net = 0 then Some (0, 0, buff net)
        else do {
          let current = buf_length net - remain_in_buf net;
          b \<leftarrow> store_byte (buff net) current (save_char net);
          Some (buf_length net, current, b) });
     (r, net) \<leftarrow> net_read_loop env (net\<lparr>buff := b\<rparr>) (buffer_length, current, current, False);
     (case r of
        Return rc \<Rightarrow> Some (rc, net)
      | Break (buffer_length, current, start, is_multi) \<Rightarrow> do {
          let len = to_uint64 (current - start - 4 - (if is_multi then 4 else 0));
          let idx = to_uint64 (start + 4 + len);
          c \<leftarrow> load_byte (buff net) idx;
          b \<leftarrow> store_byte (buff net) idx 0;
          Some (len, net\<lparr>buf_length := buffer_length, remain_in_buf := buffer_length - current,
                  read_pos := start + 4, save_char := c, buff := b\<rparr>) }
      | _ \<Rightarrow> None) }"

definition ma_net_read :: "'s net_env \<Rightarrow> 's NET \<Rightarrow> (int \<times> 's NET) option" where
  "ma_net_read env net = (if compress net then net_read_compressed env net else net_read_plain env net)"

end
