(* ===== verification/MaNetPlain.thy ===== *)
theory MaNetPlain
  imports MaNet
begin

unbundle bit_operations_syntax

section \<open>Messages over an uncompressed connection\<close>

text \<open>
  What the packet layer promises without compression: the bytes written to the transport are the packets of the messages,
  and reading gives the messages back.  The transport and the allocator enter by their documented behaviour
  (\<open>reliable_write\<close>, \<open>reliable_read\<close>, \<open>realloc_keeps\<close>).
\<close>

subsection \<open>What is written\<close>

text \<open>
  The documented behaviour of the transport on a working connection: a write takes at least one byte
  and no more than it was given, in order.  \<open>sent\<close> is what the peer will see.
\<close>

definition reliable_write :: "('s \<Rightarrow> mem \<Rightarrow> int \<times> 's) \<Rightarrow> ('s \<Rightarrow> mem) \<Rightarrow> bool" where
  "reliable_write wr sent \<longleftrightarrow> (\<forall>s bs n s'. bs \<noteq> [] \<longrightarrow> wr s bs = (n, s') \<longrightarrow>
     0 < n \<and> n \<le> int (length bs) \<and> sent s' = sent s @ take (nat n) bs)"

lemma write_loop_sends:
  assumes "reliable_write wr sent"
  shows "\<exists>s'. write_loop wr s bs = Some (True, s') \<and> sent s' = sent s @ bs"
proof (induction "length bs" arbitrary: s bs rule: less_induct)
  case less
  show ?case
  proof (cases "bs = []")
    case True
    then show ?thesis by (simp add: write_loop.simps)
  next
    case False
    obtain n s1 where w: "wr s bs = (n, s1)" by (cases "wr s bs")
    with assms False have n: "0 < n" "n \<le> int (length bs)" "sent s1 = sent s @ take (nat n) bs"
      unfolding reliable_write_def by blast+
    then have "length (drop (nat n) bs) < length bs" using False by simp
    from less [OF this] obtain s' where "write_loop wr s1 (drop (nat n) bs) = Some (True, s')"
      "sent s' = sent s1 @ drop (nat n) bs" by blast
    with False w n show ?thesis by (subst write_loop.simps) simp
  qed
qed

definition net_ok :: "'s NET \<Rightarrow> bool" where
  "net_ok net \<longleftrightarrow> 0 \<le> write_pos net \<and> write_pos net \<le> max_packet net \<and> max_packet net \<le> int (length (buff net))
     \<and> 0 < max_packet net \<and> max_packet net < 2 ^ 63 \<and> net_error net \<noteq> 2"

definition net_plain :: "'s NET \<Rightarrow> bool" where
  "net_plain net \<longleftrightarrow> \<not> compress net \<and> \<not> use_ob20protocol net"

definition pending :: "('s \<Rightarrow> mem) \<Rightarrow> 's NET \<Rightarrow> mem" where
  "pending sent net = sent (net_io net) @ take (nat (write_pos net)) (buff net)"

lemma real_write_plain:
  assumes "reliable_write (pvio_write env) sent" and "net_plain net" and "net_error net \<noteq> 2"
  obtains s where "ma_net_real_write env net bs = Some (0, net\<lparr>net_io := s, reading_or_writing := 0\<rparr>)"
    and "sent s = sent (net_io net) @ bs"
proof -
  obtain s where "write_loop (pvio_write env) (net_io net) bs = Some (True, s)" "sent s = sent (net_io net) @ bs"
    using write_loop_sends [OF assms(1)] by blast
  with assms(2,3) show thesis by (intro that [of s]) (simp_all add: ma_net_real_write_def net_plain_def)
qed

lemma write_buff_keep_ok:
  assumes "net_ok net" and "write_pos net + int (length bs) \<le> max_packet net"
  obtains b where "write_buff_keep net bs = Some (0, net\<lparr>buff := b, write_pos := write_pos net + int (length bs)\<rparr>)"
    and "length b = length (buff net)"
    and "take (nat (write_pos net + int (length bs))) b = take (nat (write_pos net)) (buff net) @ bs"
proof -
  have w: "0 \<le> write_pos net" "write_pos net + int (length bs) \<le> int (length (buff net))"
    using assms by (auto simp: net_ok_def)
  then have fit: "nat (write_pos net) + length bs \<le> length (buff net)" by linarith
  show thesis
  proof (rule that [of "put (buff net) (write_pos net) bs"])
    show "write_buff_keep net bs = Some (0, net\<lparr>buff := put (buff net) (write_pos net) bs, write_pos := write_pos net + int (length bs)\<rparr>)"
      using w(1) fit by (simp add: write_buff_keep_def store_bytes_def)
    show "length (put (buff net) (write_pos net) bs) = length (buff net)" using w(1) fit by simp
    have "nat (write_pos net + int (length bs)) = nat (write_pos net) + length bs" using w(1) by simp
    then show "take (nat (write_pos net + int (length bs))) (put (buff net) (write_pos net) bs) =
        take (nat (write_pos net)) (buff net) @ bs"
      using fit by (simp add: put_def)
  qed
qed

lemma write_buff_fill_plain:
  assumes r: "reliable_write (pvio_write env) sent" and "net_plain net" and ok: "net_ok net"
    and left: "left = max_packet net - write_pos net" and big: "int (length bs) > left"
  obtains rest net' where "write_buff_fill env net bs left = Some (Some rest, net')" and "net_ok net'" and "net_plain net'"
    and "write_pos net' = 0" and "pending sent net' @ rest = pending sent net @ bs" and "pkt_nr net' = pkt_nr net"
    and "multi_status net' = multi_status net" and "ob20protocol net' = ob20protocol net"
proof (cases "write_pos net = 0")
  case True
  then show thesis using that [of bs net] assms by (simp add: write_buff_fill_def)
next
  case False
  have n: "0 \<le> write_pos net" "write_pos net \<le> max_packet net" "max_packet net \<le> int (length (buff net))"
    "net_error net \<noteq> 2" using ok by (auto simp: net_ok_def)
  let ?xs = "take (nat left) bs" and ?b = "put (buff net) (write_pos net) (take (nat left) bs)"
  have l: "length ?xs = nat left" and left0: "0 \<le> left" using n left big by simp_all
  then have fit: "nat (write_pos net) + length ?xs \<le> length (buff net)" using n left by linarith
  have st: "store_bytes (buff net) (write_pos net) ?xs = Some ?b" using fit n(1) by (simp add: store_bytes_def)
  have sum: "nat (write_pos net + left) = nat (write_pos net) + nat left" using n(1) left0 by simp
  have ld: "load_bytes ?b 0 (nat (write_pos net + left)) = Some (take (nat (write_pos net)) (buff net) @ ?xs)"
    using fit n(1) l by (simp add: load_bytes_def sum put_def)
  have pl: "net_plain (net\<lparr>buff := ?b\<rparr>)" "net_error (net\<lparr>buff := ?b\<rparr>) \<noteq> 2" using assms(2) n(4) by (simp_all add: net_plain_def)
  obtain s where s: "ma_net_real_write env (net\<lparr>buff := ?b\<rparr>) (take (nat (write_pos net)) (buff net) @ ?xs)
      = Some (0, net\<lparr>buff := ?b, net_io := s, reading_or_writing := 0\<rparr>)"
    "sent s = sent (net_io net) @ take (nat (write_pos net)) (buff net) @ ?xs"
    using real_write_plain [OF r pl] by auto
  let ?net = "net\<lparr>buff := ?b, net_io := s, reading_or_writing := 0, write_pos := 0\<rparr>"
  show thesis
  proof (rule that [of "drop (nat left) bs" ?net])
    show "write_buff_fill env net bs left = Some (Some (drop (nat left) bs), ?net)"
      using False s(1) by (simp add: write_buff_fill_def st ld)
    show "net_ok ?net" using ok fit n(1) by (simp add: net_ok_def)
    show "pending sent ?net @ drop (nat left) bs = pending sent net @ bs" using s(2) by (simp add: pending_def)
  qed (use assms(2) in \<open>simp_all add: net_plain_def\<close>)
qed

lemma write_buff_plain:
  assumes r: "reliable_write (pvio_write env) sent" and "net_plain net" and ok: "net_ok net"
  obtains net' where "ma_net_write_buff env net bs = Some (0, net')" and "net_ok net'" and "net_plain net'"
    and "pending sent net' = pending sent net @ bs" and "pkt_nr net' = pkt_nr net"
    and "multi_status net' = multi_status net" and "ob20protocol net' = ob20protocol net"
proof (cases "bs = []")
  case True
  then show thesis using that [of net] assms by (simp add: ma_net_write_buff_def)
next
  case False
  have n: "0 \<le> write_pos net" "write_pos net \<le> max_packet net" "max_packet net \<le> int (length (buff net))"
    "0 < max_packet net" "max_packet net < 2 ^ 63" "net_error net \<noteq> 2" using ok by (auto simp: net_ok_def)
  have pl: "\<not> compress net" "\<not> use_ob20protocol net" using assms(2) by (simp_all add: net_plain_def)
  let ?left = "max_packet net - write_pos net"
  have left: "write_buff_left net = ?left" using n pl by (simp add: write_buff_left_def)
  have eq: "ma_net_write_buff env net bs = write_buff_store env net bs"
    using False pl by (simp add: ma_net_write_buff_def)
  show thesis
  proof (cases "int (length bs) > ?left")
    case False
    then have "write_pos net + int (length bs) \<le> max_packet net" by simp
    then obtain b where b: "write_buff_keep net bs = Some (0, net\<lparr>buff := b, write_pos := write_pos net + int (length bs)\<rparr>)"
      "length b = length (buff net)" "take (nat (write_pos net + int (length bs))) b = take (nat (write_pos net)) (buff net) @ bs"
      by (rule write_buff_keep_ok [OF ok])
    show thesis
      using False b n assms(2) left
      by (intro that [of "net\<lparr>buff := b, write_pos := write_pos net + int (length bs)\<rparr>"])
        (simp_all add: eq write_buff_store_def Let_def net_ok_def net_plain_def pending_def)
  next
    case True
    obtain rest net1 where f: "write_buff_fill env net bs ?left = Some (Some rest, net1)" and ok1: "net_ok net1"
      and pl1: "net_plain net1" and w1: "write_pos net1 = 0" and p1: "pending sent net1 @ rest = pending sent net @ bs"
      and same: "pkt_nr net1 = pkt_nr net" "multi_status net1 = multi_status net" "ob20protocol net1 = ob20protocol net"
      by (rule write_buff_fill_plain [OF r assms(2) ok refl True])
    have c1: "\<not> compress net1" using pl1 by (simp add: net_plain_def)
    have st: "write_buff_store env net bs =
      (if int (length rest) > max_packet net1
       then do { (rc, net) \<leftarrow> ma_net_real_write env net1 rest; Some (if rc \<noteq> 0 then 1 else 0, net) }
       else write_buff_keep net1 rest)"
      using True f c1 by (simp add: write_buff_store_def left)
    show thesis
    proof (cases "int (length rest) > max_packet net1")
      case True
      obtain s where s: "ma_net_real_write env net1 rest = Some (0, net1\<lparr>net_io := s, reading_or_writing := 0\<rparr>)"
        "sent s = sent (net_io net1) @ rest"
        using real_write_plain [OF r pl1] ok1 by (auto simp: net_ok_def)
      show thesis
        using True s ok1 pl1 w1 p1 same
        by (intro that [of "net1\<lparr>net_io := s, reading_or_writing := 0\<rparr>"]) (simp_all add: eq st net_ok_def net_plain_def pending_def)
    next
      case False
      then have "write_pos net1 + int (length rest) \<le> max_packet net1" by (simp add: w1)
      then obtain b where b: "write_buff_keep net1 rest = Some (0, net1\<lparr>buff := b, write_pos := write_pos net1 + int (length rest)\<rparr>)"
        "length b = length (buff net1)" "take (nat (write_pos net1 + int (length rest))) b = take (nat (write_pos net1)) (buff net1) @ rest"
        by (rule write_buff_keep_ok [OF ok1])
      show thesis
        using False b ok1 pl1 w1 p1 same
        by (intro that [of "net1\<lparr>buff := b, write_pos := write_pos net1 + int (length rest)\<rparr>"])
          (simp_all add: eq st net_ok_def net_plain_def pending_def)
    qed
  qed
qed

lemma write_buff2_plain:
  assumes r: "reliable_write (pvio_write env) sent" and "net_plain net" and ok: "net_ok net"
  obtains net' where "write_buff2 env net hdr bs = Some (0, net')" and "net_ok net'" and "net_plain net'"
    and "pending sent net' = pending sent net @ hdr @ bs" and "pkt_nr net' = pkt_nr net"
    and "multi_status net' = multi_status net" and "ob20protocol net' = ob20protocol net"
proof -
  obtain net1 where n1: "ma_net_write_buff env net hdr = Some (0, net1)" "net_ok net1" "net_plain net1"
    "pending sent net1 = pending sent net @ hdr" "pkt_nr net1 = pkt_nr net" "multi_status net1 = multi_status net"
    "ob20protocol net1 = ob20protocol net"
    by (rule write_buff_plain [OF assms])
  obtain net2 where n2: "ma_net_write_buff env net1 bs = Some (0, net2)" "net_ok net2" "net_plain net2"
    "pending sent net2 = pending sent net1 @ bs" "pkt_nr net2 = pkt_nr net1" "multi_status net2 = multi_status net1"
    "ob20protocol net2 = ob20protocol net1"
    by (rule write_buff_plain [OF r n1(3,2)])
  show thesis using n1 n2 by (intro that [of net2]) (simp_all add: write_buff2_def)
qed

text \<open>The packets of a message: full packets, then one that is shorter, possibly empty.\<close>

function frames :: "32 word \<Rightarrow> mem \<Rightarrow> mem" where
  "frames nr packet =
     (if int (length packet) \<ge> MAX_PACKET_LENGTH
      then net_header MAX_PACKET_LENGTH (ucast nr) @ take 16777215 packet @ frames (nr + 1) (drop 16777215 packet)
      else net_header (int (length packet)) (ucast nr) @ packet)"
  by auto
termination
  by (relation "measure (\<lambda>(nr, packet). length packet)") auto

declare frames.simps [simp del]

lemma net_write_loop_plain:
  assumes r: "reliable_write (pvio_write env) sent"
  shows "net_plain net \<Longrightarrow> net_ok net \<Longrightarrow> \<exists>net'. net_write_loop env net bs = Some (0, net') \<and> net_ok net' \<and> net_plain net'
    \<and> pending sent net' = pending sent net @ frames (pkt_nr net) bs \<and> multi_status net' = multi_status net"
proof (induction "length bs" arbitrary: net bs rule: less_induct)
  case less
  let ?net = "net\<lparr>pkt_nr := pkt_nr net + 1\<rparr>"
  have net: "net_plain ?net" "net_ok ?net" "pending sent ?net = pending sent net"
    using less.prems by (simp_all add: net_plain_def net_ok_def pending_def)
  show ?case
  proof (cases "int (length bs) \<ge> MAX_PACKET_LENGTH")
    case True
    let ?hdr = "net_header MAX_PACKET_LENGTH (ucast (pkt_nr net))"
    obtain net1 where n1: "write_buff2 env ?net ?hdr (take 16777215 bs) = Some (0, net1)" "net_ok net1" "net_plain net1"
      "pending sent net1 = pending sent ?net @ ?hdr @ take 16777215 bs" "pkt_nr net1 = pkt_nr ?net"
      "multi_status net1 = multi_status ?net"
      by (rule write_buff2_plain [OF r net(1,2)])
    have "length (drop 16777215 bs) < length bs" using True by simp
    from less.hyps [OF this n1(3,2)] obtain net' where n': "net_write_loop env net1 (drop 16777215 bs) = Some (0, net')"
      "net_ok net'" "net_plain net'" "pending sent net' = pending sent net1 @ frames (pkt_nr net1) (drop 16777215 bs)"
      "multi_status net' = multi_status net1" by blast
    have "min (int (length bs)) MAX_PACKET_LENGTH = MAX_PACKET_LENGTH" using True by simp
    with True n1 n' net show ?thesis
      by (subst net_write_loop.simps, subst frames.simps) (simp add: Let_def)
  next
    case False
    let ?hdr = "net_header (int (length bs)) (ucast (pkt_nr net))"
    obtain net1 where n1: "write_buff2 env ?net ?hdr bs = Some (0, net1)" "net_ok net1" "net_plain net1"
      "pending sent net1 = pending sent ?net @ ?hdr @ bs" "multi_status net1 = multi_status ?net"
      by (rule write_buff2_plain [OF r net(1,2)])
    have "min (int (length bs)) MAX_PACKET_LENGTH = int (length bs)" using False by simp
    with False n1 net show ?thesis
      by (subst net_write_loop.simps, subst frames.simps) (simp add: Let_def)
  qed
qed

lemma flush_plain:
  assumes r: "reliable_write (pvio_write env) sent" and "net_plain net" and ok: "net_ok net" and "multi_status net = 0"
  obtains net' where "ma_net_flush env net = Some (0, net')" and "net_ok net'" and "net_plain net'"
    and "write_pos net' = 0" and "sent (net_io net') = pending sent net"
proof (cases "write_pos net = 0")
  case True
  then show thesis
    using that [of net] assms by (simp add: ma_net_flush_def net_plain_def pending_def)
next
  case False
  let ?bs = "take (nat (write_pos net)) (buff net)"
  have "nat (write_pos net) \<le> length (buff net)" using ok by (auto simp: net_ok_def)
  then have ld: "load_bytes (buff net) 0 (nat (write_pos net)) = Some ?bs" by (simp add: load_bytes_def)
  have "net_error net \<noteq> 2" using ok by (simp add: net_ok_def)
  then obtain s where s: "ma_net_real_write env net ?bs = Some (0, net\<lparr>net_io := s, reading_or_writing := 0\<rparr>)"
    "sent s = sent (net_io net) @ ?bs"
    using real_write_plain [OF r assms(2)] by blast
  show thesis
    using False s ld assms
    by (intro that [of "net\<lparr>net_io := s, reading_or_writing := 0, write_pos := 0\<rparr>"])
      (simp_all add: ma_net_flush_def net_plain_def pending_def net_ok_def)
qed

lemma write_command_loop_plain:
  assumes r: "reliable_write (pvio_write env) sent"
  shows "net_plain net \<Longrightarrow> net_ok net \<Longrightarrow> length cmd \<le> 1 \<Longrightarrow>
    \<exists>net'. write_command_loop env net cmd bs = Some (0, net') \<and> net_ok net' \<and> net_plain net'
    \<and> pending sent net' = pending sent net @ frames (pkt_nr net) (cmd @ bs) \<and> multi_status net' = multi_status net"
proof (induction "length bs" arbitrary: net bs cmd rule: less_induct)
  case less
  let ?net = "net\<lparr>pkt_nr := pkt_nr net + 1\<rparr>"
  have net: "net_plain ?net" "net_ok ?net" "pending sent ?net = pending sent net"
    using less.prems by (simp_all add: net_plain_def net_ok_def pending_def)
  have nr: "command_nr net = (ucast (pkt_nr net), ?net)"
    using less.prems(1) by (simp add: command_nr_def net_plain_def)
  let ?c = "cmd @ bs"
  show ?case
  proof (cases "int (length ?c) \<ge> MAX_PACKET_LENGTH")
    case True
    let ?hdr = "net_header MAX_PACKET_LENGTH (ucast (pkt_nr net))"
    let ?k = "16777215 - length cmd"
    have cut: "take 16777215 ?c = cmd @ take ?k bs" "drop 16777215 ?c = drop ?k bs"
      using less.prems(3) by simp_all
    obtain net1 where n1: "write_buff2 env ?net (?hdr @ cmd) (take ?k bs) = Some (0, net1)" "net_ok net1" "net_plain net1"
      "pending sent net1 = pending sent ?net @ (?hdr @ cmd) @ take ?k bs" "pkt_nr net1 = pkt_nr ?net"
      "multi_status net1 = multi_status ?net"
      by (rule write_buff2_plain [OF r net(1,2)])
    have l: "length (drop ?k bs) < length bs" using True less.prems(3) by simp
    have nil: "length ([] :: mem) \<le> 1" by simp
    from less.hyps [OF l n1(3,2) nil] obtain net' where n': "write_command_loop env net1 [] (drop ?k bs) = Some (0, net')"
      "net_ok net'" "net_plain net'" "pending sent net' = pending sent net1 @ frames (pkt_nr net1) ([] @ drop ?k bs)"
      "multi_status net' = multi_status net1" by blast
    have "int (length cmd) + int (length bs) \<ge> MAX_PACKET_LENGTH" using True by simp
    then have "write_command_loop env net cmd bs = Some (0, net')"
      by (subst write_command_loop.simps) (simp add: nr n1(1) n'(1) Let_def)
    moreover have "frames (pkt_nr net) ?c = ?hdr @ (cmd @ take ?k bs) @ frames (pkt_nr net + 1) (drop ?k bs)"
      using True by (subst frames.simps) (simp only: cut if_True)
    ultimately show ?thesis using n1 n' net by simp
  next
    case False
    let ?hdr = "net_header (int (length ?c)) (ucast (pkt_nr net))"
    obtain net1 where n1: "write_buff2 env ?net (?hdr @ cmd) bs = Some (0, net1)" "net_ok net1" "net_plain net1"
      "pending sent net1 = pending sent ?net @ (?hdr @ cmd) @ bs" "multi_status net1 = multi_status ?net"
      by (rule write_buff2_plain [OF r net(1,2)])
    have e: "int (length cmd) + int (length bs) = int (length ?c)" by simp
    have "write_command_loop env net cmd bs = Some (0, net1)"
      using False by (subst write_command_loop.simps) (simp only: nr e n1(1) Let_def prod.case if_False)
    moreover have "frames (pkt_nr net) ?c = ?hdr @ ?c" using False by (subst frames.simps) (simp only: if_False)
    ultimately show ?thesis using n1 net by simp
  qed
qed

subsection \<open>What is read\<close>

text \<open>
  The same for reading: when bytes are on their way a read gets at least one and no more than asked for, in
  order.  \<^verbatim>\<open>realloc\<close> keeps the content of the block.
\<close>

definition reliable_read :: "('s \<Rightarrow> int \<Rightarrow> int \<times> mem \<times> 's) \<Rightarrow> ('s \<Rightarrow> mem) \<Rightarrow> bool" where
  "reliable_read rd incoming \<longleftrightarrow> (\<forall>s k n bs s'. incoming s \<noteq> [] \<longrightarrow> 0 < k \<longrightarrow> rd s k = (n, bs, s') \<longrightarrow>
     0 < n \<and> n \<le> k \<and> int (length bs) = n \<and> incoming s = bs @ incoming s')"

definition realloc_keeps :: "(cbuf \<Rightarrow> int \<Rightarrow> mem option) \<Rightarrow> bool" where
  "realloc_keeps f \<longleftrightarrow> (\<forall>b n. 0 \<le> n \<longrightarrow> (\<exists>b'. f (Some b) n = Some b' \<and> int (length b') = n \<and>
     take (min (length b) (length b')) b' = take (min (length b) (length b')) b))"

lemma read_loop_gets:
  assumes r: "reliable_read rd incoming"
  shows "0 \<le> pos \<Longrightarrow> pos + int (length xs) \<le> int (length b) \<Longrightarrow> incoming s = xs @ ys \<Longrightarrow>
    \<exists>s'. read_loop rd s b pos (int (length xs)) = Some (True, put b pos xs, s') \<and> incoming s' = ys"
proof (induction "length xs" arbitrary: xs s b pos rule: less_induct)
  case less
  show ?case
  proof (cases "xs = []")
    case True
    then show ?thesis using less.prems by (subst read_loop.simps) simp
  next
    case False
    let ?k = "int (length xs)"
    obtain n bs s1 where rd: "rd s ?k = (n, bs, s1)" by (cases "rd s ?k") auto
    have "incoming s \<noteq> []" "0 < ?k" using False less.prems(3) by simp_all
    with r rd have n: "0 < n" "n \<le> ?k" "int (length bs) = n" "incoming s = bs @ incoming s1"
      unfolding reliable_read_def by blast+
    then have len: "length bs \<le> length xs" by simp
    have xs: "xs = bs @ drop (length bs) xs" "incoming s1 = drop (length bs) xs @ ys"
      using n(4) less.prems(3) len by (metis append_eq_append_conv_if append_take_drop_id)+
    let ?r = "drop (length bs) xs"
    have fit: "nat pos + length bs \<le> length b" using less.prems(1,2) len by linarith
    have st: "store_bytes b pos bs = Some (put b pos bs)" using fit less.prems(1) by (simp add: store_bytes_def)
    have lb: "length (put b pos bs) = length b" using fit less.prems(1) by simp
    have "length ?r < length xs" "0 \<le> pos + n" "pos + n + int (length ?r) \<le> int (length (put b pos bs))"
      using n(1,3) len less.prems(1,2) lb by simp_all
    from less.hyps [OF this xs(2)] obtain s' where s':
      "read_loop rd s1 (put b pos bs) (pos + n) (int (length ?r)) = Some (True, put (put b pos bs) (pos + n) ?r, s')"
      "incoming s' = ys" by blast
    have "put (put b pos bs) (pos + n) ?r = put b pos (bs @ ?r)"
      unfolding n(3) [symmetric] using less.prems(1,2) len by (intro put_put_adjacent) simp_all
    moreover have "?k - n = int (length ?r)" using n(3) len by simp
    ultimately show ?thesis
      using s' n rd st False xs(1) by (subst read_loop.simps) simp
  qed
qed

lemma put_take_before: "0 \<le> a \<Longrightarrow> nat a \<le> length m \<Longrightarrow> take (nat a) (put m a bs) = take (nat a) m"
  by (simp add: put_def)

lemma take_prefix_eq: "take n xs = take n ys \<Longrightarrow> k \<le> n \<Longrightarrow> take k xs = take k ys"
  by (metis min.absorb1 take_take)

lemma korr3_nat:
  assumes "holds_at b a (le_bytes 3 (of_nat n :: 64 word))" and "n < 2 ^ 24"
  shows "uint3korr b a = Some (of_nat n)"
proof -
  have "take_bit 24 n = n" using assms(2) by (simp add: take_bit_nat_eq_self)
  then have "bit n i \<Longrightarrow> i < 24" for i by (metis bit_take_bit_iff)
  then have "ucast (take_bit 24 (of_nat n :: 64 word)) = (of_nat n :: 32 word)"
    by (intro bit_word_eqI) (auto simp: bit_simps)
  then show ?thesis using korr_holds_at [OF assms(1), where ?'b = 32] by (simp add: le_simps)
qed

lemma header_fields:
  assumes h: "holds_at b w (net_header (int n) nr @ cs)" and n: "n < 2 ^ 24"
  shows "uint3korr b w = Some (of_nat n)" and "load_byte b (w + 3) = Some nr" and "holds_at b (w + 4) cs"
    and "uint (of_nat n :: 32 word) = int n"
proof -
  have p: "holds_at b w (le_bytes 3 (of_nat n :: 64 word))" "holds_at b (w + 3) [nr]" "holds_at b (w + 4) cs"
    using h holds_at_append [of b "w + 3" "[nr]" cs] by (simp_all add: net_header_def holds_at_append add.commute)
  show "uint3korr b w = Some (of_nat n)" by (rule korr3_nat [OF p(1) n])
  show "load_byte b (w + 3) = Some nr" using korr_at(4) [OF p(2)] by (simp add: uint1korr_def)
  show "holds_at b (w + 4) cs" by (rule p(3))
  show "uint (of_nat n :: 32 word) = int n" using n by (simp add: unsigned_of_nat take_bit_nat_eq_self)
qed

lemma net_realloc_ok:
  assumes "realloc_keeps (env_realloc env)" and "0 \<le> len" and "len < max_packet_size net"
  obtains b mp where "net_realloc env net len = (False, net\<lparr>buff := b, write_pos := 0, max_packet := mp\<rparr>)"
    and "int (length b) = mp + 7" and "len \<le> mp" and "take (min (length (buff net)) (length b)) b = take (min (length (buff net)) (length b)) (buff net)"
proof -
  let ?mp = "(len + IO_SIZE - 1) div IO_SIZE * IO_SIZE"
  have mp: "len \<le> ?mp" "0 \<le> ?mp" using assms(2) by linarith+
  obtain b where b: "env_realloc env (Some (buff net)) (?mp + 7) = Some b" "int (length b) = ?mp + 7"
    "take (min (length (buff net)) (length b)) b = take (min (length (buff net)) (length b)) (buff net)"
    using assms(1) mp(2) unfolding realloc_keeps_def by (metis add_nonneg_nonneg zero_le_numeral)
  have "?mp + 4 + 3 = ?mp + 7" by simp
  then have "net_realloc env net len = (False, net\<lparr>buff := b, write_pos := 0, max_packet := ?mp\<rparr>)"
    using assms(3) b(1) by (simp only: net_realloc_def Let_def) simp
  then show thesis by (rule that) (use b mp in simp_all)
qed

text \<open>
  One packet off the wire, with or without the three bytes of the uncompressed length: its data stands in the
  buffer at \<open>where_b\<close>, what was before it is kept, and the buffer has room behind it.
\<close>

lemma real_read_gets:
  fixes net :: "'s NET"
  assumes r: "reliable_read (pvio_read env) incoming" and re: "realloc_keeps (env_realloc env)"
    and inc: "incoming (net_io net) = net_header (int (length xs)) nr @ cs @ xs @ ys"
    and cs: "cs = (if compress net then le_bytes 3 (of_nat c :: 64 word) else [])" and c: "c < 2 ^ 24"
    and cc: "\<not> compress net \<Longrightarrow> c = 0"
    and xs: "xs \<noteq> []" "length xs < 2 ^ 24"
    and w: "0 \<le> where_b net" "where_b net + 4 + int (length cs) \<le> int (length (buff net))"
    and mp: "max_packet net \<le> int (length (buff net))"
    and lim: "max (int (length xs)) (int c) + where_b net < max_packet_size net"
  obtains b s k wp where "ma_real_read env net = Some (int (length xs), int c,
        net\<lparr>buff := b, net_io := s, pkt_nr := ucast nr + 1, compress_pkt_nr := ucast nr + 1, reading_or_writing := 0,
          max_packet := k, write_pos := wp\<rparr>)"
    and "incoming s = ys" and "take (nat (where_b net)) b = take (nat (where_b net)) (buff net)"
    and "holds_at b (where_b net) xs"
    and "length b = length (buff net) \<and> k = max_packet net \<and> max (int (length xs)) (int c) + where_b net < k
       \<or> max_packet net \<le> max (int (length xs)) (int c) + where_b net \<and> int (length b) = k + 7 \<and> max (int (length xs)) (int c) + where_b net \<le> k"
proof -
  let ?w = "where_b net" and ?hs = "net_header (int (length xs)) nr @ cs"
  let ?H = "max (int (length xs)) (int c) + where_b net"
  have lhs: "length ?hs = 4 + length cs" "int (length ?hs) = (if compress net then 7 else 4)"
    using cs by (simp_all add: net_header_def)
  have "incoming (net_io net) = ?hs @ xs @ ys" using inc by simp
  moreover have "?w + int (length ?hs) \<le> int (length (buff net))" using w(2) lhs(1) by simp
  ultimately obtain s1 where s1: "read_loop (pvio_read env) (net_io net) (buff net) ?w (int (length ?hs)) = Some (True, put (buff net) ?w ?hs, s1)"
    "incoming s1 = xs @ ys"
    using read_loop_gets [OF r w(1)] by blast
  let ?b1 = "put (buff net) ?w ?hs"
  have fit: "nat ?w + length ?hs \<le> length (buff net)" using w lhs(1) by linarith
  have lb1: "length ?b1 = length (buff net)" using w(1) fit by (rule length_put)
  have h1: "holds_at ?b1 ?w ?hs" using w(1) fit by (rule holds_at_put)
  note hf = header_fields [OF h1 xs(2)]
  have cl: "(if compress net then map_option uint (uint3korr ?b1 (?w + 4)) else Some 0) = Some (int c)"
  proof (cases "compress net")
    case True
    then have "holds_at ?b1 (?w + 4) (le_bytes 3 (of_nat c :: 64 word))" using hf(3) cs by simp
    then have "uint3korr ?b1 (?w + 4) = Some (of_nat c)" by (rule korr3_nat [OF _ c])
    then show ?thesis using True c by (simp add: unsigned_of_nat take_bit_nat_eq_self)
  qed (simp add: cc)
  let ?n1 = "net\<lparr>buff := ?b1, net_io := s1, pkt_nr := ucast nr + 1, compress_pkt_nr := ucast nr + 1\<rparr>"
  obtain k wp b2 where re2: "(if ?H \<ge> max_packet ?n1 then net_realloc env ?n1 ?H else (False, ?n1)) =
      (False, ?n1\<lparr>buff := b2, write_pos := wp, max_packet := k\<rparr>)"
    and b2: "take (nat ?w) b2 = take (nat ?w) (buff net)"
    and cap: "length b2 = length (buff net) \<and> k = max_packet net \<and> ?H < k \<or> max_packet net \<le> ?H \<and> int (length b2) = k + 7 \<and> ?H \<le> k"
  proof (cases "?H \<ge> max_packet ?n1")
    case True
    have H: "0 \<le> ?H" "?H < max_packet_size ?n1" using w(1) lim by simp_all
    obtain b mp where b: "net_realloc env ?n1 ?H = (False, ?n1\<lparr>buff := b, write_pos := 0, max_packet := mp\<rparr>)"
      "int (length b) = mp + 7" "?H \<le> mp" "take (min (length (buff ?n1)) (length b)) b = take (min (length (buff ?n1)) (length b)) (buff ?n1)"
      by (rule net_realloc_ok [OF re H])
    have "nat ?w \<le> min (length ?b1) (length b)" using b(2,3) fit lb1 by linarith
    then have "take (nat ?w) b = take (nat ?w) ?b1" using take_prefix_eq [OF b(4)] by simp
    with True b fit w(1) show thesis by (intro that [of mp 0 b]) (simp_all add: put_take_before)
  next
    case False
    with lb1 fit w(1) show thesis by (intro that [of "max_packet net" "write_pos net" ?b1]) (simp_all add: put_take_before)
  qed
  let ?n2 = "?n1\<lparr>buff := b2, write_pos := wp, max_packet := k\<rparr>"
  have fit2: "?w + int (length xs) \<le> int (length b2)" using cap mp by auto
  then obtain s2 where s2: "read_loop (pvio_read env) s1 b2 ?w (int (length xs)) = Some (True, put b2 ?w xs, s2)" "incoming s2 = ys"
    using read_loop_gets [OF r w(1) _ s1(2)] by blast
  have f2: "nat ?w + length xs \<le> length b2" using fit2 w(1) by linarith
  let ?net = "net\<lparr>buff := put b2 ?w xs, net_io := s2, pkt_nr := ucast nr + 1, compress_pkt_nr := ucast nr + 1, reading_or_writing := 0,
          max_packet := k, write_pos := wp\<rparr>"
  have "ma_real_read env net = do {
      complen \<leftarrow> (if compress net then map_option uint (uint3korr ?b1 (?w + 4)) else Some 0);
      real_read_data env ?n1 (int (length xs)) complen }"
    unfolding ma_real_read_def s1(1) [unfolded lhs(2)] Let_def using xs(1) by (simp add: hf(1,2,4))
  also have "\<dots> = real_read_data env ?n1 (int (length xs)) (int c)" by (simp only: cl bind.bind_lunit)
  also have "\<dots> = Some (int (length xs), int c, ?net)"
  proof -
    have "max (int (length xs)) (int c) + where_b ?n1 = ?H" by simp
    then show ?thesis unfolding real_read_data_def Let_def using re2 s2(1) by (simp only: prod.case) simp
  qed
  finally have "ma_real_read env net = Some (int (length xs), int c, ?net)" .
  then show thesis
    by (rule that) (use s2 b2 cap w(1) f2 in \<open>simp_all add: put_take_before holds_at_put\<close>)
qed

lemma length_net_header [simp]: "length (net_header len nr) = 4"
  by (simp add: net_header_def)

lemma real_read_empty:
  assumes r: "reliable_read (pvio_read env) incoming"
    and inc: "incoming (net_io net) = net_header 0 nr @ ys" and "\<not> compress net"
    and w: "0 \<le> where_b net" "where_b net + 4 \<le> int (length (buff net))"
  obtains b s where "ma_real_read env net = Some (0, 0,
        net\<lparr>buff := b, net_io := s, pkt_nr := ucast nr + 1, compress_pkt_nr := ucast nr + 1, reading_or_writing := 0\<rparr>)"
    and "incoming s = ys" and "take (nat (where_b net)) b = take (nat (where_b net)) (buff net)" and "length b = length (buff net)"
proof -
  let ?w = "where_b net" and ?hs = "net_header (int 0) nr"
  have lhs: "length ?hs = 4" by (simp add: net_header_def)
  have "?w + int (length ?hs) \<le> int (length (buff net))" using w(2) lhs by simp
  then obtain s1 where s1: "read_loop (pvio_read env) (net_io net) (buff net) ?w (int (length ?hs)) = Some (True, put (buff net) ?w ?hs, s1)"
    "incoming s1 = ys"
    using read_loop_gets [OF r w(1)] inc by fastforce
  have fit: "nat ?w + length ?hs \<le> length (buff net)" using w lhs by linarith
  have "holds_at (put (buff net) ?w ?hs) ?w (?hs @ [])" using holds_at_put [OF w(1) fit] by simp
  note hf = header_fields [OF this]
  have "ma_real_read env net = Some (0, 0, net\<lparr>buff := put (buff net) ?w ?hs, net_io := s1, pkt_nr := ucast nr + 1,
      compress_pkt_nr := ucast nr + 1, reading_or_writing := 0\<rparr>)"
    using assms(3) s1(1) hf(1,2) by (simp add: ma_real_read_def lhs)
  then show thesis by (rule that) (use s1(2) w(1) fit in \<open>simp_all add: put_take_before\<close>)
qed

definition roomy :: "'s NET \<Rightarrow> bool" where
  "roomy net \<longleftrightarrow> 0 \<le> where_b net \<and> where_b net + 4 \<le> int (length (buff net)) \<and> max_packet net \<le> int (length (buff net))
     \<and> (max_packet net + 7 \<le> int (length (buff net)) \<or> max_packet net \<le> MAX_PACKET_LENGTH)"

lemma holds_at_prefix:
  assumes "take (nat a + length xs) m' = take (nat a + length xs) m" and "holds_at m a xs"
    and "nat a + length xs \<le> length m'"
  shows "holds_at m' a xs"
proof -
  obtain k where a: "a = int k" using holds_at_nonneg [OF assms(2)] by (metis nonneg_int_cases)
  have "k + length xs \<le> length m" "take (length xs) (drop k m) = xs" using assms(2) by (simp_all add: a holds_at_int)
  moreover have "take (length xs) (drop k m') = drop k (take (k + length xs) m')" by (simp add: take_drop add.commute)
  moreover have "drop k (take (k + length xs) m) = take (length xs) (drop k m)" by (simp add: take_drop add.commute)
  ultimately show ?thesis using assms(1,3) by (simp add: a holds_at_int)
qed

lemma read_message:
  fixes net :: "'s NET"
  assumes r: "reliable_read (pvio_read env) incoming" and re: "realloc_keeps (env_realloc env)"
  shows "\<not> compress net \<Longrightarrow> roomy net \<Longrightarrow> incoming (net_io net) = frames nr msg @ ys \<Longrightarrow>
    int (length msg) + where_b net < max_packet_size net \<Longrightarrow>
    \<exists>acc' len net'. do { (len, complen, net) \<leftarrow> ma_real_read env net; read_more env net acc len } = Some (acc', len, net')
      \<and> acc' + len = acc + int (length msg) \<and> 0 \<le> len \<and> len < MAX_PACKET_LENGTH
      \<and> take (nat (where_b net)) (buff net') = take (nat (where_b net)) (buff net) \<and> holds_at (buff net') (where_b net) msg
      \<and> where_b net + int (length msg) < int (length (buff net')) \<and> incoming (net_io net') = ys
      \<and> roomy (net'\<lparr>where_b := where_b net\<rparr>) \<and> compress net' = compress net \<and> max_packet_size net' = max_packet_size net"
proof (induction "length msg" arbitrary: net nr msg acc rule: less_induct)
  case less
  let ?w = "where_b net"
  have w: "0 \<le> ?w" "?w + 4 \<le> int (length (buff net))" "max_packet net \<le> int (length (buff net))"
    using less.prems(2) by (simp_all add: roomy_def)
  have stop: "read_more env n a l = Some (a, l, n)" if "l \<noteq> MAX_PACKET_LENGTH" for n :: "'s NET" and a l
    using that by (subst read_more.simps) simp
  have w4: "?w + 4 + int (length ([] :: mem)) \<le> int (length (buff net))" using w(2) by simp
  show ?case
  proof (cases "int (length msg) \<ge> MAX_PACKET_LENGTH")
    case True
    let ?xs = "take 16777215 msg" and ?r = "drop 16777215 msg"
    have xs: "length ?xs = 16777215" "?xs \<noteq> []" using True by auto
    have inc: "incoming (net_io net) = net_header (int (length ?xs)) (ucast nr) @ [] @ ?xs @ frames (nr + 1) ?r @ ys"
      using less.prems(3) True xs(1) by (subst (asm) frames.simps) simp
    have cs: "[] = (if compress net then le_bytes 3 (of_nat 0 :: 64 word) else [])" using less.prems(1) by simp
    have lim: "max (int (length ?xs)) (int 0) + ?w < max_packet_size net" using less.prems(4) True xs(1) by simp
    have l24: "length ?xs < 2 ^ 24" using xs(1) by simp
    obtain b s k wp where rr: "ma_real_read env net = Some (int (length ?xs), int 0,
        net\<lparr>buff := b, net_io := s, pkt_nr := ucast (ucast nr :: byte) + 1, compress_pkt_nr := ucast (ucast nr :: byte) + 1,
          reading_or_writing := 0, max_packet := k, write_pos := wp\<rparr>)"
      and inc': "incoming s = frames (nr + 1) ?r @ ys" and pre: "take (nat ?w) b = take (nat ?w) (buff net)"
      and h: "holds_at b ?w ?xs"
      and cap: "length b = length (buff net) \<and> k = max_packet net \<and> max (int (length ?xs)) (int 0) + ?w < k
         \<or> max_packet net \<le> max (int (length ?xs)) (int 0) + ?w \<and> int (length b) = k + 7 \<and> max (int (length ?xs)) (int 0) + ?w \<le> k"
      by (rule real_read_gets [OF r re inc cs _ _ xs(2) l24 w(1) w4 w(3) lim]) simp_all
    let ?n1 = "net\<lparr>buff := b, net_io := s, pkt_nr := ucast (ucast nr :: byte) + 1, compress_pkt_nr := ucast (ucast nr :: byte) + 1,
          reading_or_writing := 0, max_packet := k, write_pos := wp\<rparr>"
    let ?n2 = "?n1\<lparr>where_b := ?w + MAX_PACKET_LENGTH\<rparr>"
    have "roomy ?n2" using cap w less.prems(2) xs(1) by (auto simp: roomy_def)
    moreover have "length ?r < length msg" using True by simp
    moreover have "int (length ?r) + where_b ?n2 < max_packet_size ?n2" using less.prems(4) True by simp
    ultimately obtain acc' len net' where ih:
      "do { (len, complen, net) \<leftarrow> ma_real_read env ?n2; read_more env net (acc + MAX_PACKET_LENGTH) len } = Some (acc', len, net')"
      "acc' + len = acc + MAX_PACKET_LENGTH + int (length ?r)" "0 \<le> len" "len < MAX_PACKET_LENGTH"
      "take (nat (where_b ?n2)) (buff net') = take (nat (where_b ?n2)) (buff ?n2)" "holds_at (buff net') (where_b ?n2) ?r"
      "where_b ?n2 + int (length ?r) < int (length (buff net'))" "incoming (net_io net') = ys"
      "roomy (net'\<lparr>where_b := where_b ?n2\<rparr>)" "compress net' = compress ?n2" "max_packet_size net' = max_packet_size ?n2"
      using less.hyps [of ?r ?n2 "nr + 1" "acc + MAX_PACKET_LENGTH"] less.prems(1) inc' by auto
    have nw: "nat (?w + MAX_PACKET_LENGTH) = nat ?w + length ?xs" using w(1) xs(1) by simp
    have "do { (len, complen, net) \<leftarrow> ma_real_read env net; read_more env net acc len } = Some (acc', len, net')"
      using ih(1) by (simp only: rr bind.bind_lunit prod.case xs(1), subst read_more.simps) simp
    moreover have "take (nat ?w) (buff net') = take (nat ?w) (buff net)"
      using take_prefix_eq [OF ih(5), of "nat ?w"] pre nw by simp
    moreover have "holds_at (buff net') ?w msg"
    proof -
      have "nat ?w + length ?xs \<le> length (buff net')" using ih(7) w(1) xs(1) by simp
      then have "holds_at (buff net') ?w ?xs" using holds_at_prefix [OF _ h, of "buff net'"] ih(5) nw by simp
      moreover have "holds_at (buff net') (?w + int (length ?xs)) ?r" using ih(6) xs(1) by simp
      ultimately have "holds_at (buff net') ?w (?xs @ ?r)" by (simp only: holds_at_append)
      then show ?thesis by simp
    qed
    moreover have "?w + int (length msg) < int (length (buff net'))" using ih(7) True by simp
    moreover have "roomy (net'\<lparr>where_b := ?w\<rparr>)" using ih(9) w(1) by (simp add: roomy_def)
    ultimately show ?thesis using ih(2-4,8,10,11) True
      by (rule_tac exI [of _ acc'], rule_tac exI [of _ len], rule_tac exI [of _ net']) simp
  next
    case False
    have inc: "incoming (net_io net) = net_header (int (length msg)) (ucast nr) @ msg @ ys"
      using less.prems(3) False by (subst (asm) frames.simps) simp
    have l: "int (length msg) < MAX_PACKET_LENGTH" "int (length msg) \<noteq> MAX_PACKET_LENGTH" using False by simp_all
    show ?thesis
    proof (cases "msg = []")
      case True
      then have inc0: "incoming (net_io net) = net_header 0 (ucast nr) @ ys" using inc by simp
      obtain b s where rr: "ma_real_read env net = Some (0, 0, net\<lparr>buff := b, net_io := s, pkt_nr := ucast (ucast nr :: byte) + 1,
          compress_pkt_nr := ucast (ucast nr :: byte) + 1, reading_or_writing := 0\<rparr>)" "incoming s = ys"
        "take (nat ?w) b = take (nat ?w) (buff net)" "length b = length (buff net)"
        by (rule real_read_empty [OF r inc0 less.prems(1) w(1,2)])
      show ?thesis
        using True rr w less.prems(2) by (auto simp: stop holds_at_def load_bytes_def roomy_def)
    next
      case False
      have cs: "[] = (if compress net then le_bytes 3 (of_nat 0 :: 64 word) else [])" using less.prems(1) by simp
      have lim: "max (int (length msg)) (int 0) + ?w < max_packet_size net" using less.prems(4) by simp
      have l24: "length msg < 2 ^ 24" using l(1) by simp
      have inc': "incoming (net_io net) = net_header (int (length msg)) (ucast nr) @ [] @ msg @ ys" using inc by simp
      obtain b s k wp where rr: "ma_real_read env net = Some (int (length msg), int 0,
          net\<lparr>buff := b, net_io := s, pkt_nr := ucast (ucast nr :: byte) + 1, compress_pkt_nr := ucast (ucast nr :: byte) + 1,
            reading_or_writing := 0, max_packet := k, write_pos := wp\<rparr>)"
        and inc2: "incoming s = ys" and pre: "take (nat ?w) b = take (nat ?w) (buff net)" and h: "holds_at b ?w msg"
        and cap: "length b = length (buff net) \<and> k = max_packet net \<and> max (int (length msg)) (int 0) + ?w < k
           \<or> max_packet net \<le> max (int (length msg)) (int 0) + ?w \<and> int (length b) = k + 7 \<and> max (int (length msg)) (int 0) + ?w \<le> k"
        by (rule real_read_gets [OF r re inc' cs _ _ False l24 w(1) w4 w(3) lim]) simp_all
      have "?w + int (length msg) < int (length b)" using cap w(3) by auto
      moreover have "roomy (net\<lparr>buff := b, max_packet := k\<rparr>)" using cap w less.prems(2) by (auto simp: roomy_def)
      ultimately show ?thesis using rr inc2 pre h l by (simp add: stop roomy_def)
    qed
  qed
qed

lemma net_read_message:
  fixes net :: "'s NET"
  assumes r: "reliable_read (pvio_read env) incoming" and re: "realloc_keeps (env_realloc env)"
    and "\<not> compress net" and "roomy net" and "incoming (net_io net) = frames nr msg @ ys"
    and lim: "int (length msg) + where_b net < max_packet_size net" "max_packet_size net < packet_error"
  obtains net' where "ma_net_read env net = Some (int (length msg), net')" and "read_pos net' = where_b net"
    and "where_b net' = where_b net"
    and "holds_at (buff net') (read_pos net') (msg @ [0])" and "incoming (net_io net') = ys"
    and "roomy net'" and "compress net' = compress net" and "max_packet_size net' = max_packet_size net"
proof -
  let ?w = "where_b net"
  have w: "0 \<le> ?w" using assms(4) by (simp add: roomy_def)
  obtain acc len net1 where n1: "do { (len, complen, net) \<leftarrow> ma_real_read env net; read_more env net 0 len } = Some (acc, len, net1)"
    "acc + len = 0 + int (length msg)" "0 \<le> len" "len < MAX_PACKET_LENGTH" "holds_at (buff net1) ?w msg"
    "?w + int (length msg) < int (length (buff net1))" "incoming (net_io net1) = ys"
    "roomy (net1\<lparr>where_b := ?w\<rparr>)" "compress net1 = compress net" "max_packet_size net1 = max_packet_size net"
    using read_message [OF r re assms(3-5) lim(1), of 0] by blast
  let ?b = "(buff net1)[nat (?w + int (length msg)) := 0]"
  have st: "store_byte (buff net1) (?w + int (length msg)) 0 = Some ?b" using n1(6) w by (simp add: store_byte_def)
  obtain len1 c1 net2 where rr: "ma_real_read env net = Some (len1, c1, net2)" "read_more env net2 0 len1 = Some (acc, len, net1)"
    using n1(1) by (auto split: bind_splits)
  have len: "len \<noteq> packet_error" "len + acc = int (length msg)" "length msg \<noteq> 4294967295"
    using n1(2-4) lim w by simp_all
  let ?net = "net1\<lparr>where_b := ?w, read_pos := ?w, buff := ?b\<rparr>"
  have R: "ma_net_read env net = Some (int (length msg), ?net)"
    using assms(3) by (simp add: ma_net_read_def net_read_plain_def rr len st Let_def)
  have H: "holds_at ?b ?w (msg @ [0])"
  proof -
    obtain k where k: "?w = int k" using w by (metis nonneg_int_cases)
    have "k + length msg < length (buff net1)" "take (length msg) (drop k (buff net1)) = msg"
      using n1(5,6) by (simp_all add: k holds_at_int)
    moreover have "nat (int k + int (length msg)) = k + length msg" by simp
    ultimately show ?thesis
      unfolding k by (simp add: holds_at_int drop_update_swap take_Suc_conv_app_nth)
  qed
  show thesis by (rule that [OF R]) (use n1 H in \<open>simp_all add: roomy_def\<close>)
qed

text \<open>A client that sends messages one after the other and then flushes, and a peer that reads as many.\<close>

fun send_all :: "'s net_env \<Rightarrow> 's NET \<Rightarrow> mem list \<Rightarrow> 's NET option" where
  "send_all env net [] = do {
     (rc, net) \<leftarrow> ma_net_flush env net;
     if rc = 0 then Some net else None }"
| "send_all env net (msg # msgs) = do {
     (rc, net) \<leftarrow> ma_net_write env net msg;
     if rc = 0 then send_all env net msgs else None }"

fun receive_all :: "'s net_env \<Rightarrow> 's NET \<Rightarrow> nat \<Rightarrow> (mem list \<times> 's NET) option" where
  "receive_all env net 0 = Some ([], net)"
| "receive_all env net (Suc n) = do {
     (len, net) \<leftarrow> ma_net_read env net;
     msg \<leftarrow> load_bytes (buff net) (read_pos net) (nat len);
     (msgs, net) \<leftarrow> receive_all env net n;
     Some (msg # msgs, net) }"

lemma ma_net_write_plain:
  "net_plain net \<Longrightarrow> ma_net_write env net msg = net_write_loop env net msg"
  by (simp add: ma_net_write_def net_update_request_id_def net_plain_def split: option.split)

lemma send_all_plain:
  assumes r: "reliable_write (pvio_write env) sent"
  shows "net_plain net \<Longrightarrow> net_ok net \<Longrightarrow> multi_status net = 0 \<Longrightarrow>
    \<exists>net' nrs. send_all env net msgs = Some net' \<and> length nrs = length msgs
      \<and> sent (net_io net') = pending sent net @ concat (map2 frames nrs msgs)"
proof (induction msgs arbitrary: net)
  case Nil
  obtain net' where "ma_net_flush env net = Some (0, net')" "sent (net_io net') = pending sent net"
    by (rule flush_plain [OF r Nil])
  then show ?case by simp
next
  case (Cons msg msgs)
  obtain net1 where n1: "net_write_loop env net msg = Some (0, net1)" "net_ok net1" "net_plain net1"
    "pending sent net1 = pending sent net @ frames (pkt_nr net) msg" "multi_status net1 = multi_status net"
    using net_write_loop_plain [OF r Cons.prems(1,2)] by blast
  obtain net' nrs where "send_all env net1 msgs = Some net'" "length nrs = length msgs"
    "sent (net_io net') = pending sent net1 @ concat (map2 frames nrs msgs)"
    using Cons.IH [OF n1(3,2)] n1(5) Cons.prems(3) by auto
  then show ?case
    using n1 Cons.prems(1) by (intro exI [of _ net'] exI [of _ "pkt_nr net # nrs"]) (simp add: ma_net_write_plain)
qed

lemma receive_all_messages:
  assumes r: "reliable_read (pvio_read env) incoming" and re: "realloc_keeps (env_realloc env)"
  shows "\<not> compress net \<Longrightarrow> roomy net \<Longrightarrow> length nrs = length msgs \<Longrightarrow>
    incoming (net_io net) = concat (map2 frames nrs msgs) @ ys \<Longrightarrow>
    \<forall>msg\<in>set msgs. int (length msg) + where_b net < max_packet_size net \<Longrightarrow> max_packet_size net < packet_error \<Longrightarrow>
    \<exists>net'. receive_all env net (length msgs) = Some (msgs, net') \<and> incoming (net_io net') = ys"
proof (induction msgs arbitrary: net nrs)
  case (Cons msg msgs)
  obtain nr nrs' where nrs: "nrs = nr # nrs'" "length nrs' = length msgs" using Cons.prems(3) by (cases nrs) auto
  have inc: "incoming (net_io net) = frames nr msg @ concat (map2 frames nrs' msgs) @ ys" using Cons.prems(4) nrs(1) by simp
  have lim: "int (length msg) + where_b net < max_packet_size net" using Cons.prems(5) by simp
  obtain net1 where n1: "ma_net_read env net = Some (int (length msg), net1)" "read_pos net1 = where_b net" "where_b net1 = where_b net"
    "holds_at (buff net1) (read_pos net1) (msg @ [0])" "incoming (net_io net1) = concat (map2 frames nrs' msgs) @ ys"
    "roomy net1" "compress net1 = compress net" "max_packet_size net1 = max_packet_size net"
    by (rule net_read_message [OF r re Cons.prems(1,2) inc lim Cons.prems(6)])
  have "load_bytes (buff net1) (read_pos net1) (length msg) = Some msg"
    using n1(4) by (simp add: holds_at_append) (simp add: holds_at_def)
  moreover obtain net' where "receive_all env net1 (length msgs) = Some (msgs, net')" "incoming (net_io net') = ys"
    using Cons.IH [of net1 nrs'] Cons.prems n1 nrs(2) by auto
  ultimately show ?case using n1(1) by simp
qed simp

text \<open>C35: without compression, any messages that a client writes with \<^verbatim>\<open>ma_net_write\<close> and flushes, over a transport
  that cuts the stream anywhere, are read by \<^verbatim>\<open>ma_net_read\<close> at the peer as the same messages in the same order,
  whatever their lengths: messages of 16777215 bytes and more travel in several packets and are put together
  again, and the peer's buffer grows as needed.\<close>

theorem messages_roundtrip:
  assumes "reliable_write (pvio_write env) sent" and "net_plain net" and "net_ok net" and "multi_status net = 0"
    and "write_pos net = 0" and "sent (net_io net) = []"
    and "reliable_read (pvio_read env2) incoming" and "realloc_keeps (env_realloc env2)"
    and "\<not> compress peer" and "roomy peer" and "max_packet_size peer < packet_error"
    and "\<forall>msg\<in>set msgs. int (length msg) + where_b peer < max_packet_size peer"
  shows "\<exists>net'. send_all env net msgs = Some net' \<and>
    (\<forall>s. incoming s = sent (net_io net') @ ys \<longrightarrow>
      (\<exists>peer'. receive_all env2 (peer\<lparr>net_io := s\<rparr>) (length msgs) = Some (msgs, peer') \<and> incoming (net_io peer') = ys))"
proof -
  obtain net' nrs where "send_all env net msgs = Some net'" "length nrs = length msgs"
    "sent (net_io net') = pending sent net @ concat (map2 frames nrs msgs)"
    using send_all_plain [OF assms(1-4)] by blast
  moreover have "pending sent net = []" using assms(5,6) by (simp add: pending_def)
  ultimately show ?thesis
    using receive_all_messages [OF assms(7,8), of "peer\<lparr>net_io := s\<rparr>" nrs msgs ys for s] assms(9-12)
    by (auto simp: roomy_def)
qed

text \<open>A transport that takes and gives at most three bytes at a time, and a library that never fails.\<close>

definition pipe_env :: "mem net_env" where
  "pipe_env = \<lparr>pvio_write = \<lambda>s bs. (int (length (take 3 bs)), s @ take 3 bs),
     pvio_read = \<lambda>s k. (int (length (take (nat (min k 3)) s)), take (nat (min k 3)) s, drop (nat (min k 3)) s),
     env_malloc = \<lambda>n. Some (replicate (nat n) 0),
     env_realloc = \<lambda>b n. Some (take (nat n) (the b @ replicate (nat n) 0)),
     z_compress = \<lambda>m n. Inr m, z_uncompress = \<lambda>m n. Some (m @ [0]),
     crc64_sse42 = \<lambda>crc m n. Some (crc32_ref (take (nat n) m) crc), has_sse42 = True\<rparr>"

definition pipe_net :: "mem \<Rightarrow> mem NET" where
  "pipe_net s = \<lparr>buff = replicate 16 0, write_pos = 0, read_pos = 0, remain_in_buf = 0, buf_length = 0, where_b = 0,
     max_packet = 16, max_packet_size = 1000, pkt_nr = 0, compress_pkt_nr = 0, reading_or_writing = 0, save_char = 0,
     compress = False, use_ob20protocol = False, last_errno = 0, net_error = 0, multi_status = 0, ob20protocol = None,
     net_io = s\<rparr>"

lemma pipe_reliable:
  "reliable_write (pvio_write pipe_env) id" "reliable_read (pvio_read pipe_env) id" "realloc_keeps (env_realloc pipe_env)"
  by (auto simp: reliable_write_def reliable_read_def realloc_keeps_def pipe_env_def min_def)

theorem messages_roundtrip_witness:
  "\<exists>net' peer'. send_all pipe_env (pipe_net []) [[1, 2, 3], [], replicate 40 9] = Some net' \<and>
    receive_all pipe_env (pipe_net (net_io net')) (length [[1, 2, 3], [], replicate 40 (9 :: byte)]) =
      Some ([[1, 2, 3], [], replicate 40 9], peer')"
proof -
  let ?msgs = "[[1, 2, 3], [], replicate 40 9] :: mem list"
  obtain net' where n: "send_all pipe_env (pipe_net []) ?msgs = Some net'"
    "\<forall>s. id s = id (net_io net') @ [] \<longrightarrow> (\<exists>peer'. receive_all pipe_env ((pipe_net [])\<lparr>net_io := s\<rparr>)
       (length ?msgs) = Some (?msgs, peer') \<and> id (net_io peer') = [])"
    using messages_roundtrip [OF pipe_reliable(1) _ _ _ _ _ pipe_reliable(2,3), of "pipe_net []" "pipe_net []" ?msgs "[]"]
    by (auto simp: pipe_net_def net_plain_def net_ok_def roomy_def)
  have "(pipe_net [])\<lparr>net_io := s\<rparr> = pipe_net s" for s by (simp add: pipe_net_def)
  then show ?thesis using n(1) n(2) [rule_format, of "net_io net'"] by auto
qed

end
