(* ===== verification/MaNetEnvelope.thy ===== *)
theory MaNetEnvelope
  imports MaNetPlain
begin

unbundle bit_operations_syntax

section \<open>Messages inside OB 2.0 packets and compressed packets\<close>

text \<open>
  With compression or with the OB 2.0 protocol the stream of messages travels inside other packets.  The locale
  \<open>envelope\<close> is what the reading loop of \<^verbatim>\<open>ma_net_read\<close> needs of such packets; it is interpreted on the packets of the OB 2.0
  protocol and on compressed packets.
\<close>

subsection \<open>Packets of the OB 2.0 protocol\<close>

text \<open>
  The extra information of a packet: none, or the block that \<^verbatim>\<open>decode_protocol20_extra_info\<close> parses, with its
  effect on the trace information.
\<close>

datatype extra_block = NoExtra | Extra "(nat \<times> mem) list" "flt_group list"

fun extra_body :: "extra_block \<Rightarrow> mem" where
  "extra_body NoExtra = []"
| "extra_body (Extra es gs) = (let b = items_bytes es @ tlv 2003 (groups_bytes gs)
     in le_bytes 4 (word_of_nat (length b) :: 32 word) @ b)"

fun extra_ok :: "extra_block \<Rightarrow> Ob20ProtocolHeader \<Rightarrow> FLTInfo option \<Rightarrow> bool" where
  "extra_ok NoExtra h flt \<longleftrightarrow> \<not> bit (flags h) 0"
| "extra_ok (Extra es gs) h flt \<longleftrightarrow> bit (flags h) 0 \<and> bit (flags h) 3 \<and> flt \<noteq> None
     \<and> list_all (\<lambda>(k, v). k \<le> 2004 \<and> k \<noteq> 2003) es \<and> list_all group_ok gs"

fun extra_apply :: "extra_block \<Rightarrow> FLTInfo option \<Rightarrow> FLTInfo option" where
  "extra_apply NoExtra flt = flt"
| "extra_apply (Extra es gs) flt = map_option (fold group_apply gs) flt"

definition crc_instruction_ok :: "(64 word \<Rightarrow> mem \<Rightarrow> int \<Rightarrow> 64 word option) \<Rightarrow> bool" where
  "crc_instruction_ok sse \<longleftrightarrow> (\<forall>crc m n. n \<le> length m \<longrightarrow> sse crc m (int n) = Some (crc32_ref (take n m) crc))"

lemma ob_crc32_eq:
  assumes "crc_instruction_ok sse" and "n \<le> length m"
  shows "ob_crc32 sse has 0 m (int n) = Some (ucast (crc32_ref (take n m) 0))"
  using assms crc32.fold_below [of 0 "take n m"]
  by (simp add: ob_crc32_def crc64_sse42_dispatch_def crc64_manually_eq below_bit_mask crc_instruction_ok_def)

text \<open>The header a peer sends that is in step with the protocol state \<open>p\<close>.\<close>

definition in_step :: "Ob20Protocol \<Rightarrow> Ob20ProtocolHeader \<Rightarrow> bool" where
  "in_step p h \<longleftrightarrow> magic_num h = magic_num (ob_header p) \<and> version h = version (ob_header p)
     \<and> connection_id h = connection_id (ob_header p) \<and> take_bit 24 (request_id h) = request_id (ob_header p)
     \<and> pkt_seq h = pkt_seq (ob_header p) + 1"

lemma decode_in_step:
  assumes "holds_at m base (header_bytes h @ le_bytes 2 (header_checksum h))" and "in_step p h"
    and "header_checksum h = crc16_ref (net_bytes (ucast pkt_len) (ucast k) (ucast complen) @ header_bytes h) 0"
  shows "decode_protocol20_header p m base pkt_len k complen =
    Some (0, p\<lparr>ob_header := h\<lparr>request_id := request_id (ob_header p)\<rparr>\<rparr>)"
proof -
  have "(if header_checksum h \<noteq> 0
      then crc16_ref (net_bytes (ucast pkt_len) (ucast k) (ucast complen) @ header_bytes h) 0 else 0) = header_checksum h"
    using assms(3) by simp
  then show ?thesis
    unfolding decode_header [OF assms(1)] using assms(2) by (simp add: decode_result_def in_step_def Let_def)
qed

lemma uint_len32: "n < 2 ^ 31 \<Longrightarrow> uint (word_of_nat n :: 32 word) = int n"
  by (simp add: unsigned_of_nat take_bit_nat_eq_self)

lemma extra_parsed:
  assumes "extra_ok x h (ob_flt p)" and "holds_at m cur (extra_body x)" and "length (extra_body x) < 2 ^ 31"
    and "flags (ob_header p) = flags h"
  shows "ob20_read_extra p m cur = Some (int (length (extra_body x)), p\<lparr>ob_flt := extra_apply x (ob_flt p)\<rparr>)"
proof (cases x)
  case NoExtra
  then show ?thesis using assms(1,4) by (cases p) (simp add: ob20_read_extra_def OB_EXTRA_INFO_EXIST_def)
next
  case (Extra es gs)
  let ?b = "items_bytes es @ tlv 2003 (groups_bytes gs)"
  have e: "bit (flags h) 0" "bit (flags h) 3" "list_all (\<lambda>(k, v). k \<le> 2004 \<and> k \<noteq> 2003) es" "list_all group_ok gs"
    using assms(1) Extra by simp_all
  obtain flt where flt: "ob_flt p = Some flt" using assms(1) Extra by auto
  have h: "holds_at m cur (le_bytes 4 (word_of_nat (length ?b) :: 32 word) @ ?b)"
    using assms(2) Extra by (simp only: extra_body.simps Let_def)
  have l: "length ?b < 2 ^ 31" using assms(3) Extra by (simp add: Let_def)
  note dec = extra_block_decoded [OF e(3,4) refl l h flt]
  have "holds_at m cur (le_bytes 4 (word_of_nat (length ?b) :: 32 word))" using h by (simp only: holds_at_append)
  then have "uint4korr m cur = Some (word_of_nat (length ?b))" by (rule korr_at(2))
  moreover have "uint (word_of_nat (length ?b) :: 32 word) = int (length ?b)"
    by (rule uint_len32 [OF l])
  ultimately show ?thesis
    using e(1,2) assms(4) dec flt Extra
    by (simp only: ob20_read_extra_def OB_EXTRA_INFO_EXIST_def OB_IS_NEW_EXTRA_INFO_def if_True bind.bind_lunit option.map) (simp add: Let_def)
qed

lemma unframe_ok:
  fixes net :: "'s NET"
  assumes crc: "crc_instruction_ok (crc64_sse42 env)" and p: "ob20protocol net = Some p" "ob_list p = None"
    and h: "holds_at (buff net) (where_b net) (header_bytes h @ le_bytes 2 (header_checksum h) @ body
        @ le_bytes 4 (ucast (crc32_ref body 0) :: 32 word))"
    and step: "in_step p h" and chk: "header_checksum h = crc16_ref (net_bytes (ucast (word_of_int len :: 32 word)) (ucast (pkt_nr net - 1)) 0 @ header_bytes h) 0"
    and body: "body = extra_body x @ rest" "payload_len h = word_of_nat (length body)" "length body < 2 ^ 31"
    and x: "extra_ok x h (ob_flt p)"
  obtains b where "ob20_unframe env net len = Some (Some (int (length rest)), net\<lparr>buff := b,
      ob20protocol := Some (p\<lparr>ob_header := h\<lparr>request_id := request_id (ob_header p)\<rparr>, ob_current := None,
        ob_flt := extra_apply x (ob_flt p)\<rparr>)\<rparr>)"
    and "holds_at b (where_b net) rest" and "length b = length (buff net)"
    and "take (nat (where_b net)) b = take (nat (where_b net)) (buff net)"
proof -
  let ?m = "buff net" and ?w = "where_b net"
  have w: "0 \<le> ?w" using h by (rule holds_at_nonneg)
  let ?cur = "?w + 24"
  have parts: "holds_at ?m ?w (header_bytes h @ le_bytes 2 (header_checksum h))" "holds_at ?m ?cur body"
    "holds_at ?m (?cur + int (length body)) (le_bytes 4 (ucast (crc32_ref body 0) :: 32 word))"
    using h by (simp_all add: holds_at_append add.assoc)
  have dec: "decode_protocol20_header p ?m ?w (word_of_int len) (pkt_nr net - 1) 0 =
      Some (0, p\<lparr>ob_header := h\<lparr>request_id := request_id (ob_header p)\<rparr>\<rparr>)"
    using chk by (intro decode_in_step [OF parts(1) step]) simp
  have pl: "uint (payload_len h) = int (length body)" unfolding body(2) by (rule uint_len32 [OF body(3)])
  have k4: "uint4korr ?m (?cur + int (length body)) = Some (ucast (crc32_ref body 0))" using parts(3) by (rule korr_at(2))
  obtain sub where sub: "sub_object ?m ?cur = Some sub" "holds_at sub 0 body" "length body \<le> length sub"
    using parts(2) by (rule sub_object_holds)
  have "take (length body) sub = body" using sub(2) by (simp add: holds_at_def load_bytes_def split: if_splits)
  then have c32: "ob_crc32 (crc64_sse42 env) (has_sse42 env) 0 sub (int (length body)) = Some (ucast (crc32_ref body 0))"
    using ob_crc32_eq [OF crc sub(3), of "has_sse42 env"] by simp
  let ?q = "p\<lparr>ob_header := h\<lparr>request_id := request_id (ob_header p)\<rparr>\<rparr>"
  have "extra_list ?q []" using p(2) by (simp add: extra_list_def is_list_def)
  then have clr: "clear_extra_info ?q = Some (?q\<lparr>ob_current := None\<rparr>)"
    using p(2) by (simp add: clear_extra_info_def, subst clear_loop_step, simp)
  let ?q2 = "?q\<lparr>ob_current := None\<rparr>"
  have hx: "holds_at ?m ?cur (extra_body x)" "holds_at ?m (?cur + int (length (extra_body x))) rest"
    using parts(2) by (simp_all add: body(1) holds_at_append)
  have lx: "length (extra_body x) < 2 ^ 31" using body(1,3) by simp
  have x2: "extra_ok x h (ob_flt ?q2)" "flags (ob_header ?q2) = flags h" using x by simp_all
  note ex = extra_parsed [OF x2(1) hx(1) lx x2(2)]
  have rest: "to_uint64 (int (length body) - int (length (extra_body x))) = int (length rest)"
    using body(1,3) by simp
  have ld: "load_bytes ?m (?cur + int (length (extra_body x))) (length rest) = Some rest" using hx(2) by (simp add: holds_at_def)
  have "?w + int (length rest) \<le> int (length ?m)"
    using hx(2) w by (auto simp: holds_at_def load_bytes_def split: if_splits)
  then have fit: "nat ?w + length rest \<le> length ?m" using w by linarith
  then have st: "store_bytes ?m ?w rest = Some (put ?m ?w rest)" using w by (simp add: store_bytes_def)
  have U: "ob20_unframe env net len = Some (Some (int (length rest)), net\<lparr>buff := put ?m ?w rest,
      ob20protocol := Some (?q2\<lparr>ob_flt := extra_apply x (ob_flt p)\<rparr>)\<rparr>)"
    by (simp add: ob20_unframe_def p(1) dec pl k4 sub(1) c32 clr ex rest ld st Let_def)
  show thesis
    by (rule that [OF U [simplified]]) (use w fit in \<open>simp_all add: holds_at_put put_take_before\<close>)
qed

subsection \<open>Messages inside other packets\<close>

definition frame :: "byte \<Rightarrow> mem \<Rightarrow> mem" where
  "frame nr msg = net_header (int (length msg)) nr @ msg"

lemma length_frame [simp]: "length (frame nr msg) = 4 + length msg"
  by (simp add: frame_def)

lemma scan_complete:
  assumes "holds_at (buff net) cur (frame nr msg @ rest)" and "length msg < 16777215"
    and "bl = cur + 4 + int (length msg) + int (length rest)" and "bl < 2 ^ 63"
  shows "net_scan net (bl, cur, st, False) = Some (Break (bl, cur + 4 + int (length msg), st, False), net)"
proof -
  have "holds_at (buff net) cur (net_header (int (length msg)) nr @ msg @ rest)" using assms(1) by (simp add: frame_def)
  note hf = header_fields [OF this]
  have s: "length msg < 2 ^ 24" using assms(2) by simp
  have c: "0 \<le> cur" using assms(1) by (rule holds_at_nonneg)
  show ?thesis
    using assms(2-4) c hf(1,4) [OF s] by (cases "msg = []") (simp_all add: net_scan.simps algebra_simps)
qed

lemma scan_incomplete:
  assumes "holds_at (buff net) cur avail" and "avail @ zs = frame nr msg @ rest" and "length msg < 16777215"
    and "length avail < 4 + length msg" and "bl = cur + int (length avail)"
  shows "net_scan net (bl, cur, st, False) = Some (More, net)"
proof (cases "length avail < 4")
  case True
  then show ?thesis using assms(5) by (simp add: net_scan.simps)
next
  case False
  then obtain tl where av: "avail = net_header (int (length msg)) nr @ tl"
    using assms(2) unfolding frame_def
    by (metis append_assoc append_eq_append_conv_if append_take_drop_id length_net_header not_less)
  have s: "length msg < 2 ^ 24" using assms(3) by simp
  note hf = header_fields [OF assms(1) [unfolded av] s]
  have "msg \<noteq> []" using False assms(4) by auto
  then show ?thesis using False assms(3-5) hf(1,4) by (simp add: net_scan.simps)
qed

declare net_scan.simps [simp del] net_fetch.simps [simp del]

lemma holds_at_Nil: "0 \<le> a \<Longrightarrow> a \<le> int (length m) \<Longrightarrow> holds_at m a []"
  by (simp add: holds_at_def load_bytes_def)

lemma holds_at_terminated:
  assumes "holds_at m a xs" and "a + int (length xs) < int (length m)"
  shows "holds_at (m[nat (a + int (length xs)) := v]) a (xs @ [v])"
proof -
  obtain k where k: "a = int k" using holds_at_nonneg [OF assms(1)] by (rule nonneg_int_cases)
  have "nat (int k + int (length xs)) = k + length xs" by simp
  moreover have "take (length xs) (drop k m) = xs" "k + length xs < length m" using assms by (simp_all add: k holds_at_int)
  ultimately show ?thesis
    by (simp add: k holds_at_int take_Suc_conv_app_nth drop_update_swap del: nat_int_add)
qed

text \<open>The bytes not yet read are moved to the front of the buffer before the next packet is read behind them.\<close>

lemma move_front:
  assumes "holds_at m cur avail" and "0 \<le> cur"
  obtains b where "mem_move m 0 cur (int (length avail)) = Some b" and "length b = length m" and "holds_at b 0 avail"
proof -
  have fit: "cur + int (length avail) \<le> int (length m)" and ld: "load_bytes m cur (length avail) = Some avail"
    using assms by (auto simp: holds_at_def load_bytes_def split: if_splits)
  have f0: "nat 0 + length avail \<le> length m" using fit assms(2) by linarith
  then have "mem_move m 0 cur (int (length avail)) = Some (put m 0 avail)"
    using ld by (simp add: mem_move_def store_bytes_def)
  then show thesis using f0 holds_at_put [of 0 avail m] by (intro that [of "put m 0 avail"]) simp_all
qed

text \<open>
  The interface of the packets that carry the messages when the connection is compressed or uses the OB 2.0
  protocol.  \<open>ready net ks\<close> says that the packets \<open>ks\<close> are what comes next for the connection \<open>net\<close>, \<open>payload\<close> is
  what a packet carries, \<open>room\<close> the size of buffer it needs.  The law: when the bytes of the next packet are read
  behind \<open>bl\<close> bytes of the buffer, its payload stands there, and the rest of the packets are next.
\<close>

locale envelope =
  fixes env :: "'s net_env"
    and ready :: "'s NET \<Rightarrow> 'k list \<Rightarrow> bool"
    and payload :: "'k \<Rightarrow> mem"
    and room :: "'k \<Rightarrow> int"
  assumes fetch: "ready net (k # ks) \<Longrightarrow> 0 \<le> bl \<Longrightarrow> bl + 7 \<le> int (length (buff net)) \<Longrightarrow>
      bl + room k < max_packet_size net \<Longrightarrow>
      \<exists>net'. net_fetch env net (bl, 0, 0, False) = Some (Again (bl + int (length (payload k)), 0, 0, False), net')
        \<and> ready net' ks \<and> take (nat bl) (buff net') = take (nat bl) (buff net) \<and> holds_at (buff net') bl (payload k)
        \<and> bl + int (length (payload k)) + 7 \<le> int (length (buff net')) \<and> max_packet_size net' = max_packet_size net"
    and ready_buff: "ready net ks \<Longrightarrow> length b = length (buff net) \<Longrightarrow> ready (net\<lparr>buff := b\<rparr>) ks"
    and ready_read: "ready net ks \<Longrightarrow> length b = length (buff net) \<Longrightarrow> ready (net\<lparr>buf_length := n, remain_in_buf := r, read_pos := q, save_char := c, buff := b\<rparr>) ks"
    and payload_room: "int (length (payload k)) \<le> room k"
    and ready_compress: "ready net ks \<Longrightarrow> compress net"
begin

lemma loop_enough:
  assumes h: "holds_at (buff net) cur avail" and bl: "bl = cur + int (length avail)" "bl < 2 ^ 63"
    and av: "avail @ zs = frame nr msg @ rest" and m: "length msg < 16777215" and "\<not> length avail < 4 + length msg"
  obtains avail' where "net_read_loop env net (bl, cur, cur, False) =
        Some (Break (cur + 4 + int (length msg) + int (length avail'), cur + 4 + int (length msg), cur, False), net)"
    and "avail = frame nr msg @ avail'" and "avail' @ zs = rest"
proof -
  have "take (4 + length msg) avail = frame nr msg" "drop (4 + length msg) avail @ zs = rest"
    using arg_cong [OF av, of "take (4 + length msg)"] arg_cong [OF av, of "drop (4 + length msg)"] assms(6) by simp_all
  then obtain avail' where a: "avail = frame nr msg @ avail'" "avail' @ zs = rest"
    by (metis append_take_drop_id)
  then have "bl = cur + 4 + int (length msg) + int (length avail')" using bl(1) by simp
  moreover have "net_scan net (bl, cur, cur, False) = Some (Break (bl, cur + 4 + int (length msg), cur, False), net)"
    by (rule scan_complete [OF h [unfolded a(1)] m]) (use calculation bl(2) in simp_all)
  ultimately have "net_read_loop env net (bl, cur, cur, False) =
        Some (Break (cur + 4 + int (length msg) + int (length avail'), cur + 4 + int (length msg), cur, False), net)"
    by (subst net_read_loop.simps) (simp add: net_read_step_def)
  then show thesis using a by (rule that)
qed

lemma fetch_behind:
  assumes rd: "ready net (k # ks)" and h: "holds_at (buff net) cur avail"
    and bl: "bl = cur + int (length avail)" "bl + 7 \<le> int (length (buff net))"
    and lim: "int (length avail) + room k < max_packet_size net"
  obtains net' where "net_fetch env net (bl, cur, cur, False) =
        Some (Again (int (length avail) + int (length (payload k)), 0, 0, False), net')"
    and "ready net' ks" and "holds_at (buff net') 0 (avail @ payload k)"
    and "int (length avail) + int (length (payload k)) + 7 \<le> int (length (buff net'))" and "max_packet_size net' = max_packet_size net"
proof -
  have c: "0 \<le> cur" using h by (rule holds_at_nonneg)
  obtain b where b: "(if cur \<noteq> 0 then mem_move (buff net) 0 cur (bl - cur) else Some (buff net)) = Some b"
    "length b = length (buff net)" "holds_at b 0 avail"
  proof (cases "cur = 0")
    case False
    obtain b where "mem_move (buff net) 0 cur (int (length avail)) = Some b" "length b = length (buff net)" "holds_at b 0 avail"
      by (rule move_front [OF h c])
    then show thesis using False bl(1) by (intro that) simp_all
  qed (use h that in auto)
  let ?n = "net\<lparr>buff := b\<rparr>" and ?l = "int (length avail)"
  have "net_fetch env net (bl, cur, cur, False) = net_fetch env ?n (?l, 0, 0, False)"
    by (cases "cur = 0") (use b(1) bl(1) in \<open>simp_all add: net_fetch.simps\<close>)
  moreover obtain net' where n: "net_fetch env ?n (?l, 0, 0, False) = Some (Again (?l + int (length (payload k)), 0, 0, False), net')"
    "ready net' ks" "take (nat ?l) (buff net') = take (nat ?l) b" "holds_at (buff net') ?l (payload k)"
    "?l + int (length (payload k)) + 7 \<le> int (length (buff net'))" "max_packet_size net' = max_packet_size net"
    using fetch [OF ready_buff [OF rd b(2)], of ?l] b(2) bl c lim by auto
  moreover have "holds_at (buff net') 0 avail"
    by (rule holds_at_prefix [OF _ b(3)]) (use n(3,5) in simp_all)
  ultimately show thesis by (intro that [of net']) (simp_all add: holds_at_append)
qed

lemma loop_reads:
  "ready net ks \<Longrightarrow> holds_at (buff net) cur avail \<Longrightarrow> bl = cur + int (length avail) \<Longrightarrow> bl + 7 \<le> int (length (buff net)) \<Longrightarrow>
    bl < 2 ^ 63 \<Longrightarrow> avail @ concat (map payload ks) = frame nr msg @ rest \<Longrightarrow> length msg < 16777215 \<Longrightarrow>
    \<forall>k\<in>set ks. int (length msg) + 4 + room k \<le> max_packet_size net \<Longrightarrow> max_packet_size net < 2 ^ 63 \<Longrightarrow>
    \<exists>st net' ks' avail'. net_read_loop env net (bl, cur, cur, False) =
        Some (Break (st + 4 + int (length msg) + int (length avail'), st + 4 + int (length msg), st, False), net')
      \<and> ready net' ks' \<and> holds_at (buff net') st (frame nr msg @ avail')
      \<and> st + 4 + int (length msg) + int (length avail') + 7 \<le> int (length (buff net')) 
      \<and> st + 4 + int (length msg) + int (length avail') < 2 ^ 63
      \<and> avail' @ concat (map payload ks') = rest \<and> set ks' \<subseteq> set ks \<and> max_packet_size net' = max_packet_size net"
proof (induction ks arbitrary: net cur avail bl)
  case (Cons k ks)
  show ?case
  proof (cases "length avail < 4 + length msg")
    case True
    have m: "net_scan net (bl, cur, cur, False) = Some (More, net)"
      by (rule scan_incomplete [OF Cons.prems(2,6,7) True Cons.prems(3)])
    have lim: "int (length avail) + room k < max_packet_size net" using Cons.prems(8) True by simp
    obtain net1 where n1: "net_fetch env net (bl, cur, cur, False) =
        Some (Again (int (length avail) + int (length (payload k)), 0, 0, False), net1)"
      "ready net1 ks" "holds_at (buff net1) 0 (avail @ payload k)"
      "int (length avail) + int (length (payload k)) + 7 \<le> int (length (buff net1))" "max_packet_size net1 = max_packet_size net"
      by (rule fetch_behind [OF Cons.prems(1-4) lim])
    have "int (length avail) + int (length (payload k)) < 2 ^ 63"
      using payload_room [of k] lim Cons.prems(9) by simp
    then obtain st net' ks' avail' where "net_read_loop env net1 (int (length avail) + int (length (payload k)), 0, 0, False) =
        Some (Break (st + 4 + int (length msg) + int (length avail'), st + 4 + int (length msg), st, False), net')"
      "ready net' ks'" "holds_at (buff net') st (frame nr msg @ avail')"
      "st + 4 + int (length msg) + int (length avail') + 7 \<le> int (length (buff net'))"
      "st + 4 + int (length msg) + int (length avail') < 2 ^ 63"
      "avail' @ concat (map payload ks') = rest" "set ks' \<subseteq> set ks" "max_packet_size net' = max_packet_size net1"
      using Cons.IH [OF n1(2,3)] n1(4,5) Cons.prems(6-9) by auto
    moreover have "net_read_loop env net (bl, cur, cur, False) =
        net_read_loop env net1 (int (length avail) + int (length (payload k)), 0, 0, False)"
      by (subst net_read_loop.simps) (simp add: net_read_step_def m n1(1))
    ultimately show ?thesis
      using n1(5) by (intro exI [of _ st] exI [of _ net'] exI [of _ ks'] exI [of _ avail']) auto
  next
    case False
    obtain avail' where "net_read_loop env net (bl, cur, cur, False) =
        Some (Break (cur + 4 + int (length msg) + int (length avail'), cur + 4 + int (length msg), cur, False), net)"
      "avail = frame nr msg @ avail'" "avail' @ concat (map payload (k # ks)) = rest"
      by (rule loop_enough [OF Cons.prems(2,3,5,6,7) False])
    then show ?thesis
      using Cons.prems by (intro exI [of _ cur] exI [of _ net] exI [of _ "k # ks"] exI [of _ avail']) simp
  qed
next
  case Nil
  have "\<not> length avail < 4 + length msg" using arg_cong [OF Nil.prems(6), of length] by simp
  then obtain avail' where "net_read_loop env net (bl, cur, cur, False) =
        Some (Break (cur + 4 + int (length msg) + int (length avail'), cur + 4 + int (length msg), cur, False), net)"
      "avail = frame nr msg @ avail'" "avail' @ concat (map payload []) = rest"
    by (rule loop_enough [OF Nil.prems(2,3,5,6,7)])
  then show ?case
    using Nil.prems by (intro exI [of _ cur] exI [of _ net] exI [of _ "[]"] exI [of _ avail']) simp
qed

text \<open>
  Between two calls of \<^verbatim>\<open>ma_net_read\<close> the bytes \<open>avail\<close> of later messages stand in the buffer, the first one
  overwritten by the terminator of the last message and kept in \<open>save_char\<close>.
\<close>

definition held :: "'s NET \<Rightarrow> mem \<Rightarrow> bool" where
  "held net avail \<longleftrightarrow> 7 \<le> length (buff net) \<and> remain_in_buf net = int (length avail) \<and>
     (avail \<noteq> [] \<longrightarrow> remain_in_buf net \<le> buf_length net \<and> buf_length net + 7 \<le> int (length (buff net)) \<and> buf_length net < 2 ^ 63
       \<and> holds_at ((buff net)[nat (buf_length net - remain_in_buf net) := save_char net]) (buf_length net - remain_in_buf net) avail)"

lemma reads_message:
  assumes rd: "ready net ks" and held: "held net avail"
    and st: "avail @ concat (map payload ks) = frame nr msg @ rest" and m: "length msg < 16777215"
    and lim: "\<forall>k\<in>set ks. int (length msg) + 4 + room k \<le> max_packet_size net" "max_packet_size net < 2 ^ 63"
  obtains net' ks' avail' where "ma_net_read env net = Some (int (length msg), net')"
    and "holds_at (buff net') (read_pos net') (msg @ [0])" and "ready net' ks'" and "held net' avail'"
    and "avail' @ concat (map payload ks') = rest" and "set ks' \<subseteq> set ks" and "max_packet_size net' = max_packet_size net"
proof -
  let ?cur = "buf_length net - remain_in_buf net"
  obtain bl cur b where start: "(if remain_in_buf net = 0 then Some (0, 0, buff net)
        else do {
          let current = buf_length net - remain_in_buf net;
          b \<leftarrow> store_byte (buff net) current (save_char net);
          Some (buf_length net, current, b) }) = Some (bl, cur, b)"
    and b: "length b = length (buff net)" "holds_at b cur avail" "bl = cur + int (length avail)" "bl + 7 \<le> int (length b)" "bl < 2 ^ 63"
  proof (cases "avail = []")
    case True
    then show thesis using held by (intro that) (auto simp: held_def holds_at_Nil)
  next
    case False
    then have h: "0 \<le> ?cur" "?cur < int (length (buff net))" "nat ?cur < length (buff net)" "remain_in_buf net \<noteq> 0" using held by (auto simp: held_def)
    show thesis
      by (rule that [of "buf_length net" ?cur "(buff net)[nat ?cur := save_char net]"])
        (use h held False in \<open>auto simp: held_def store_byte_def Let_def\<close>)
  qed
  let ?n = "net\<lparr>buff := b\<rparr>"
  have rd': "ready ?n ks" using rd b(1) by (rule ready_buff)
  obtain st net1 ks' avail' where l: "net_read_loop env ?n (bl, cur, cur, False) =
        Some (Break (st + 4 + int (length msg) + int (length avail'), st + 4 + int (length msg), st, False), net1)"
      "ready net1 ks'" "holds_at (buff net1) st (frame nr msg @ avail')"
      "st + 4 + int (length msg) + int (length avail') + 7 \<le> int (length (buff net1))"
      "st + 4 + int (length msg) + int (length avail') < 2 ^ 63"
      "avail' @ concat (map payload ks') = rest" "set ks' \<subseteq> set ks" "max_packet_size net1 = max_packet_size ?n"
    using loop_reads [OF rd' _ b(3) _ b(5) st m] b(1,2,4) lim by auto
  have s0: "0 \<le> st" using l(3) by (rule holds_at_nonneg)
  let ?e = "st + 4 + int (length msg)"
  have e: "0 \<le> ?e" "nat ?e < length (buff net1)" using s0 l(4) by linarith+
  let ?c = "buff net1 ! nat ?e"
  let ?net = "net1\<lparr>buf_length := ?e + int (length avail'), remain_in_buf := int (length avail'), read_pos := st + 4,
        save_char := ?c, buff := (buff net1)[nat ?e := 0]\<rparr>"
  have "net_read_compressed env net = Some (int (length msg), ?net)"
    unfolding net_read_compressed_def start
    using l(1,5) s0 e by (simp add: load_byte_def store_byte_def add.assoc Let_def)
  then have R: "ma_net_read env net = Some (int (length msg), ?net)"
    using ready_compress [OF rd] by (simp add: ma_net_read_def)
  obtain k where k: "st = int k" using s0 by (rule nonneg_int_cases)
  have ne: "nat ?e = k + 4 + length msg" by (simp add: k)
  have hb: "holds_at (buff net1) (st + 4) msg" "holds_at (buff net1) ?e avail'"
    using l(3) by (simp_all add: frame_def holds_at_append add.assoc add.commute add.left_commute)
  have h1: "holds_at (buff ?net) (read_pos ?net) (msg @ [0])"
    using holds_at_terminated [OF hb(1), of 0] e by simp
  have h2: "held ?net avail'"
    using hb(2) l(4,5) s0 e by (simp add: held_def)
  show thesis by (rule that [OF R h1 ready_read [OF l(2)] h2 l(6,7)]) (use l(8) in simp_all)
qed

lemma receives:
  "ready net ks \<Longrightarrow> held net avail \<Longrightarrow> length nrs = length msgs \<Longrightarrow>
    avail @ concat (map payload ks) = concat (map2 frame nrs msgs) @ rest \<Longrightarrow>
    \<forall>msg\<in>set msgs. length msg < 16777215 \<and> (\<forall>k\<in>set ks. int (length msg) + 4 + room k \<le> max_packet_size net) \<Longrightarrow>
    max_packet_size net < 2 ^ 63 \<Longrightarrow>
    \<exists>net' ks' avail'. receive_all env net (length msgs) = Some (msgs, net') \<and> ready net' ks' \<and> held net' avail'
      \<and> avail' @ concat (map payload ks') = rest \<and> set ks' \<subseteq> set ks"
proof (induction msgs arbitrary: net ks avail nrs)
  case (Cons msg msgs)
  obtain nr nrs' where nrs: "nrs = nr # nrs'" "length nrs' = length msgs" using Cons.prems(3) by (cases nrs) auto
  have s: "avail @ concat (map payload ks) = frame nr msg @ concat (map2 frame nrs' msgs) @ rest"
    using Cons.prems(4) nrs(1) by simp
  have lim: "length msg < 16777215" "\<forall>k\<in>set ks. int (length msg) + 4 + room k \<le> max_packet_size net"
    using Cons.prems(5) by simp_all
  obtain net1 ks1 avail1 where n1: "ma_net_read env net = Some (int (length msg), net1)"
    "holds_at (buff net1) (read_pos net1) (msg @ [0])" "ready net1 ks1" "held net1 avail1"
    "avail1 @ concat (map payload ks1) = concat (map2 frame nrs' msgs) @ rest" "set ks1 \<subseteq> set ks"
    "max_packet_size net1 = max_packet_size net"
    by (rule reads_message [OF Cons.prems(1,2) s lim Cons.prems(6)])
  have "load_bytes (buff net1) (read_pos net1) (length msg) = Some msg"
    using n1(2) by (simp add: holds_at_append) (simp add: holds_at_def)
  moreover obtain net' ks' avail' where "receive_all env net1 (length msgs) = Some (msgs, net')" "ready net' ks'"
    "held net' avail'" "avail' @ concat (map payload ks') = rest" "set ks' \<subseteq> set ks1"
    using Cons.IH [OF n1(3,4) nrs(2) n1(5)] Cons.prems(5,6) n1(6,7) by (auto simp: subset_iff)
  ultimately show ?case using n1(1,6) by auto
qed auto

end

text \<open>A packet of the OB 2.0 protocol as a peer sends it, and what reading it does to the protocol state.\<close>

record ob20_packet =
  pk_header :: Ob20ProtocolHeader
  pk_nr :: byte
  pk_extra :: extra_block
  pk_payload :: mem

definition pk_body :: "ob20_packet \<Rightarrow> mem" where
  "pk_body k = extra_body (pk_extra k) @ pk_payload k"

definition pk_content :: "ob20_packet \<Rightarrow> mem" where
  "pk_content k = header_bytes (pk_header k) @ le_bytes 2 (header_checksum (pk_header k)) @ pk_body k
     @ le_bytes 4 (ucast (crc32_ref (pk_body k) 0) :: 32 word)"

definition pk_bytes :: "ob20_packet \<Rightarrow> mem" where
  "pk_bytes k = net_header (int (length (pk_content k))) (pk_nr k) @ le_bytes 3 (of_nat 0 :: 64 word) @ pk_content k"

definition pk_ok :: "Ob20Protocol \<Rightarrow> ob20_packet \<Rightarrow> bool" where
  "pk_ok p k \<longleftrightarrow> in_step p (pk_header k) \<and> payload_len (pk_header k) = word_of_nat (length (pk_body k))
     \<and> header_checksum (pk_header k) =
         crc16_ref (net_bytes (of_nat (length (pk_content k))) (pk_nr k) 0 @ header_bytes (pk_header k)) 0
     \<and> length (pk_content k) < 2 ^ 24 \<and> extra_ok (pk_extra k) (pk_header k) (ob_flt p)"

definition pk_next :: "ob20_packet \<Rightarrow> Ob20Protocol \<Rightarrow> Ob20Protocol" where
  "pk_next k p = p\<lparr>ob_header := (pk_header k)\<lparr>request_id := request_id (ob_header p)\<rparr>, ob_current := None,
     ob_flt := extra_apply (pk_extra k) (ob_flt p)\<rparr>"

fun pks_ok :: "Ob20Protocol \<Rightarrow> ob20_packet list \<Rightarrow> bool" where
  "pks_ok p [] \<longleftrightarrow> True"
| "pks_ok p (k # ks) \<longleftrightarrow> pk_ok p k \<and> pks_ok (pk_next k p) ks"

definition ob20_ready :: "'s net_env \<Rightarrow> ('s \<Rightarrow> mem) \<Rightarrow> Ob20Protocol \<Rightarrow> 's NET \<Rightarrow> ob20_packet list \<Rightarrow> bool" where
  "ob20_ready env incoming fin net ks \<longleftrightarrow> reliable_read (pvio_read env) incoming \<and> realloc_keeps (env_realloc env)
     \<and> crc_instruction_ok (crc64_sse42 env) \<and> compress net \<and> use_ob20protocol net \<and> max_packet net \<le> int (length (buff net))
     \<and> incoming (net_io net) = concat (map pk_bytes ks)
     \<and> (\<exists>p. ob20protocol net = Some p \<and> ob_list p = None \<and> pks_ok p ks \<and> fold pk_next ks p = fin)"

lemma length_pk_content [simp]: "length (pk_content k) = length (pk_body k) + 28"
  by (simp add: pk_content_def)

lemma net_bytes_word:
  fixes nr :: byte
  assumes "n < 2 ^ 24"
  shows "net_bytes (ucast (word_of_int (int n) :: 32 word)) (ucast (ucast nr + 1 - 1 :: 32 word)) 0 = net_bytes (of_nat n) nr 0"
proof -
  have "ucast (word_of_nat n :: 32 word) = (of_nat n :: 64 word)"
    using assms by (simp add: ucast_eq unsigned_of_nat take_bit_nat_eq_self)
  moreover have "ucast (ucast nr :: 32 word) = nr" by (rule bit_word_eqI) (simp add: bit_simps)
  ultimately show ?thesis by simp
qed

lemma ob20_fetch:
  fixes net :: "'s NET"
  assumes rd: "ob20_ready env incoming fin net (k # ks)" and bl: "0 \<le> bl" "bl + 7 \<le> int (length (buff net))"
    and lim: "bl + int (length (pk_content k)) < max_packet_size net"
  shows "\<exists>net'. net_fetch env net (bl, 0, 0, False) = Some (Again (bl + int (length (pk_payload k)), 0, 0, False), net')
        \<and> ob20_ready env incoming fin net' ks \<and> take (nat bl) (buff net') = take (nat bl) (buff net)
        \<and> holds_at (buff net') bl (pk_payload k)
        \<and> bl + int (length (pk_payload k)) + 7 \<le> int (length (buff net')) \<and> max_packet_size net' = max_packet_size net"
proof -
  note r = rd [unfolded ob20_ready_def]
  from r obtain p where p: "ob20protocol net = Some p" "ob_list p = None" "pk_ok p k" "pks_ok (pk_next k p) ks"
      "fold pk_next ks (pk_next k p) = fin" by auto
  let ?n = "net\<lparr>where_b := bl\<rparr>" and ?xs = "pk_content k" and ?nr = "pk_nr k"
  have len: "length ?xs < 2 ^ 24" "?xs \<noteq> []" using p(3) by (simp add: pk_ok_def) (auto simp: pk_content_def header_bytes_def)
  obtain b s q wp where rr: "ma_real_read env ?n = Some (int (length ?xs), int 0,
        ?n\<lparr>buff := b, net_io := s, pkt_nr := ucast ?nr + 1, compress_pkt_nr := ucast ?nr + 1, reading_or_writing := 0,
          max_packet := q, write_pos := wp\<rparr>)"
    "incoming s = concat (map pk_bytes ks)" "take (nat (where_b ?n)) b = take (nat (where_b ?n)) (buff ?n)"
    "holds_at b (where_b ?n) ?xs"
    "length b = length (buff ?n) \<and> q = max_packet ?n \<and> max (int (length ?xs)) (int 0) + where_b ?n < q
       \<or> max_packet ?n \<le> max (int (length ?xs)) (int 0) + where_b ?n \<and> int (length b) = q + 7 \<and> max (int (length ?xs)) (int 0) + where_b ?n \<le> q"
    by (rule real_read_gets [of env incoming ?n ?xs ?nr "le_bytes 3 (of_nat 0 :: 64 word)" "concat (map pk_bytes ks)" 0])
      (use r bl lim len in \<open>simp_all add: pk_bytes_def\<close>)
  let ?m = "?n\<lparr>buff := b, net_io := s, pkt_nr := ucast ?nr + 1, compress_pkt_nr := ucast ?nr + 1, reading_or_writing := 0,
          max_packet := q, write_pos := wp\<rparr>"
  note k = p(3) [unfolded pk_ok_def]
  have crc: "crc_instruction_ok (crc64_sse42 env)" and m: "ob20protocol ?m = Some p" using r p(1) by simp_all
  have h: "holds_at (buff ?m) (where_b ?m) (header_bytes (pk_header k) @ le_bytes 2 (header_checksum (pk_header k)) @ pk_body k
        @ le_bytes 4 (ucast (crc32_ref (pk_body k) 0) :: 32 word))"
    using rr(4) by (simp add: pk_content_def)
  have chk: "header_checksum (pk_header k) = crc16_ref (net_bytes (ucast (word_of_int (int (length ?xs)) :: 32 word))
      (ucast (pkt_nr ?m - 1)) 0 @ header_bytes (pk_header k)) 0"
  proof -
    have "pkt_nr ?m = ucast ?nr + 1" by simp
    then show ?thesis using k net_bytes_word [OF len(1), of ?nr] by metis
  qed
  have body: "length (pk_body k) < 2 ^ 31" using len(1) by simp
  obtain b' where u: "ob20_unframe env ?m (int (length ?xs)) = Some (Some (int (length (pk_payload k))), ?m\<lparr>buff := b',
      ob20protocol := Some (pk_next k p)\<rparr>)"
    "holds_at b' (where_b ?m) (pk_payload k)" "length b' = length (buff ?m)"
    "take (nat (where_b ?m)) b' = take (nat (where_b ?m)) (buff ?m)"
    unfolding pk_next_def
    by (rule unframe_ok [OF crc m p(2) h _ chk pk_body_def _ body]) (use k in blast)+
  let ?net = "?m\<lparr>buff := b', ob20protocol := Some (pk_next k p)\<rparr>"
  have "int (length ?xs) \<noteq> packet_error" using len(1) by simp
  then have "net_fetch env net (bl, 0, 0, False) = Some (Again (bl + int (length (pk_payload k)), 0, 0, False), ?net)"
    using rr(1) u(1) r by (simp add: net_fetch.simps del: length_pk_content)
  moreover have "q \<le> int (length b)" using rr(5) r by auto
  then have "ob20_ready env incoming fin ?net ks"
    using r p(2,4,5) rr(2) u(3) by (simp add: ob20_ready_def pk_next_def)
  moreover have "take (nat bl) b' = take (nat bl) (buff net)" "holds_at b' bl (pk_payload k)" using u(2,4) rr(3) by simp_all
  moreover have "bl + int (length (pk_payload k)) + 7 \<le> int (length b')"
    using u(3) rr(5) r by (auto simp: pk_body_def)
  ultimately show ?thesis by (intro exI [of _ ?net]) (simp del: length_pk_content)
qed

interpretation ob20: envelope env "ob20_ready env incoming fin" pk_payload "\<lambda>k. int (length (pk_content k))" for env incoming fin
proof
  show "\<exists>net'. net_fetch env net (bl, 0, 0, False) = Some (Again (bl + int (length (pk_payload k)), 0, 0, False), net')
        \<and> ob20_ready env incoming fin net' ks \<and> take (nat bl) (buff net') = take (nat bl) (buff net)
        \<and> holds_at (buff net') bl (pk_payload k)
        \<and> bl + int (length (pk_payload k)) + 7 \<le> int (length (buff net')) \<and> max_packet_size net' = max_packet_size net"
    if "ob20_ready env incoming fin net (k # ks)" "0 \<le> bl" "bl + 7 \<le> int (length (buff net))"
      "bl + int (length (pk_content k)) < max_packet_size net" for net k ks bl
    by (rule ob20_fetch [OF that])
qed (simp_all add: ob20_ready_def pk_body_def)


text \<open>Two packets that carry one message, cut inside its header.\<close>

definition peer_header :: "byte \<Rightarrow> byte \<Rightarrow> mem \<Rightarrow> Ob20ProtocolHeader" where
  "peer_header seq nr body = (let h = \<lparr>magic_num = 0x20AB, version = 20, connection_id = 5, request_id = 7, pkt_seq = seq,
       payload_len = word_of_nat (length body), flags = 0, reserved = 0, header_checksum = 0\<rparr>
     in h\<lparr>header_checksum := crc16_ref (net_bytes (of_nat (length body + 28)) nr 0 @ header_bytes h) 0\<rparr>)"

definition peer_packet :: "byte \<Rightarrow> mem \<Rightarrow> ob20_packet" where
  "peer_packet seq bs = \<lparr>pk_header = peer_header seq seq bs, pk_nr = seq, pk_extra = NoExtra, pk_payload = bs\<rparr>"

lemma peer_packet_ok:
  assumes "length bs < 1000" and "magic_num (ob_header p) = 0x20AB" "version (ob_header p) = 20" "connection_id (ob_header p) = 5"
    and "request_id (ob_header p) = 7" "pkt_seq (ob_header p) = seq - 1"
  shows "pk_ok p (peer_packet seq bs)"
  using assms by (simp add: pk_ok_def in_step_def peer_packet_def peer_header_def pk_body_def Let_def header_bytes_def take_bit_eq_mod)

definition ob20_net :: "mem \<Rightarrow> mem NET" where
  "ob20_net s = (pipe_net s)\<lparr>compress := True, use_ob20protocol := True, ob20protocol := Some (ob20_zero 7 5)\<rparr>"


text \<open>
  Compressed packets.  \<open>zp_len\<close> is the length field of the header: zero when the data is not compressed; otherwise
  zlib gives the payload, which is not longer than announced.
\<close>

record z_packet =
  zp_nr :: byte
  zp_len :: nat
  zp_data :: mem
  zp_payload :: mem

definition zp_bytes :: "z_packet \<Rightarrow> mem" where
  "zp_bytes k = net_header (int (length (zp_data k))) (zp_nr k) @ le_bytes 3 (of_nat (zp_len k) :: 64 word) @ zp_data k"

definition zp_ok :: "'s net_env \<Rightarrow> z_packet \<Rightarrow> bool" where
  "zp_ok env k \<longleftrightarrow> zp_data k \<noteq> [] \<and> length (zp_data k) < 2 ^ 24 \<and> zp_len k < 2 ^ 24 \<and>
     (if zp_len k = 0 then zp_payload k = zp_data k
      else env_malloc env (int (zp_len k)) \<noteq> None \<and> z_uncompress env (zp_data k) (int (zp_len k)) = Some (zp_payload k)
        \<and> length (zp_payload k) \<le> zp_len k)"

definition zp_room :: "z_packet \<Rightarrow> int" where
  "zp_room k = max (max (int (length (zp_data k))) (int (zp_len k))) (int (length (zp_payload k)))"

definition z_ready :: "'s net_env \<Rightarrow> ('s \<Rightarrow> mem) \<Rightarrow> 's NET \<Rightarrow> z_packet list \<Rightarrow> bool" where
  "z_ready env incoming net ks \<longleftrightarrow> reliable_read (pvio_read env) incoming \<and> realloc_keeps (env_realloc env)
     \<and> compress net \<and> \<not> use_ob20protocol net \<and> max_packet net + 7 \<le> int (length (buff net))
     \<and> incoming (net_io net) = concat (map zp_bytes ks) \<and> list_all (zp_ok env) ks"

lemma mariadb_uncompress_ok:
  assumes "zp_ok env k"
  shows "mariadb_uncompress env (zp_data k) (int (zp_len k)) = Some (zp_payload k, int (length (zp_payload k)))"
    and "int (length (zp_payload k)) \<le> max (int (length (zp_data k))) (int (zp_len k))"
  using assms by (auto simp: zp_ok_def mariadb_uncompress_def split: if_splits)

lemma z_fetch:
  fixes net :: "'s NET"
  assumes rd: "z_ready env incoming net (k # ks)" and bl: "0 \<le> bl" "bl + 7 \<le> int (length (buff net))"
    and lim: "bl + zp_room k < max_packet_size net"
  shows "\<exists>net'. net_fetch env net (bl, 0, 0, False) = Some (Again (bl + int (length (zp_payload k)), 0, 0, False), net')
        \<and> z_ready env incoming net' ks \<and> take (nat bl) (buff net') = take (nat bl) (buff net)
        \<and> holds_at (buff net') bl (zp_payload k)
        \<and> bl + int (length (zp_payload k)) + 7 \<le> int (length (buff net')) \<and> max_packet_size net' = max_packet_size net"
proof -
  note r = rd [unfolded z_ready_def]
  have ok: "zp_ok env k" using r by simp
  note k = ok [unfolded zp_ok_def] and un = mariadb_uncompress_ok [OF ok]
  let ?n = "net\<lparr>where_b := bl\<rparr>" and ?xs = "zp_data k" and ?nr = "zp_nr k"
  obtain b s q wp where rr: "ma_real_read env ?n = Some (int (length ?xs), int (zp_len k),
        ?n\<lparr>buff := b, net_io := s, pkt_nr := ucast ?nr + 1, compress_pkt_nr := ucast ?nr + 1, reading_or_writing := 0,
          max_packet := q, write_pos := wp\<rparr>)"
    "incoming s = concat (map zp_bytes ks)" "take (nat (where_b ?n)) b = take (nat (where_b ?n)) (buff ?n)"
    "holds_at b (where_b ?n) ?xs"
    "length b = length (buff ?n) \<and> q = max_packet ?n \<and> max (int (length ?xs)) (int (zp_len k)) + where_b ?n < q
       \<or> max_packet ?n \<le> max (int (length ?xs)) (int (zp_len k)) + where_b ?n \<and> int (length b) = q + 7 \<and> max (int (length ?xs)) (int (zp_len k)) + where_b ?n \<le> q"
    by (rule real_read_gets [of env incoming ?n ?xs ?nr "le_bytes 3 (of_nat (zp_len k) :: 64 word)" "concat (map zp_bytes ks)" "zp_len k"])
      (use r bl lim k in \<open>simp_all add: zp_bytes_def zp_room_def\<close>)
  let ?m = "?n\<lparr>buff := b, net_io := s, pkt_nr := ucast ?nr + 1, compress_pkt_nr := ucast ?nr + 1, reading_or_writing := 0,
          max_packet := q, write_pos := wp\<rparr>" and ?pl = "zp_payload k"
  have cap: "max (int (length ?xs)) (int (zp_len k)) + bl + 7 \<le> int (length b)" "q + 7 \<le> int (length b)" using rr(5) r by auto
  then have fit: "nat bl + length ?pl \<le> length b" using un(2) bl(1) by linarith
  have "load_bytes b bl (length ?xs) = Some ?xs" using rr(4) by (simp add: holds_at_def)
  moreover have "store_bytes b bl ?pl = Some (put b bl ?pl)" using fit bl(1) by (simp add: store_bytes_def)
  ultimately have u: "net_uncompress env ?m (int (length ?xs)) (int (zp_len k)) =
      Some (Some (int (length ?pl)), ?m\<lparr>buff := put b bl ?pl\<rparr>)"
    using un(1) by (simp add: net_uncompress_def)
  let ?net = "?m\<lparr>buff := put b bl ?pl\<rparr>"
  have "int (length ?xs) \<noteq> packet_error" using k by simp
  then have "net_fetch env net (bl, 0, 0, False) = Some (Again (bl + int (length ?pl), 0, 0, False), ?net)"
    using rr(1) u r by (simp add: net_fetch.simps)
  moreover have lb: "length (put b bl ?pl) = length b" using bl(1) fit by (rule length_put)
  then have "z_ready env incoming ?net ks" using r rr(2) cap(2) by (simp add: z_ready_def)
  moreover have "take (nat bl) (put b bl ?pl) = take (nat bl) (buff net)" "holds_at (put b bl ?pl) bl ?pl"
    using rr(3) bl(1) fit by (simp_all add: put_take_before holds_at_put)
  moreover have "bl + int (length ?pl) + 7 \<le> int (length (put b bl ?pl))" using lb cap(1) un(2) by linarith
  ultimately show ?thesis by (intro exI [of _ ?net]) simp
qed

interpretation zlib: envelope env "z_ready env incoming" zp_payload zp_room for env incoming
proof
  show "\<exists>net'. net_fetch env net (bl, 0, 0, False) = Some (Again (bl + int (length (zp_payload k)), 0, 0, False), net')
        \<and> z_ready env incoming net' ks \<and> take (nat bl) (buff net') = take (nat bl) (buff net)
        \<and> holds_at (buff net') bl (zp_payload k)
        \<and> bl + int (length (zp_payload k)) + 7 \<le> int (length (buff net')) \<and> max_packet_size net' = max_packet_size net"
    if "z_ready env incoming net (k # ks)" "0 \<le> bl" "bl + 7 \<le> int (length (buff net))"
      "bl + zp_room k < max_packet_size net" for net k ks bl
    by (rule z_fetch [OF that])
qed (simp_all add: z_ready_def zp_room_def)



subsection \<open>Errors of the compressed protocol\<close>

lemma read_loop_overflow:
  assumes r: "reliable_read rd incoming"
  shows "0 \<le> pos \<Longrightarrow> 0 < remain \<Longrightarrow> pos + remain > int (length b) \<Longrightarrow> remain \<le> int (length (incoming s)) \<Longrightarrow> pos \<le> int (length b) \<Longrightarrow>
    read_loop rd s b pos remain = None"
proof (induction "nat remain" arbitrary: remain s b pos rule: less_induct)
  case less
  obtain n bs s1 where rd: "rd s remain = (n, bs, s1)" by (cases "rd s remain") auto
  have "incoming s \<noteq> []" using less.prems by auto
  with r rd less.prems(2) have n: "0 < n" "n \<le> remain" "int (length bs) = n" "incoming s = bs @ incoming s1"
    unfolding reliable_read_def by blast+
  show ?case
  proof (cases "pos + n \<le> int (length b)")
    case False
    then have "store_bytes b pos bs = None" using n(3) less.prems(1) by (auto simp: store_bytes_def)
    then show ?thesis using rd n less.prems by (subst read_loop.simps) simp
  next
    case True
    then have fit: "nat pos + length bs \<le> length b" using n(3) less.prems(1) by linarith
    have st: "store_bytes b pos bs = Some (put b pos bs)" using fit less.prems(1) by (simp add: store_bytes_def)
    have l: "length (put b pos bs) = length b" using less.prems(1) fit by (rule length_put)
    have "read_loop rd s1 (put b pos bs) (pos + n) (remain - n) = None"
      by (rule less.hyps) (use less.prems n True l in auto)
    then show ?thesis using rd n st less.prems by (subst read_loop.simps) simp
  qed
qed

text \<open>C38: when \<^verbatim>\<open>_mariadb_uncompress\<close> fails on the first packet of an empty buffer (damaged data, or no memory), \<^verbatim>\<open>ma_net_read\<close>
  sets the error of the connection but does not return \<^verbatim>\<open>packet_error\<close>: the \<^verbatim>\<open>return\<close> stands behind a \<^verbatim>\<open>break\<close>, and
  the length returned is \<open>2 ^ 64 - 4\<close>.\<close>

theorem uncompress_error_returns_length:
  fixes net :: "'s NET"
  assumes "reliable_read (pvio_read env) incoming" and "realloc_keeps (env_realloc env)"
    and "compress net" and "\<not> use_ob20protocol net" and "remain_in_buf net = 0"
    and "7 \<le> length (buff net)" and "max_packet net \<le> int (length (buff net))"
    and "incoming (net_io net) = net_header (int (length ds)) nr @ le_bytes 3 (of_nat c :: 64 word) @ ds @ ys"
    and "ds \<noteq> []" and "length ds < 2 ^ 24" and "0 < c" and "c < 2 ^ 24"
    and "max (int (length ds)) (int c) < max_packet_size net"
    and "env_malloc env (int c) = None \<or> z_uncompress env ds (int c) = None"
  shows "\<exists>net'. ma_net_read env net = Some (2 ^ 64 - 4, net') \<and> net_error net' = 2 \<and> last_errno net' = ER_NET_UNCOMPRESS_ERROR"
proof -
  let ?n = "net\<lparr>buff := buff net, where_b := 0\<rparr>" and ?cs = "le_bytes 3 (of_nat c :: 64 word)"
  obtain b s q wp where rr: "ma_real_read env ?n = Some (int (length ds), int c,
        ?n\<lparr>buff := b, net_io := s, pkt_nr := ucast nr + 1, compress_pkt_nr := ucast nr + 1, reading_or_writing := 0,
          max_packet := q, write_pos := wp\<rparr>)"
    "holds_at b (where_b ?n) ds" "length b = length (buff ?n) \<and> q = max_packet ?n \<and> max (int (length ds)) (int c) + where_b ?n < q
       \<or> max_packet ?n \<le> max (int (length ds)) (int c) + where_b ?n \<and> int (length b) = q + 7 \<and> max (int (length ds)) (int c) + where_b ?n \<le> q"
    by (rule real_read_gets [of env incoming ?n ds nr ?cs ys c]) (use assms in simp_all)
  let ?m = "?n\<lparr>buff := b, net_io := s, pkt_nr := ucast nr + 1, compress_pkt_nr := ucast nr + 1, reading_or_writing := 0,
          max_packet := q, write_pos := wp\<rparr>"
  have ld: "load_bytes b 0 (length ds) = Some ds" using rr(2) by (simp add: holds_at_def)
  have "mariadb_uncompress env ds (int c) = None"
    using assms(11,14) by (auto simp: mariadb_uncompress_def split: option.split)
  then have u: "net_uncompress env ?m (int (length ds)) (int c) = Some (None, ?m\<lparr>net_error := 2, last_errno := ER_NET_UNCOMPRESS_ERROR\<rparr>)"
    using ld by (simp add: net_uncompress_def)
  let ?e = "?m\<lparr>net_error := 2, last_errno := ER_NET_UNCOMPRESS_ERROR\<rparr>"
  have "int (length ds) \<noteq> packet_error" using assms(10) by simp
  then have "net_read_step env net (0, 0, 0, False) = Some (Break (0, 0, 0, False), ?e)"
    using rr(1) u assms(4) by (simp add: net_read_step_def net_scan.simps net_fetch.simps)
  then have "net_read_loop env net (0, 0, 0, False) = Some (Break (0, 0, 0, False), ?e)"
    by (subst net_read_loop.simps) simp
  moreover have "b \<noteq> []" using rr(3) assms(6) by auto
  moreover have "to_uint64 (- 4) = 2 ^ 64 - 4" "to_uint64 (2 ^ 64) = 0" by (simp_all add: to_uint64_def)
  ultimately show ?thesis
    using assms(3,5) by (simp add: ma_net_read_def net_read_compressed_def load_byte_def store_byte_def Let_def)
qed

theorem uncompress_error_returns_length_witness:
  "\<exists>net'. ma_net_read (pipe_env\<lparr>z_uncompress := \<lambda>m n. None\<rparr>)
      ((pipe_net [2, 0, 0, 0, 9, 0, 0, 1, 2])\<lparr>compress := True\<rparr>) = Some (2 ^ 64 - 4, net')"
proof -
  let ?env = "pipe_env\<lparr>z_uncompress := \<lambda>m n. None\<rparr>"
  have r: "reliable_read (pvio_read ?env) id" "realloc_keeps (env_realloc ?env)" using pipe_reliable(2,3) by simp_all
  show ?thesis
    using uncompress_error_returns_length [OF r, of "(pipe_net [2, 0, 0, 0, 9, 0, 0, 1, 2])\<lparr>compress := True\<rparr>" "[1, 2]" 0 9 "[]"]
    by (auto simp: pipe_net_def net_header_def le_bytes_eval)
qed



end
