(* ===== verification/ObCapability.thy ===== *)
theory ObCapability
  imports Prelude
begin

unbundle bit_operations_syntax

section \<open>What a connection may use (libmariadb/mariadb_stmt.c)\<close>

text \<open>
  The switches of a connection: for every feature a function decides from an environment variable and, for some,
  from the mode and the version of the server whether it may be used, and stores the decision in the connection;
  another function reads the decision or the capability bits the server has granted.  \<^verbatim>\<open>MYSQL_caps\<close> has the members of \<^verbatim>\<open>MYSQL\<close>
  that these functions use; it is extended where more of the structure is needed.  A null connection is \<open>None\<close>.
  The environment is a parameter.
\<close>

record MYSQL_caps =
  oracle_mode :: bool
  server_status :: "32 word"
  can_use_prepare_execute :: bool
  can_send_plarray_maxrarr_len :: bool
  can_plarray_bindbyname :: bool
  can_use_protocol_ob20 :: bool
  can_use_full_link_trace :: bool
  can_use_ob_client_lob_locatorv2 :: bool
  can_use_flt_show_trace :: bool
  can_use_load_infiles :: bool
  ob_server_version :: "64 word"
  capability :: "64 word"

text \<open>\<^verbatim>\<open>atoi\<close>: white space, a sign, decimal digits; a value that is no \<^verbatim>\<open>int\<close> is undefined.\<close>

definition is_digit :: "byte \<Rightarrow> bool" where
  "is_digit c \<longleftrightarrow> 48 \<le> c \<and> c \<le> 57"

definition is_white :: "byte \<Rightarrow> bool" where
  "is_white c \<longleftrightarrow> c = 32 \<or> 9 \<le> c \<and> c \<le> 13"

fun digits_value :: "int \<Rightarrow> mem \<Rightarrow> int" where
  "digits_value acc (c # cs) = (if is_digit c then digits_value (10 * acc + (uint c - 48)) cs else acc)"
| "digits_value acc [] = acc"

definition c_atoi :: "mem \<Rightarrow> int option" where
  "c_atoi s = (let s = dropWhile is_white s;
       v = (if s \<noteq> [] \<and> hd s = 45 then - digits_value 0 (tl s)
            else if s \<noteq> [] \<and> hd s = 43 then digits_value 0 (tl s) else digits_value 0 s)
     in if - (2 ^ 31) \<le> v \<and> v < 2 ^ 31 then Some v else None)"

text \<open>
  The common beginning of the functions: the value of the variable when it is one of the three flags
  \<^verbatim>\<open>..._FORCE_CLOSE\<close> (0), \<^verbatim>\<open>..._AUTO_OPEN\<close> (1), \<^verbatim>\<open>..._FORCE_OPEN\<close> (2), otherwise \<^verbatim>\<open>..._AUTO_OPEN\<close>.
\<close>

datatype switch = FORCE_CLOSE | AUTO_OPEN | FORCE_OPEN

definition env_switch :: "mem option \<Rightarrow> switch option" where
  "env_switch env = (case env of
     None \<Rightarrow> Some AUTO_OPEN
   | Some s \<Rightarrow> do {
       v \<leftarrow> c_atoi s;
       Some (if v = 0 then FORCE_CLOSE else if v = 2 then FORCE_OPEN else AUTO_OPEN) })"

text \<open>
  The decision by version, for \<^verbatim>\<open>determine_send_plarray_maxrarr_len\<close>, \<^verbatim>\<open>determine_plarray_bindbyname\<close> and
  \<^verbatim>\<open>determine_use_prepare_execute\<close>.
\<close>

definition by_version :: "switch \<Rightarrow> 64 word \<Rightarrow> 'a MYSQL_caps_scheme option \<Rightarrow> bool" where
  "by_version sw ver mysql = (case sw of
     FORCE_OPEN \<Rightarrow> True
   | FORCE_CLOSE \<Rightarrow> False
   | AUTO_OPEN \<Rightarrow> (case mysql of None \<Rightarrow> False | Some m \<Rightarrow> oracle_mode m \<and> ob_server_version m \<ge> ver))"

definition determine_send_plarray_maxrarr_len :: "mem option \<Rightarrow> 'a MYSQL_caps_scheme option \<Rightarrow> (bool \<times> 'a MYSQL_caps_scheme option) option" where
  "determine_send_plarray_maxrarr_len env mysql = do {
     sw \<leftarrow> env_switch env;
     let bret = by_version sw 30201 mysql;
     Some (bret, map_option (\<lambda>m. m\<lparr>can_send_plarray_maxrarr_len := bret\<rparr>) mysql) }"

definition get_support_send_plarray_maxrarr_len :: "'a MYSQL_caps_scheme option \<Rightarrow> bool" where
  "get_support_send_plarray_maxrarr_len mysql = (case mysql of None \<Rightarrow> False | Some m \<Rightarrow> can_send_plarray_maxrarr_len m)"

definition determine_plarray_bindbyname :: "mem option \<Rightarrow> 'a MYSQL_caps_scheme option \<Rightarrow> (bool \<times> 'a MYSQL_caps_scheme option) option" where
  "determine_plarray_bindbyname env mysql = do {
     sw \<leftarrow> env_switch env;
     let bret = by_version sw 20207 mysql;
     Some (bret, map_option (\<lambda>m. m\<lparr>can_plarray_bindbyname := bret\<rparr>) mysql) }"

definition get_support_plarray_bindbyname :: "'a MYSQL_caps_scheme option \<Rightarrow> bool" where
  "get_support_plarray_bindbyname mysql = (case mysql of None \<Rightarrow> False | Some m \<Rightarrow> can_plarray_bindbyname m)"

definition determine_protocol_ob20 :: "mem option \<Rightarrow> 'a MYSQL_caps_scheme option \<Rightarrow> (bool \<times> 'a MYSQL_caps_scheme option) option" where
  "determine_protocol_ob20 env mysql = do {
     sw \<leftarrow> env_switch env;
     let bret = (sw \<noteq> FORCE_CLOSE);
     Some (bret, map_option (\<lambda>m. m\<lparr>can_use_protocol_ob20 := bret\<rparr>) mysql) }"

definition OBCLIENT_CAP_OB_PROTOCOL_V2 :: "64 word" where
  "OBCLIENT_CAP_OB_PROTOCOL_V2 = push_bit 8 1"

definition OBCLIENT_CAP_FULL_LINK_TRACE :: "64 word" where
  "OBCLIENT_CAP_FULL_LINK_TRACE = push_bit 14 1"

definition OBCLIENT_CAP_PROXY_NEW_EXTRA_INFO :: "64 word" where
  "OBCLIENT_CAP_PROXY_NEW_EXTRA_INFO = push_bit 15 1"

definition OBCLIENT_CAP_PROXY_FULL_LINK_TRACE_SHOW_TRACE :: "64 word" where
  "OBCLIENT_CAP_PROXY_FULL_LINK_TRACE_SHOW_TRACE = push_bit 18 1"

definition OBPROXY_DEFAULT_CAPABILITY_FLAG :: "64 word" where
  "OBPROXY_DEFAULT_CAPABILITY_FLAG = OBCLIENT_CAP_OB_PROTOCOL_V2 OR OBCLIENT_CAP_FULL_LINK_TRACE
     OR OBCLIENT_CAP_PROXY_NEW_EXTRA_INFO OR OBCLIENT_CAP_PROXY_FULL_LINK_TRACE_SHOW_TRACE"

definition get_use_protocol_ob20 :: "'a MYSQL_caps_scheme option \<Rightarrow> bool" where
  "get_use_protocol_ob20 mysql = (case mysql of
     None \<Rightarrow> False | Some m \<Rightarrow> capability m AND OBCLIENT_CAP_OB_PROTOCOL_V2 \<noteq> 0)"

definition determine_full_link_trace :: "mem option \<Rightarrow> 'a MYSQL_caps_scheme option \<Rightarrow> (bool \<times> 'a MYSQL_caps_scheme option) option" where
  "determine_full_link_trace env mysql = do {
     sw \<leftarrow> env_switch env;
     let bret = (sw \<noteq> FORCE_CLOSE);
     Some (bret, map_option (\<lambda>m. m\<lparr>can_use_full_link_trace := bret\<rparr>) mysql) }"

definition get_use_full_link_trace :: "'a MYSQL_caps_scheme option \<Rightarrow> bool" where
  "get_use_full_link_trace mysql = (case mysql of
     None \<Rightarrow> False
   | Some m \<Rightarrow> if capability m AND OBCLIENT_CAP_FULL_LINK_TRACE \<noteq> 0
               then capability m AND OBCLIENT_CAP_PROXY_NEW_EXTRA_INFO \<noteq> 0
               else False)"

definition determine_flt_show_trace :: "mem option \<Rightarrow> 'a MYSQL_caps_scheme option \<Rightarrow> (bool \<times> 'a MYSQL_caps_scheme option) option" where
  "determine_flt_show_trace env mysql = do {
     sw \<leftarrow> env_switch env;
     let bret = (sw \<noteq> FORCE_CLOSE);
     Some (bret, map_option (\<lambda>m. m\<lparr>can_use_flt_show_trace := bret\<rparr>) mysql) }"

definition get_use_flt_show_trace :: "'a MYSQL_caps_scheme option \<Rightarrow> bool" where
  "get_use_flt_show_trace mysql = (case mysql of
     None \<Rightarrow> False
   | Some m \<Rightarrow> if capability m AND OBCLIENT_CAP_FULL_LINK_TRACE \<noteq> 0 \<and> capability m AND OBCLIENT_CAP_PROXY_NEW_EXTRA_INFO \<noteq> 0
               then capability m AND OBCLIENT_CAP_PROXY_FULL_LINK_TRACE_SHOW_TRACE \<noteq> 0
               else False)"

definition determine_ob_client_lob_locatorv2 :: "mem option \<Rightarrow> 'a MYSQL_caps_scheme option \<Rightarrow> (bool \<times> 'a MYSQL_caps_scheme option) option" where
  "determine_ob_client_lob_locatorv2 env mysql = do {
     sw \<leftarrow> env_switch env;
     let bret = (sw \<noteq> FORCE_CLOSE);
     Some (bret, map_option (\<lambda>m. m\<lparr>can_use_ob_client_lob_locatorv2 := bret\<rparr>) mysql) }"

definition get_use_ob_client_lob_locatorv2 :: "'a MYSQL_caps_scheme option \<Rightarrow> bool" where
  "get_use_ob_client_lob_locatorv2 mysql = (case mysql of None \<Rightarrow> False | Some m \<Rightarrow> can_use_ob_client_lob_locatorv2 m)"

definition determine_load_infiles :: "mem option \<Rightarrow> 'a MYSQL_caps_scheme option \<Rightarrow> (bool \<times> 'a MYSQL_caps_scheme option) option" where
  "determine_load_infiles env mysql = do {
     sw \<leftarrow> env_switch env;
     let bret = (sw \<noteq> FORCE_CLOSE);
     Some (bret, map_option (\<lambda>m. m\<lparr>can_use_load_infiles := bret\<rparr>) mysql) }"

definition get_use_load_infiles :: "'a MYSQL_caps_scheme option \<Rightarrow> bool" where
  "get_use_load_infiles mysql = (case mysql of None \<Rightarrow> False | Some m \<Rightarrow> can_use_load_infiles m)"

definition determine_use_prepare_execute :: "mem option \<Rightarrow> 'a MYSQL_caps_scheme option \<Rightarrow> (bool \<times> 'a MYSQL_caps_scheme option) option" where
  "determine_use_prepare_execute env mysql = do {
     sw \<leftarrow> env_switch env;
     let bret = by_version sw 20276 mysql;
     Some (bret, map_option (\<lambda>m. m\<lparr>can_use_prepare_execute := bret\<rparr>) mysql) }"

definition get_use_prepare_execute :: "'a MYSQL_caps_scheme option \<Rightarrow> bool" where
  "get_use_prepare_execute mysql = (case mysql of None \<Rightarrow> False | Some m \<Rightarrow> can_use_prepare_execute m)"

definition get_use_preapre_execute :: "'a MYSQL_caps_scheme option \<Rightarrow> bool" where
  "get_use_preapre_execute mysql = (case mysql of None \<Rightarrow> False | Some m \<Rightarrow> can_use_prepare_execute m)"

definition get_support_send_fetch_flag :: "'a MYSQL_caps_scheme option \<Rightarrow> bool" where
  "get_support_send_fetch_flag mysql = (case mysql of
     None \<Rightarrow> False | Some m \<Rightarrow> oracle_mode m \<and> ob_server_version m \<ge> 20276)"

subsection \<open>Facts\<close>

lemma and_push_bit_one: "(w AND push_bit n 1 = (0 :: 'a::len word)) \<longleftrightarrow> \<not> (bit w n \<and> n < LENGTH('a))"
proof -
  have "w AND push_bit n 1 = (0 :: 'a word) \<longleftrightarrow> (\<forall>i < LENGTH('a). bit w i \<longrightarrow> i \<noteq> n)"
    by (auto simp: bit_eq_iff bit_simps)
  then show ?thesis by auto
qed

lemma cap_bits:
  "w AND OBCLIENT_CAP_OB_PROTOCOL_V2 = 0 \<longleftrightarrow> \<not> bit w 8"
  "w AND OBCLIENT_CAP_FULL_LINK_TRACE = 0 \<longleftrightarrow> \<not> bit w 14"
  "w AND OBCLIENT_CAP_PROXY_NEW_EXTRA_INFO = 0 \<longleftrightarrow> \<not> bit w 15"
  "w AND OBCLIENT_CAP_PROXY_FULL_LINK_TRACE_SHOW_TRACE = 0 \<longleftrightarrow> \<not> bit w 18"
  unfolding OBCLIENT_CAP_OB_PROTOCOL_V2_def OBCLIENT_CAP_FULL_LINK_TRACE_def OBCLIENT_CAP_PROXY_NEW_EXTRA_INFO_def
    OBCLIENT_CAP_PROXY_FULL_LINK_TRACE_SHOW_TRACE_def and_push_bit_one by simp_all

text \<open>Which of the protocol features are in use is a matter of four bits; each level needs the one below it.\<close>

lemma capability_bits:
  "get_use_protocol_ob20 (Some m) \<longleftrightarrow> bit (capability m) 8"
  "get_use_full_link_trace (Some m) \<longleftrightarrow> bit (capability m) 14 \<and> bit (capability m) 15"
  "get_use_flt_show_trace (Some m) \<longleftrightarrow> bit (capability m) 14 \<and> bit (capability m) 15 \<and> bit (capability m) 18"
  by (auto simp: get_use_protocol_ob20_def get_use_full_link_trace_def get_use_flt_show_trace_def cap_bits)

end
