(* ===== verification/FltRequest.thy ===== *)
theory FltRequest
  imports ObProtocol20 ObCapability
begin

unbundle bit_operations_syntax

section \<open>Trace information of a request (libmariadb/ob_full_link_trace.c)\<close>

text \<open>
  Around every command the client begins and ends a span, and before the command it serialises what it knows into
  the extra information of the OB 2.0 protocol: the identifiers of trace and span, the log of finished spans, the
  log for \<^verbatim>\<open>SHOW TRACE\<close>, and what the application has set.
\<close>

record MYSQL = MYSQL_caps +
  my_ob20protocol :: "Ob20Protocol option"

subsection \<open>\<^verbatim>\<open>flt_build_request\<close>\<close>

text \<open>
  The function is called with the trace information of the connection's own protocol state, so it is modelled as a
  function of that state.  Its steps: the span information, the two logs, the sizes of the four groups, the groups
  themselves, and the reset of what has been sent.  The members \<^verbatim>\<open>trace_id_\<close> and \<^verbatim>\<open>span_id_\<close> of the span information point to
  arrays of \<^verbatim>\<open>FLTInfo\<close>, the two logs to buffers of the trace; the model keeps what they hold at that moment.
\<close>

definition request_span :: "FLTInfo \<Rightarrow> ObTrace \<Rightarrow> (int \<times> FLTInfo) option" where
  "request_span flt trace =
     (if tr_trace_enable trace \<and> tr_last_active trace \<noteq> None then do {
        t \<leftarrow> INIT_SPAN trace (tr_last_active trace);
        a \<leftarrow> tr_last_active t;
        s \<leftarrow> tr_spans t a;
        (ret, buf, _) \<leftarrow> serialize_UUID (Some (fl_trace_id flt)) 16 0 (tr_trace_id t);
        tid \<leftarrow> buf;
        let flt = flt\<lparr>fl_trace_id := tid, fl_trace := Some t\<rparr>;
        if ret \<noteq> OB_SUCCESS then Some (ret, flt)
        else do {
          (ret, buf, _) \<leftarrow> serialize_UUID (Some (fl_span_id flt)) 16 0 (sp_id s);
          sid \<leftarrow> buf;
          let flt = flt\<lparr>fl_span_id := sid\<rparr>;
          if ret \<noteq> OB_SUCCESS then Some (ret, flt)
          else do {
            let flt = flt\<lparr>fl_span_info := (fl_span_info flt)\<lparr>spn_trace_id := Some tid, spn_span_id := Some sid,
                  spn_type := FLT_SPAN_INFO, spn_trace_enable := 1, spn_force_print := if tr_force_print t then 1 else 0\<rparr>\<rparr>;
            t \<leftarrow> (if tr_force_print t then flush_trace t else Some t);
            Some (OB_SUCCESS, flt\<lparr>fl_trace := Some t\<rparr>) } } }
      else Some (OB_SUCCESS, flt\<lparr>fl_span_info := (fl_span_info flt)\<lparr>spn_trace_enable := 0\<rparr>\<rparr>))"

definition request_logs :: "FLTInfo \<Rightarrow> ObTrace \<Rightarrow> FLTInfo option" where
  "request_logs flt trace = do {
     let flt = flt\<lparr>fl_client_span := (fl_client_span flt)\<lparr>
           client_span' := if tr_log_offset trace \<noteq> 0 then Some (tr_log_buf trace) else None\<rparr>\<rparr>;
     if 1 < tr_show_offset trace \<and> tr_show_trace_enable trace then do {
       b \<leftarrow> store_byte (tr_show_buf trace) (int (tr_show_offset trace) - 1) 93;
       Some (flt\<lparr>fl_show_trace_span := (fl_show_trace_span flt)\<lparr>client_span_json' := Some b\<rparr>,
               fl_trace := Some (trace\<lparr>tr_show_buf := b\<rparr>)\<rparr>) }
     else Some (flt\<lparr>fl_show_trace_span := (fl_show_trace_span flt)\<lparr>client_span_json' := None\<rparr>\<rparr>) }"

text \<open>The sizes of application information, client log, span information and show-trace log; \<open>Inl\<close> is an error.\<close>

definition request_sizes :: "FLTInfo \<Rightarrow> (int + 32 word \<times> 32 word \<times> 32 word \<times> 32 word) option" where
  "request_sizes flt = do {
     (ret, app) \<leftarrow> flt_get_serialize_size_extra_info (AppInfo (fl_app_info flt));
     if ret \<noteq> OB_SUCCESS then Some (Inl ret)
     else do {
       (ret, client) \<leftarrow> flt_get_serialize_size_extra_info (DriverSpanInfo (fl_client_span flt));
       if ret \<noteq> OB_SUCCESS then Some (Inl ret)
       else do {
         (ret, span) \<leftarrow> flt_get_serialize_size_extra_info (SpanInfo (fl_span_info flt));
         if ret \<noteq> OB_SUCCESS then Some (Inl ret)
         else do {
           (ret, show_trace) \<leftarrow> flt_get_serialize_size_extra_info (ShowTraceSpan (fl_show_trace_span flt));
           if ret \<noteq> OB_SUCCESS then Some (Inl ret)
           else Some (Inr (app, client, span, show_trace)) } } } }"

text \<open>
  One link of the chain of serialisers: when the announced size is not zero the group is written, and then the
  position must be the sum of the sizes so far.
\<close>

definition request_group :: "bool \<Rightarrow> flt_info \<Rightarrow> int \<Rightarrow> int \<Rightarrow> int \<times> cbuf \<times> int \<Rightarrow> (int \<times> cbuf \<times> int) option" where
  "request_group write info len expected r = (case r of (ret, buf, pos) \<Rightarrow>
     if ret \<noteq> OB_SUCCESS then Some r
     else do {
       (ret, buf, pos) \<leftarrow> (if write then flt_serialize_extra_info buf len pos info else Some (OB_SUCCESS, buf, pos));
       Some (if ret \<noteq> OB_SUCCESS then ret else if pos \<noteq> expected then OB_ERROR else OB_SUCCESS, buf, pos) })"

definition request_groups :: "FLTInfo \<Rightarrow> mem \<Rightarrow> 32 word \<Rightarrow> 32 word \<times> 32 word \<times> 32 word \<times> 32 word \<Rightarrow> (int \<times> cbuf \<times> int) option" where
  "request_groups flt buf len sizes = (case sizes of (app, client, span, show_trace) \<Rightarrow> do {
     r \<leftarrow> request_group True (SpanInfo (fl_span_info flt)) (sint len) (sint span) (OB_SUCCESS, Some buf, 0);
     r \<leftarrow> request_group (client \<noteq> 0) (DriverSpanInfo (fl_client_span flt)) (sint len) (sint (span + client)) r;
     r \<leftarrow> request_group (show_trace \<noteq> 0) (ShowTraceSpan (fl_show_trace_span flt)) (sint len) (sint (span + client + show_trace)) r;
     request_group (app \<noteq> 0) (AppInfo (fl_app_info flt)) (sint len) (sint len) r })"

definition request_reset :: "FLTInfo \<Rightarrow> ObTrace \<Rightarrow> bool \<Rightarrow> FLTInfo option" where
  "request_reset flt trace app_sent = do {
     b \<leftarrow> store_byte (tr_show_buf trace) 0 91;
     let flt = (if app_sent then flt\<lparr>fl_app_info := \<lparr>app_type = FLT_APP_INFO, identifier' = None, module' = None,
                    action' = None, client_info' = None\<rparr>\<rparr> else flt);
     Some (flt\<lparr>fl_trace := Some (trace\<lparr>tr_log_offset := 0, tr_show_buf := b, tr_show_offset := 1\<rparr>),
             fl_client_span := (fl_client_span flt)\<lparr>client_span' := None\<rparr>,
             fl_show_trace_span := (fl_show_trace_span flt)\<lparr>client_span_json' := None\<rparr>\<rparr>) }"

definition request_send ::
  "(Ob20ProtocolExtraInfo heap \<Rightarrow> addr option) \<Rightarrow> Ob20Protocol \<Rightarrow> FLTInfo \<Rightarrow> 32 word
   \<Rightarrow> 32 word \<times> 32 word \<times> 32 word \<times> 32 word \<Rightarrow> (int \<times> Ob20Protocol) option" where
  "request_send malloc p flt ssize sizes =
     (if int MAX_FLT_SERIALIZE_SIZE < sint ssize then Some (OB_ERROR, p\<lparr>ob_flt := Some flt\<rparr>)
      else do {
        trace \<leftarrow> fl_trace flt;
        let flt = flt\<lparr>fl_value_data := \<lparr>value_data' = SerializeBuf, length' = scast ssize\<rparr>\<rparr>;
        (ret, buf, pos) \<leftarrow> request_groups flt (tr_serialize_buf trace) ssize sizes;
        b \<leftarrow> buf;
        let trace = trace\<lparr>tr_serialize_buf := b\<rparr>;
        if ret \<noteq> OB_SUCCESS then Some (ret, p\<lparr>ob_flt := Some (flt\<lparr>fl_trace := Some trace\<rparr>)\<rparr>)
        else do {
          flt \<leftarrow> request_reset flt trace (fst sizes \<noteq> 0);
          ob20_set_extra_info malloc (p\<lparr>ob_flt := Some flt\<rparr>) FULL_TRC FltValueData } })"

definition flt_build_request ::
  "(Ob20ProtocolExtraInfo heap \<Rightarrow> addr option) \<Rightarrow> Ob20Protocol \<Rightarrow> (int \<times> Ob20Protocol) option" where
  "flt_build_request malloc p = do {
     flt \<leftarrow> ob_flt p;
     (case get_trace_instance flt of
        None \<Rightarrow> Some (OB_ERROR, p)
      | Some trace \<Rightarrow> do {
          (ret, flt) \<leftarrow> request_span flt trace;
          if ret \<noteq> OB_SUCCESS then Some (ret, p\<lparr>ob_flt := Some flt\<rparr>)
          else do {
            trace \<leftarrow> fl_trace flt;
            flt \<leftarrow> request_logs flt trace;
            r \<leftarrow> request_sizes flt;
            (case r of
               Inl ret \<Rightarrow> Some (ret, p\<lparr>ob_flt := Some flt\<rparr>)
             | Inr (app, client, span, show_trace) \<Rightarrow>
                 let ssize = app + client + span + show_trace in
                 if ssize = 0 then Some (OB_SUCCESS, p\<lparr>ob_flt := Some flt\<rparr>)
                 else request_send malloc p flt ssize (app, client, span, show_trace)) } }) }"

subsection \<open>Around a command\<close>

text \<open>
  The macros \<^verbatim>\<open>FLT_BEFORE_COMMAND\<close> and \<^verbatim>\<open>FLT_AFTER_COMMAND\<close>.  \<open>local_addr\<close> is what \<^verbatim>\<open>get_local_ip_port\<close> gives, already as the text
  of the tag \<^verbatim>\<open>FLT_TAG_CLIENT_HOST\<close> (1); \<open>junk\<close> is the uninitialised buffer of \<^verbatim>\<open>flush_first_span\<close>.
\<close>

definition upd_trace :: "Ob20Protocol \<Rightarrow> (FLTInfo \<Rightarrow> ObTrace \<Rightarrow> ObTrace option) \<Rightarrow> Ob20Protocol option" where
  "upd_trace p f = do {
     flt \<leftarrow> ob_flt p;
     t \<leftarrow> get_trace_instance flt;
     t \<leftarrow> f flt t;
     Some (p\<lparr>ob_flt := Some (flt\<lparr>fl_trace := Some t\<rparr>)\<rparr>) }"

definition SET_TAG :: "16 word \<Rightarrow> cbuf \<Rightarrow> ObTrace \<Rightarrow> ObTrace option" where
  "SET_TAG ttype v t = (case tr_last_active t of None \<Rightarrow> Some t | Some span \<Rightarrow> append_tag t span ttype v)"

definition new_trace :: "MYSQL \<Rightarrow> FLTInfo \<Rightarrow> bool" where
  "new_trace mysql flt \<longleftrightarrow> flt_show_trace_enable' (fl_control_info flt) = 1 \<or> \<not> bit (server_status mysql) 0"

definition FLT_BEFORE_COMMAND ::
  "(Ob20ProtocolExtraInfo heap \<Rightarrow> addr option) \<Rightarrow> 32 word \<Rightarrow> 16 word \<Rightarrow> cbuf \<Rightarrow> cbuf \<Rightarrow> MYSQL
   \<Rightarrow> (addr option \<times> MYSQL) option" where
  "FLT_BEFORE_COMMAND malloc span_level tag_level tag_text local_addr mysql =
     (case my_ob20protocol mysql of
        Some p \<Rightarrow>
          (case ob_flt p of
             Some flt \<Rightarrow>
               if get_use_full_link_trace (Some mysql) then do {
                 p \<leftarrow> upd_trace p (\<lambda>flt t. if new_trace mysql flt then begin_trace (Some (fl_control_info flt)) t
                        else reset_span (Some (fl_control_info flt)) t);
                 flt \<leftarrow> ob_flt p;
                 t \<leftarrow> get_trace_instance flt;
                 (span, t) \<leftarrow> begin_span t span_level 1 False;
                 t \<leftarrow> SET_TAG tag_level tag_text t;
                 t \<leftarrow> (if local_addr \<noteq> None then SET_TAG 1 local_addr t else Some t);
                 (ret, p) \<leftarrow> flt_build_request malloc (p\<lparr>ob_flt := Some (flt\<lparr>fl_trace := Some t\<rparr>)\<rparr>);
                 Some (span, mysql\<lparr>my_ob20protocol := Some p\<rparr>) }
               else Some (None, mysql)
           | None \<Rightarrow> Some (None, mysql))
      | None \<Rightarrow> Some (None, mysql))"

definition after_flush :: "mem \<Rightarrow> ObTrace \<Rightarrow> ObTrace option" where
  "after_flush junk t =
     (if tr_force_print t then flush_trace t
      else if tr_slow_query_print t then flush_first_span junk (t\<lparr>tr_slow_query_print := False\<rparr>)
      else Some t)"

definition FLT_AFTER_COMMAND :: "mem \<Rightarrow> addr option \<Rightarrow> MYSQL \<Rightarrow> MYSQL option" where
  "FLT_AFTER_COMMAND junk span mysql =
     (case my_ob20protocol mysql of
        Some p \<Rightarrow>
          if get_use_full_link_trace (Some mysql) then do {
            flt \<leftarrow> ob_flt p;
            (case get_trace_instance flt of
               None \<Rightarrow> Some mysql
             | Some t \<Rightarrow> do {
                 t \<leftarrow> end_span (Some (fl_control_info flt)) t span;
                 t \<leftarrow> after_flush junk t;
                 t \<leftarrow> (if new_trace mysql flt then end_trace t else Some t);
                 Some (mysql\<lparr>my_ob20protocol := Some (p\<lparr>ob_flt := Some (flt\<lparr>fl_trace := Some t\<rparr>)\<rparr>)\<rparr>) }) }
          else Some mysql
      | None \<Rightarrow> Some mysql)"

subsection \<open>What the application sets and reads\<close>

text \<open>The common guards of the functions: the trace information of the connection, when it may be used.\<close>

definition flt_of :: "MYSQL option \<Rightarrow> FLTInfo option" where
  "flt_of mysql = (case mysql of
     None \<Rightarrow> None
   | Some m \<Rightarrow>
       if \<not> get_use_full_link_trace (Some m) then None
       else case my_ob20protocol m of None \<Rightarrow> None | Some p \<Rightarrow> ob_flt p)"

definition set_app_info :: "MYSQL option \<Rightarrow> (FLTAppInfo \<Rightarrow> FLTAppInfo) \<Rightarrow> int \<times> MYSQL option" where
  "set_app_info mysql f = (case flt_of mysql of
     None \<Rightarrow> (1, mysql)
   | Some flt \<Rightarrow> (0, map_option (\<lambda>m. m\<lparr>my_ob20protocol :=
       map_option (\<lambda>p. p\<lparr>ob_flt := Some (flt\<lparr>fl_app_info := f (fl_app_info flt)\<rparr>)\<rparr>) (my_ob20protocol m)\<rparr>) mysql))"

definition flt_set_module :: "MYSQL option \<Rightarrow> cbuf \<Rightarrow> int \<times> MYSQL option" where
  "flt_set_module mysql module_name = set_app_info mysql (\<lambda>i. i\<lparr>module' := module_name\<rparr>)"

definition flt_set_action :: "MYSQL option \<Rightarrow> cbuf \<Rightarrow> int \<times> MYSQL option" where
  "flt_set_action mysql action_name = set_app_info mysql (\<lambda>i. i\<lparr>action' := action_name\<rparr>)"

definition flt_set_client_info :: "MYSQL option \<Rightarrow> cbuf \<Rightarrow> int \<times> MYSQL option" where
  "flt_set_client_info mysql client_info = set_app_info mysql (\<lambda>i. i\<lparr>client_info' := client_info\<rparr>)"

definition flt_set_identifier :: "MYSQL option \<Rightarrow> cbuf \<Rightarrow> int \<times> MYSQL option" where
  "flt_set_identifier mysql identifier = set_app_info mysql (\<lambda>i. i\<lparr>identifier' := identifier\<rparr>)"

definition get_control :: "MYSQL option \<Rightarrow> (FLTControlInfo \<Rightarrow> 'v) \<Rightarrow> 'v \<Rightarrow> int \<times> 'v" where
  "get_control mysql f old = (case flt_of mysql of None \<Rightarrow> (1, old) | Some flt \<Rightarrow> (0, f (fl_control_info flt)))"

definition flt_get_control_level :: "MYSQL option \<Rightarrow> 32 word \<Rightarrow> int \<times> 32 word" where
  "flt_get_control_level mysql level = get_control mysql (\<lambda>c. scast (level' c)) level"

definition flt_get_control_sample_pct :: "MYSQL option \<Rightarrow> 64 word \<Rightarrow> int \<times> 64 word" where
  "flt_get_control_sample_pct mysql sample_pct = get_control mysql sample_pct' sample_pct"

definition flt_get_control_record_policy :: "MYSQL option \<Rightarrow> 32 word \<Rightarrow> int \<times> 32 word" where
  "flt_get_control_record_policy mysql rp = get_control mysql rp' rp"

definition flt_get_control_print_spct :: "MYSQL option \<Rightarrow> 64 word \<Rightarrow> int \<times> 64 word" where
  "flt_get_control_print_spct mysql sample_pct = get_control mysql print_sample_pct' sample_pct"

definition flt_get_control_slow_threshold :: "MYSQL option \<Rightarrow> 64 word \<Rightarrow> int \<times> 64 word" where
  "flt_get_control_slow_threshold mysql slow_threshold = get_control mysql slow_query_threshold' slow_threshold"

subsection \<open>What a request carries\<close>

definition log_group :: "FullLinkTraceExtraInfoType \<Rightarrow> FullLinkTraceExtraInfoId \<Rightarrow> cbuf \<Rightarrow> mem" where
  "log_group type item s = (case s of None \<Rightarrow> [] | Some s \<Rightarrow> tlv (flt_type type) (tlv (flt_id item) (cstr s @ [0])))"

definition span_group :: "FLTSpanInfo \<Rightarrow> mem" where
  "span_group i = (if spn_trace_enable i = 1 then tlv (flt_type FLT_SPAN_INFO) (span_body i) else [])"

definition app_group :: "FLTAppInfo \<Rightarrow> mem" where
  "app_group i = (if app_body i = [] then [] else tlv (flt_type FLT_APP_INFO) (app_body i))"

definition request_bytes :: "FLTInfo \<Rightarrow> mem" where
  "request_bytes flt = span_group (fl_span_info flt)
     @ log_group FLT_DRIVER_SPAN_INFO FLT_DRIVER_SPAN (client_span' (fl_client_span flt))
     @ log_group FLT_TYPE_SHOW_TRACE_SPAN FLT_DRV_SHOW_TRACE_SPAN (client_span_json' (fl_show_trace_span flt))
     @ app_group (fl_app_info flt)"

definition request_ok :: "FLTInfo \<Rightarrow> bool" where
  "request_ok flt \<longleftrightarrow> (spn_trace_enable (fl_span_info flt) = 1 \<longrightarrow> span_ok (fl_span_info flt))
     \<and> spn_type (fl_span_info flt) = FLT_SPAN_INFO \<and> drv_type (fl_client_span flt) = FLT_DRIVER_SPAN_INFO
     \<and> shw_type (fl_show_trace_span flt) = FLT_TYPE_SHOW_TRACE_SPAN \<and> app_type (fl_app_info flt) = FLT_APP_INFO
     \<and> str_ok (client_span' (fl_client_span flt)) \<and> str_ok (client_span_json' (fl_show_trace_span flt))
     \<and> app_ok (fl_app_info flt)"

lemma length_span_body: "span_ok i \<Longrightarrow> length (span_body i) = 65"
  by (auto simp: span_ok_def span_body_def split: option.splits)

lemma length_span_group: "(spn_trace_enable i = 1 \<Longrightarrow> span_ok i) \<Longrightarrow> length (span_group i) = (if spn_trace_enable i = 1 then 71 else 0)"
  by (simp add: span_group_def length_span_body)

text \<open>Every group announces its size and is written behind the ones before it.\<close>

lemma put_behind:
  assumes "length xs + length ys \<le> length m"
  shows "put (put m 0 xs) (int (length xs)) ys = put m 0 (xs @ ys)"
  using put_put_adjacent [of 0 xs ys m] assms by simp

lemma span_sent:
  assumes "spn_trace_enable i = 1 \<longrightarrow> span_ok i" and "spn_type i = FLT_SPAN_INFO"
    and "length xs + length (span_group i) \<le> n" and "n \<le> length m" and "n < 2 ^ 31"
  shows "flt_get_serialize_size_extra_info (SpanInfo i) = Some (OB_SUCCESS, word_of_nat (length (span_group i)))"
    and "flt_serialize_extra_info (Some (put m 0 xs)) (int n) (int (length xs)) (SpanInfo i) =
      Some (OB_SUCCESS, Some (put m 0 (xs @ span_group i)), int (length (xs @ span_group i)))"
proof -
  show "flt_get_serialize_size_extra_info (SpanInfo i) = Some (OB_SUCCESS, word_of_nat (length (span_group i)))"
    using assms(1,2) spaninfo_size [of i] length_span_group [of i]
    by (cases "spn_trace_enable i = 1") (simp_all add: flt_get_serialize_size_extra_info_def flt_entry_def flt_get_serialize_size_spaninfo_def)
  show "flt_serialize_extra_info (Some (put m 0 xs)) (int n) (int (length xs)) (SpanInfo i) =
      Some (OB_SUCCESS, Some (put m 0 (xs @ span_group i)), int (length (xs @ span_group i)))"
  proof (cases "spn_trace_enable i = 1")
    case True
    then have "flt_serialize_spaninfo (Some (put m 0 xs)) (int n) (int (length xs)) i =
      Some (OB_SUCCESS, Some (put (put m 0 xs) (int (length xs)) (span_group i)), int (length xs) + 71)"
      using spaninfo_fits [of i "int (length xs)" "int n" "put m 0 xs"] assms length_span_group [of i] by (simp add: span_group_def)
    then show ?thesis
      using True assms length_span_group [of i] by (simp add: flt_serialize_extra_info_def flt_entry_def put_behind)
  next
    case False
    then show ?thesis using assms(2) by (simp add: flt_serialize_extra_info_def flt_entry_def flt_serialize_spaninfo_def span_group_def)
  qed
qed

lemma length_log_group: "length (log_group ty it s) = (case s of None \<Rightarrow> 0 | Some s \<Rightarrow> 13 + length (cstr s))"
  by (simp add: log_group_def split: option.split)

lemma log_group_Nil: "log_group ty it s = [] \<longleftrightarrow> s = None"
  by (simp add: log_group_def tlv_def split: option.split)

lemma log_size:
  assumes "str_ok s"
  shows "(case s of None \<Rightarrow> 0 | Some s \<Rightarrow> (word_of_nat (13 + length (cstr s)) :: 32 word)) = word_of_nat (length (log_group ty it s))"
  by (simp add: length_log_group split: option.split)

lemma client_sent:
  assumes "str_ok (client_span' i)" and "drv_type i = FLT_DRIVER_SPAN_INFO"
    and "length xs + length (log_group FLT_DRIVER_SPAN_INFO FLT_DRIVER_SPAN (client_span' i)) \<le> n" and "n \<le> length m" and "n < 2 ^ 31"
  shows "flt_get_serialize_size_extra_info (DriverSpanInfo i) =
      Some (OB_SUCCESS, word_of_nat (length (log_group FLT_DRIVER_SPAN_INFO FLT_DRIVER_SPAN (client_span' i))))"
    and "client_span' i \<noteq> None \<Longrightarrow> flt_serialize_extra_info (Some (put m 0 xs)) (int n) (int (length xs)) (DriverSpanInfo i) =
      Some (OB_SUCCESS, Some (put m 0 (xs @ log_group FLT_DRIVER_SPAN_INFO FLT_DRIVER_SPAN (client_span' i))),
        int (length (xs @ log_group FLT_DRIVER_SPAN_INFO FLT_DRIVER_SPAN (client_span' i))))"
proof -
  show "flt_get_serialize_size_extra_info (DriverSpanInfo i) =
      Some (OB_SUCCESS, word_of_nat (length (log_group FLT_DRIVER_SPAN_INFO FLT_DRIVER_SPAN (client_span' i))))"
    using driverspaninfo_size [OF assms(1)] assms(2) log_size [OF assms(1)]
    by (simp add: flt_get_serialize_size_extra_info_def flt_entry_def)
  assume "client_span' i \<noteq> None"
  then obtain s where s: "client_span' i = Some s" by auto
  let ?g = "log_group FLT_DRIVER_SPAN_INFO FLT_DRIVER_SPAN (Some s)"
  have l: "length ?g = 13 + length (cstr s)" by (simp add: length_log_group)
  have "flt_serialize_driverspaninfo (Some (put m 0 xs)) (int n) (int (length xs)) i =
      Some (OB_SUCCESS, Some (put (put m 0 xs) (int (length xs)) ?g), int (length xs) + 13 + int (length (cstr s)))"
    using driverspaninfo_fits [of i s "int (length xs)" "int n" "put m 0 xs"] assms s l by (simp add: log_group_def)
  then show "flt_serialize_extra_info (Some (put m 0 xs)) (int n) (int (length xs)) (DriverSpanInfo i) =
      Some (OB_SUCCESS, Some (put m 0 (xs @ log_group FLT_DRIVER_SPAN_INFO FLT_DRIVER_SPAN (client_span' i))),
        int (length (xs @ log_group FLT_DRIVER_SPAN_INFO FLT_DRIVER_SPAN (client_span' i))))"
    using assms s l by (simp add: flt_serialize_extra_info_def flt_entry_def put_behind)
qed

lemma show_sent:
  assumes "str_ok (client_span_json' i)" and "shw_type i = FLT_TYPE_SHOW_TRACE_SPAN"
    and "length xs + length (log_group FLT_TYPE_SHOW_TRACE_SPAN FLT_DRV_SHOW_TRACE_SPAN (client_span_json' i)) \<le> n"
    and "n \<le> length m" and "n < 2 ^ 31"
  shows "flt_get_serialize_size_extra_info (ShowTraceSpan i) =
      Some (OB_SUCCESS, word_of_nat (length (log_group FLT_TYPE_SHOW_TRACE_SPAN FLT_DRV_SHOW_TRACE_SPAN (client_span_json' i))))"
    and "client_span_json' i \<noteq> None \<Longrightarrow> flt_serialize_extra_info (Some (put m 0 xs)) (int n) (int (length xs)) (ShowTraceSpan i) =
      Some (OB_SUCCESS, Some (put m 0 (xs @ log_group FLT_TYPE_SHOW_TRACE_SPAN FLT_DRV_SHOW_TRACE_SPAN (client_span_json' i))),
        int (length (xs @ log_group FLT_TYPE_SHOW_TRACE_SPAN FLT_DRV_SHOW_TRACE_SPAN (client_span_json' i))))"
proof -
  show "flt_get_serialize_size_extra_info (ShowTraceSpan i) =
      Some (OB_SUCCESS, word_of_nat (length (log_group FLT_TYPE_SHOW_TRACE_SPAN FLT_DRV_SHOW_TRACE_SPAN (client_span_json' i))))"
    using showtracespan_size [OF assms(1)] assms(2) log_size [OF assms(1)]
    by (simp add: flt_get_serialize_size_extra_info_def flt_entry_def)
  assume "client_span_json' i \<noteq> None"
  then obtain s where s: "client_span_json' i = Some s" by auto
  let ?g = "log_group FLT_TYPE_SHOW_TRACE_SPAN FLT_DRV_SHOW_TRACE_SPAN (Some s)"
  have l: "length ?g = 13 + length (cstr s)" by (simp add: length_log_group)
  have "flt_serialize_showtracespan (Some (put m 0 xs)) (int n) (int (length xs)) i =
      Some (OB_SUCCESS, Some (put (put m 0 xs) (int (length xs)) ?g), int (length xs) + 13 + int (length (cstr s)))"
    using showtracespan_fits [of i s "int (length xs)" "int n" "put m 0 xs"] assms s l by (simp add: log_group_def)
  then show "flt_serialize_extra_info (Some (put m 0 xs)) (int n) (int (length xs)) (ShowTraceSpan i) =
      Some (OB_SUCCESS, Some (put m 0 (xs @ log_group FLT_TYPE_SHOW_TRACE_SPAN FLT_DRV_SHOW_TRACE_SPAN (client_span_json' i))),
        int (length (xs @ log_group FLT_TYPE_SHOW_TRACE_SPAN FLT_DRV_SHOW_TRACE_SPAN (client_span_json' i))))"
    using assms s l by (simp add: flt_serialize_extra_info_def flt_entry_def put_behind)
qed

lemma app_sent:
  assumes "app_ok i" and "app_type i = FLT_APP_INFO"
    and "length xs + length (app_group i) \<le> n" and "n \<le> length m" and "n < 2 ^ 31"
  shows "flt_get_serialize_size_extra_info (AppInfo i) = Some (OB_SUCCESS, word_of_nat (length (app_group i)))"
    and "app_group i \<noteq> [] \<Longrightarrow> flt_serialize_extra_info (Some (put m 0 xs)) (int n) (int (length xs)) (AppInfo i) =
      Some (OB_SUCCESS, Some (put m 0 (xs @ app_group i)), int (length (xs @ app_group i)))"
proof -
  have sm: "6 + length (app_body i) < 2 ^ 32" using assms(3,5) by (auto simp: app_group_def split: if_splits)
  show "flt_get_serialize_size_extra_info (AppInfo i) = Some (OB_SUCCESS, word_of_nat (length (app_group i)))"
    using appinfo_size [OF assms(1) sm] assms(2)
    by (simp add: flt_get_serialize_size_extra_info_def flt_entry_def app_group_def)
  assume ne: "app_group i \<noteq> []"
  then have l: "length (app_group i) = 6 + length (app_body i)" by (auto simp: app_group_def split: if_splits)
  have "flt_serialize_appinfo (Some (put m 0 xs)) (int n) (int (length xs)) i =
      Some (OB_SUCCESS, Some (put (put m 0 xs) (int (length xs)) (app_group i)), int (length xs) + 6 + int (length (app_body i)))"
    using appinfo_fits [of i "int (length xs)" "int n" "put m 0 xs"] assms ne l by (simp add: app_group_def split: if_splits)
  then show "flt_serialize_extra_info (Some (put m 0 xs)) (int n) (int (length xs)) (AppInfo i) =
      Some (OB_SUCCESS, Some (put m 0 (xs @ app_group i)), int (length (xs @ app_group i)))"
    using assms l by (simp add: flt_serialize_extra_info_def flt_entry_def put_behind)
qed

lemma group_step:
  assumes "w \<Longrightarrow> flt_serialize_extra_info (Some (put m 0 xs)) len (int (length xs)) info =
      Some (OB_SUCCESS, Some (put m 0 (xs @ g)), int (length (xs @ g)))"
    and "\<not> w \<Longrightarrow> g = []" and "e = int (length (xs @ g))"
  shows "request_group w info len e (OB_SUCCESS, Some (put m 0 xs), int (length xs)) =
      Some (OB_SUCCESS, Some (put m 0 (xs @ g)), int (length (xs @ g)))"
  using assms by (cases w) (simp_all add: request_group_def)

definition size_words :: "FLTInfo \<Rightarrow> 32 word \<times> 32 word \<times> 32 word \<times> 32 word" where
  "size_words flt = (word_of_nat (length (app_group (fl_app_info flt))),
     word_of_nat (length (log_group FLT_DRIVER_SPAN_INFO FLT_DRIVER_SPAN (client_span' (fl_client_span flt)))),
     word_of_nat (length (span_group (fl_span_info flt))),
     word_of_nat (length (log_group FLT_TYPE_SHOW_TRACE_SPAN FLT_DRV_SHOW_TRACE_SPAN (client_span_json' (fl_show_trace_span flt)))))"

lemma request_groups_chain:
  assumes "request_group True (SpanInfo (fl_span_info flt)) (sint len) (sint span) (OB_SUCCESS, Some buf, 0) = Some r1"
    and "request_group (client \<noteq> 0) (DriverSpanInfo (fl_client_span flt)) (sint len) (sint (span + client)) r1 = Some r2"
    and "request_group (shw \<noteq> 0) (ShowTraceSpan (fl_show_trace_span flt)) (sint len) (sint (span + client + shw)) r2 = Some r3"
    and "request_group (app \<noteq> 0) (AppInfo (fl_app_info flt)) (sint len) (sint len) r3 = Some r4"
  shows "request_groups flt buf len (app, client, span, shw) = Some r4"
  using assms by (simp add: request_groups_def)

lemma sint_of_nat32: "n < 2 ^ 31 \<Longrightarrow> sint (word_of_nat n :: 32 word) = int n"
  using int_word_sint [of "int n", where ?'a = 32] by simp

lemma word_of_nat_0_iff: "n < 2 ^ 31 \<Longrightarrow> (word_of_nat n :: 32 word) = 0 \<longleftrightarrow> n = 0"
  by (simp add: word_unat_eq_iff unsigned_of_nat take_bit_nat_eq_self)

lemma groups_written:
  assumes ok: "request_ok flt" and len: "length (request_bytes flt) \<le> length m" "length (request_bytes flt) < 2 ^ 31"
  shows "request_sizes flt = Some (Inr (size_words flt))"
    and "request_groups flt m (word_of_nat (length (request_bytes flt))) (size_words flt) =
      Some (OB_SUCCESS, Some (put m 0 (request_bytes flt)), int (length (request_bytes flt)))"
proof -
  let ?s = "span_group (fl_span_info flt)" and ?a = "app_group (fl_app_info flt)"
  let ?c = "log_group FLT_DRIVER_SPAN_INFO FLT_DRIVER_SPAN (client_span' (fl_client_span flt))"
  let ?j = "log_group FLT_TYPE_SHOW_TRACE_SPAN FLT_DRV_SHOW_TRACE_SPAN (client_span_json' (fl_show_trace_span flt))"
  let ?n = "length (request_bytes flt)"
  have n: "?n = length ?s + length ?c + length ?j + length ?a" by (simp add: request_bytes_def)
  note o = ok [unfolded request_ok_def]
  have sp: "spn_trace_enable (fl_span_info flt) = 1 \<longrightarrow> span_ok (fl_span_info flt)" using o by simp
  note S = span_sent [where xs = "[]" and n = ?n and m = m and i = "fl_span_info flt"]
    and C = client_sent [where xs = ?s and n = ?n and m = m and i = "fl_client_span flt"]
    and J = show_sent [where xs = "?s @ ?c" and n = ?n and m = m and i = "fl_show_trace_span flt"]
    and A = app_sent [where xs = "?s @ ?c @ ?j" and n = ?n and m = m and i = "fl_app_info flt"]
  have m0: "put m 0 [] = m" by simp
  have sw: "sint (word_of_nat k :: 32 word) = int k" if "k \<le> ?n" for k using that len(2) by (intro sint_of_nat32) simp
  have z: "(word_of_nat k :: 32 word) = 0 \<longleftrightarrow> k = 0" if "k \<le> ?n" for k using that len(2) by (intro word_of_nat_0_iff) simp
  have fit: "length [] + length ?s \<le> ?n" "length ?s + length ?c \<le> ?n" "length (?s @ ?c) + length ?j \<le> ?n"
    "length (?s @ ?c @ ?j) + length ?a \<le> ?n" using n by simp_all
  have ty: "spn_type (fl_span_info flt) = FLT_SPAN_INFO" "drv_type (fl_client_span flt) = FLT_DRIVER_SPAN_INFO"
    "shw_type (fl_show_trace_span flt) = FLT_TYPE_SHOW_TRACE_SPAN" "app_type (fl_app_info flt) = FLT_APP_INFO"
    "str_ok (client_span' (fl_client_span flt))" "str_ok (client_span_json' (fl_show_trace_span flt))" "app_ok (fl_app_info flt)"
    using o by simp_all
  show "request_sizes flt = Some (Inr (size_words flt))"
    using S(1) [OF sp ty(1) fit(1) len] C(1) [OF ty(5,2) fit(2) len] J(1) [OF ty(6,3) fit(3) len] A(1) [OF ty(7,4) fit(4) len]
    by (simp add: request_sizes_def size_words_def)
  have G1: "request_group True (SpanInfo (fl_span_info flt)) (int ?n) (int (length ([] @ ?s))) (OB_SUCCESS, Some (put m 0 []), int (length ([] :: mem))) =
      Some (OB_SUCCESS, Some (put m 0 ([] @ ?s)), int (length ([] @ ?s)))"
    using S(2) [OF sp ty(1) fit(1) len] by (intro group_step) simp_all
  have G2: "request_group (?c \<noteq> []) (DriverSpanInfo (fl_client_span flt)) (int ?n) (int (length (?s @ ?c)))
      (OB_SUCCESS, Some (put m 0 ?s), int (length ?s)) = Some (OB_SUCCESS, Some (put m 0 (?s @ ?c)), int (length (?s @ ?c)))"
    using C(2) [OF ty(5,2) fit(2) len] by (intro group_step) (simp_all add: log_group_Nil)
  have G3: "request_group (?j \<noteq> []) (ShowTraceSpan (fl_show_trace_span flt)) (int ?n) (int (length ((?s @ ?c) @ ?j)))
      (OB_SUCCESS, Some (put m 0 (?s @ ?c)), int (length (?s @ ?c))) =
      Some (OB_SUCCESS, Some (put m 0 ((?s @ ?c) @ ?j)), int (length ((?s @ ?c) @ ?j)))"
    using J(2) [OF ty(6,3) fit(3) len] by (intro group_step) (simp_all add: log_group_Nil)
  have G4: "request_group (?a \<noteq> []) (AppInfo (fl_app_info flt)) (int ?n) (int (length ((?s @ ?c @ ?j) @ ?a)))
      (OB_SUCCESS, Some (put m 0 (?s @ ?c @ ?j)), int (length (?s @ ?c @ ?j))) =
      Some (OB_SUCCESS, Some (put m 0 ((?s @ ?c @ ?j) @ ?a)), int (length ((?s @ ?c @ ?j) @ ?a)))"
    using A(2) [OF ty(7,4) fit(4) len] by (intro group_step) simp_all
  have e: "sint (word_of_nat ?n :: 32 word) = int ?n" "sint (word_of_nat (length ?s) :: 32 word) = int (length ?s)"
    "sint (word_of_nat (length ?s) + word_of_nat (length ?c) :: 32 word) = int (length ?s) + int (length ?c)"
    "sint (word_of_nat (length ?s) + word_of_nat (length ?c) + word_of_nat (length ?j) :: 32 word) = int (length ?s) + int (length ?c) + int (length ?j)"
    using sw [of ?n] sw [of "length ?s"] sw [of "length ?s + length ?c"] sw [of "length ?s + length ?c + length ?j"] n by simp_all
  have nz: "(word_of_nat (length ?c) :: 32 word) = 0 \<longleftrightarrow> ?c = []" "(word_of_nat (length ?j) :: 32 word) = 0 \<longleftrightarrow> ?j = []"
    "(word_of_nat (length ?a) :: 32 word) = 0 \<longleftrightarrow> ?a = []"
    using z [of "length ?c"] z [of "length ?j"] z [of "length ?a"] n by simp_all
  have rb: "int ?n = int (length ((?s @ ?c @ ?j) @ ?a))" "request_bytes flt = (?s @ ?c @ ?j) @ ?a" by (simp_all add: request_bytes_def)
  show "request_groups flt m (word_of_nat ?n) (size_words flt) = Some (OB_SUCCESS, Some (put m 0 (request_bytes flt)), int ?n)"
    unfolding size_words_def
  proof (rule request_groups_chain)
    show "request_group True (SpanInfo (fl_span_info flt)) (sint (word_of_nat ?n :: 32 word)) (sint (word_of_nat (length ?s) :: 32 word)) (OB_SUCCESS, Some m, 0) =
        Some (OB_SUCCESS, Some (put m 0 ?s), int (length ?s))" using G1 by (simp add: e)
    show "request_group (word_of_nat (length ?c) \<noteq> (0 :: 32 word)) (DriverSpanInfo (fl_client_span flt)) (sint (word_of_nat ?n :: 32 word))
        (sint (word_of_nat (length ?s) + word_of_nat (length ?c) :: 32 word)) (OB_SUCCESS, Some (put m 0 ?s), int (length ?s)) =
        Some (OB_SUCCESS, Some (put m 0 (?s @ ?c)), int (length (?s @ ?c)))" using G2 by (simp add: e nz)
    show "request_group (word_of_nat (length ?j) \<noteq> (0 :: 32 word)) (ShowTraceSpan (fl_show_trace_span flt)) (sint (word_of_nat ?n :: 32 word))
        (sint (word_of_nat (length ?s) + word_of_nat (length ?c) + word_of_nat (length ?j) :: 32 word)) (OB_SUCCESS, Some (put m 0 (?s @ ?c)), int (length (?s @ ?c))) =
        Some (OB_SUCCESS, Some (put m 0 (?s @ ?c @ ?j)), int (length (?s @ ?c @ ?j)))" unfolding e nz using G3 by (simp add: add.assoc)
    show "request_group (word_of_nat (length ?a) \<noteq> (0 :: 32 word)) (AppInfo (fl_app_info flt)) (sint (word_of_nat ?n :: 32 word))
        (sint (word_of_nat ?n :: 32 word)) (OB_SUCCESS, Some (put m 0 (?s @ ?c @ ?j)), int (length (?s @ ?c @ ?j))) =
        Some (OB_SUCCESS, Some (put m 0 (request_bytes flt)), int ?n)"
      using G4 unfolding rb(2) [symmetric] rb(1) [symmetric] by (simp add: e nz)
  qed
qed

lemma serialize_UUID_16:
  assumes "length m = 16"
  obtains m' where "serialize_UUID (Some m) 16 0 u = Some (OB_SUCCESS, Some m', 16)" and "length m' = 16"
    and "m' = be_bytes64 (high' u) @ be_bytes64 (low' u)"
proof -
  let ?m1 = "put m 0 (be_bytes64 (high' u))" and ?m = "put m 0 (be_bytes64 (high' u) @ be_bytes64 (low' u))"
  have l8: "length (be_bytes64 v) = 8" for v by (simp add: be_bytes64_def)
  have "encode_i64 (Some m) 16 0 (high' u) = Some (OB_SUCCESS, Some ?m1, 8)"
    using assms i64.write_fits [where v = "high' u" and pos = 0 and len = 16 and m = m] by (simp add: l8)
  moreover have "encode_i64 (Some ?m1) 16 8 (low' u) = Some (OB_SUCCESS, Some ?m, 16)"
    using assms i64.write_fits [where v = "low' u" and pos = 8 and len = 16 and m = ?m1]
      put_put_adjacent [of 0 "be_bytes64 (high' u)" "be_bytes64 (low' u)" m] by (simp add: l8)
  ultimately have "serialize_UUID (Some m) 16 0 u = Some (OB_SUCCESS, Some ?m, 16)" by (simp add: serialize_UUID_def)
  then show thesis by (rule that) (use assms in \<open>simp_all add: l8 put_def\<close>)
qed

lemma send_ok:
  assumes ok: "request_ok flt" and t: "fl_trace flt = Some t" "length (tr_serialize_buf t) = 2048" "tr_show_buf t \<noteq> []"
    and len: "length (request_bytes flt) \<le> 2048"
    and m: "malloc (ob_nodes p) = Some x" "ob_nodes p x = None" and l: "extra_list p xs"
  shows "\<exists>p' flt' t'. request_send malloc p flt (word_of_nat (length (request_bytes flt))) (size_words flt) = Some (OB_SUCCESS, p')
    \<and> extra_list p' (x # xs) \<and> trace_item p' x \<and> trace_value p' (request_bytes flt)
    \<and> ob_flt p' = Some flt' \<and> fl_span_info flt' = fl_span_info flt \<and> app_group (fl_app_info flt') = []
    \<and> fl_trace flt' = Some t' \<and> tr_log_offset t' = 0 \<and> tr_show_offset t' = 1 \<and> tr_spans t' = tr_spans t"
proof -
  let ?n = "length (request_bytes flt)"
  let ?v = "\<lparr>value_data' = SerializeBuf, length' = scast (word_of_nat ?n :: 32 word)\<rparr>"
  let ?f = "flt\<lparr>fl_value_data := ?v\<rparr>" and ?b = "put (tr_serialize_buf t) 0 (request_bytes flt)"
  have rb: "request_bytes ?f = request_bytes flt" "size_words ?f = size_words flt" "request_ok ?f"
    using ok by (simp_all add: request_bytes_def size_words_def request_ok_def)
  have g: "request_groups ?f (tr_serialize_buf t) (word_of_nat ?n) (size_words flt) = Some (OB_SUCCESS, Some ?b, int ?n)"
    using groups_written(2) [OF rb(3), of "tr_serialize_buf t"] len t(2) by (simp add: rb)
  have s: "sint (word_of_nat ?n :: 32 word) = int ?n" using len by (intro sint_of_nat32) simp
  then have sc: "(scast (word_of_nat ?n :: 32 word) :: 64 word) = of_nat ?n" by (simp add: scast_eq)
  let ?t = "t\<lparr>tr_serialize_buf := ?b\<rparr>"
  let ?app = "app_group (fl_app_info flt) \<noteq> []"
  have "length (app_group (fl_app_info flt)) \<le> ?n" by (simp add: request_bytes_def)
  then have fa: "fst (size_words flt) \<noteq> 0 \<longleftrightarrow> ?app" using len by (simp add: size_words_def word_of_nat_0_iff)
  let ?i = "\<lparr>app_type = FLT_APP_INFO, identifier' = None, module' = None, action' = None, client_info' = None\<rparr>"
  define f2 where "f2 = (if ?app then ?f\<lparr>fl_app_info := ?i\<rparr> else ?f)"
  let ?t2 = "?t\<lparr>tr_log_offset := 0, tr_show_buf := (tr_show_buf t)[0 := 91], tr_show_offset := 1\<rparr>"
  let ?f3 = "f2\<lparr>fl_trace := Some ?t2, fl_client_span := (fl_client_span flt)\<lparr>client_span' := None\<rparr>,
             fl_show_trace_span := (fl_show_trace_span flt)\<lparr>client_span_json' := None\<rparr>\<rparr>"
  have r: "request_reset ?f ?t (fst (size_words flt) \<noteq> 0) = Some ?f3"
    using t(3) unfolding fa by (simp add: request_reset_def store_byte_def f2_def)
  define pp where "pp = p\<lparr>ob_flt := Some ?f3\<rparr>"
  have l3: "extra_list pp xs" and m3: "malloc (ob_nodes pp) = Some x" "ob_nodes pp x = None" and fp: "ob_flt pp = Some ?f3"
    using l m by (simp_all add: extra_list_def pp_def)
  obtain q where h: "ob20_set_extra_info malloc pp FULL_TRC FltValueData = Some (OB_SUCCESS, q)" "extra_list q (x # xs)"
    "map_option data (ob_nodes q x) = Some \<lparr>ei_key = FULL_TRC, ei_value = FltValueData\<rparr>" "ob_flt q = Some ?f3"
    by (rule set_extra_info_list [of pp xs malloc x FULL_TRC FltValueData, OF l3 m3]) (simp add: fp)
  have "request_send malloc p flt (word_of_nat ?n) (size_words flt) = Some (OB_SUCCESS, q)"
    unfolding request_send_def using s len t(1) g r h(1) by (simp add: pp_def)
  moreover have "trace_item q x" using h(3) by (simp add: trace_item_def)
  moreover have "trace_value q (request_bytes flt)"
    using len t(2) h(4) by (auto simp: trace_value_def f2_def sc put_def)
  moreover have "app_group (fl_app_info ?f3) = []" by (auto simp: f2_def app_group_def app_body_def str_item_def)
  moreover have "fl_span_info ?f3 = fl_span_info flt" by (simp add: f2_def)
  ultimately show ?thesis using h(2,4) by (intro exI [of _ q] exI [of _ ?f3] exI [of _ ?t2]) simp
qed

lemma INIT_SPAN_flags:
  "INIT_SPAN t q = Some t' \<Longrightarrow> tr_trace_enable t' = tr_trace_enable t \<and> tr_force_print t' = tr_force_print t
     \<and> tr_show_trace_enable t' = tr_show_trace_enable t \<and> tr_last_active t' = tr_last_active t"
  by (auto simp: INIT_SPAN_def upd_span_def Let_def split: option.splits if_splits bind_splits prod.splits)


end
