(* ===== verification/MaArray.thy ===== *)
theory MaArray
  imports Prelude
begin

section \<open>Arrays that grow (libmariadb/ma_array.c)\<close>

text \<open>
  The elements of an array are values of a type \<open>'a\<close> instead of \<^verbatim>\<open>size_of_element\<close> bytes each, so a block of memory is the list of
  the elements it has room for.  The sizes in bytes are computed as in the code, with 32 bits, and \<open>room\<close> is the
  number of elements that such a block holds.  \<open>malloc\<close> and \<open>realloc\<close> are parameters; they may fail.
\<close>

record 'a DYNAMIC_ARRAY =
  da_buffer :: "'a list option"
  elements :: "32 word"
  max_element :: "32 word"
  alloc_increment :: "32 word"
  size_of_element :: "32 word"

definition room :: "32 word \<Rightarrow> 32 word \<Rightarrow> nat" where
  "room n esize = unat (n * esize) div unat esize"

definition default_increment :: "32 word \<Rightarrow> 32 word \<Rightarrow> 32 word" where
  "default_increment element_size init_alloc =
     (let i = max (8184 div element_size) 16 in
      if init_alloc > 8 \<and> i > init_alloc * 2 then init_alloc * 2 else i)"

definition ma_init_dynamic_array ::
  "(nat \<Rightarrow> 'a list option) \<Rightarrow> 32 word \<Rightarrow> 32 word \<Rightarrow> 32 word \<Rightarrow> (bool \<times> 'a DYNAMIC_ARRAY) option" where
  "ma_init_dynamic_array malloc element_size init_alloc increment =
     (if increment = 0 \<and> element_size = 0 then None
      else
        let increment = (if increment = 0 then default_increment element_size init_alloc else increment);
            init_alloc = (if init_alloc = 0 then increment else init_alloc);
            a = \<lparr>da_buffer = malloc (room init_alloc element_size), elements = 0, max_element = init_alloc,
                 alloc_increment = increment, size_of_element = element_size\<rparr> in
        Some (if da_buffer a = None then (True, a\<lparr>max_element := 0\<rparr>) else (False, a)))"

text \<open>\<^verbatim>\<open>ma_alloc_dynamic\<close> returns the index of the new element instead of its address.\<close>

definition ma_alloc_dynamic ::
  "('a list option \<Rightarrow> nat \<Rightarrow> 'a list option) \<Rightarrow> 'a DYNAMIC_ARRAY \<Rightarrow> 32 word option \<times> 'a DYNAMIC_ARRAY" where
  "ma_alloc_dynamic realloc a =
     (if elements a = max_element a then
        (case realloc (da_buffer a) (room (max_element a + alloc_increment a) (size_of_element a)) of
           None \<Rightarrow> (None, a)
         | Some b \<Rightarrow> (Some (elements a), a\<lparr>da_buffer := Some b, max_element := max_element a + alloc_increment a,
                        elements := elements a + 1\<rparr>))
      else (Some (elements a), a\<lparr>elements := elements a + 1\<rparr>))"

text \<open>Writing and reading one element; \<open>None\<close> outside the block.\<close>

definition store_element :: "'a list option \<Rightarrow> 32 word \<Rightarrow> 'a \<Rightarrow> 'a list option" where
  "store_element b i x = (case b of None \<Rightarrow> None | Some xs \<Rightarrow> if unat i < length xs then Some (xs[unat i := x]) else None)"

definition dynamic_element :: "'a DYNAMIC_ARRAY \<Rightarrow> 32 word \<Rightarrow> 'a option" where
  "dynamic_element a i = (case da_buffer a of None \<Rightarrow> None | Some xs \<Rightarrow> if unat i < length xs then Some (xs ! unat i) else None)"

definition ma_insert_dynamic ::
  "('a list option \<Rightarrow> nat \<Rightarrow> 'a list option) \<Rightarrow> 'a DYNAMIC_ARRAY \<Rightarrow> 'a \<Rightarrow> (bool \<times> 'a DYNAMIC_ARRAY) option" where
  "ma_insert_dynamic realloc a x =
     (if elements a = max_element a then
        (case ma_alloc_dynamic realloc a of
           (None, a) \<Rightarrow> Some (True, a)
         | (Some i, a) \<Rightarrow> map_option (\<lambda>b. (False, a\<lparr>da_buffer := Some b\<rparr>)) (store_element (da_buffer a) i x))
      else map_option (\<lambda>b. (False, a\<lparr>da_buffer := Some b, elements := elements a + 1\<rparr>))
             (store_element (da_buffer a) (elements a) x))"

definition ma_pop_dynamic :: "'a DYNAMIC_ARRAY \<Rightarrow> 32 word option \<times> 'a DYNAMIC_ARRAY" where
  "ma_pop_dynamic a =
     (if elements a \<noteq> 0 then (Some (elements a - 1), a\<lparr>elements := elements a - 1\<rparr>) else (None, a))"

text \<open>\<open>zero\<close> is an element of zero bytes.\<close>

definition clear_elements :: "'a \<Rightarrow> 'a list option \<Rightarrow> 32 word \<Rightarrow> 32 word \<Rightarrow> 'a list option" where
  "clear_elements zero b from n = (case b of
     None \<Rightarrow> None
   | Some xs \<Rightarrow> if unat from + unat n \<le> length xs
       then Some (take (unat from) xs @ replicate (unat n) zero @ drop (unat from + unat n) xs) else None)"

definition ma_set_dynamic ::
  "('a list option \<Rightarrow> nat \<Rightarrow> 'a list option) \<Rightarrow> 'a \<Rightarrow> 'a DYNAMIC_ARRAY \<Rightarrow> 'a \<Rightarrow> 32 word \<Rightarrow> (bool \<times> 'a DYNAMIC_ARRAY) option" where
  "ma_set_dynamic realloc zero a x idx = do {
     (fail, a) \<leftarrow>
       (if idx \<ge> elements a then do {
          (fail, a) \<leftarrow>
            (if idx \<ge> max_element a then
               if alloc_increment a = 0 then None
               else
                 let nsize = (idx + alloc_increment a) div alloc_increment a * alloc_increment a in
                 Some (case realloc (da_buffer a) (room nsize (size_of_element a)) of
                         None \<Rightarrow> (True, a)
                       | Some b \<Rightarrow> (False, a\<lparr>da_buffer := Some b, max_element := nsize\<rparr>))
             else Some (False, a));
          if fail then Some (True, a)
          else do {
            b \<leftarrow> clear_elements zero (da_buffer a) (elements a) (idx - elements a);
            Some (False, a\<lparr>da_buffer := Some b, elements := idx + 1\<rparr>) } }
        else Some (False, a));
     if fail then Some (True, a)
     else do {
       b \<leftarrow> store_element (da_buffer a) idx x;
       Some (False, a\<lparr>da_buffer := Some b\<rparr>) } }"

definition ma_get_dynamic :: "'a \<Rightarrow> 'a DYNAMIC_ARRAY \<Rightarrow> 32 word \<Rightarrow> 'a option" where
  "ma_get_dynamic zero a idx = (if idx \<ge> elements a then Some zero else dynamic_element a idx)"

text \<open>\<^verbatim>\<open>ma_delete_dynamic\<close> also tells whether a block was freed.\<close>

definition ma_delete_dynamic :: "'a DYNAMIC_ARRAY \<Rightarrow> bool \<times> 'a DYNAMIC_ARRAY" where
  "ma_delete_dynamic a =
     (if da_buffer a \<noteq> None then (True, a\<lparr>da_buffer := None, elements := 0, max_element := 0\<rparr>) else (False, a))"

definition ma_delete_dynamic_element :: "'a DYNAMIC_ARRAY \<Rightarrow> 32 word \<Rightarrow> 'a DYNAMIC_ARRAY option" where
  "ma_delete_dynamic_element a idx = do {
     xs \<leftarrow> da_buffer a;
     let a = a\<lparr>elements := elements a - 1\<rparr>;
     let n = unat (elements a - idx);
     if unat idx + 1 + n \<le> length xs
     then Some (a\<lparr>da_buffer := Some (take (unat idx) xs @ take n (drop (unat idx + 1) xs) @ drop (unat idx + n) xs)\<rparr>)
     else None }"

definition ma_freeze_size ::
  "('a list option \<Rightarrow> nat \<Rightarrow> 'a list option) \<Rightarrow> 'a DYNAMIC_ARRAY \<Rightarrow> 'a DYNAMIC_ARRAY" where
  "ma_freeze_size realloc a =
     (let n = max (elements a) 1 in
      if da_buffer a \<noteq> None \<and> max_element a \<noteq> n
      then a\<lparr>da_buffer := realloc (da_buffer a) (room n (size_of_element a)), max_element := n\<rparr>
      else a)"

subsection \<open>The sequence of an array\<close>

text \<open>
  \<open>array_ok\<close> relates an array to the sequence of its elements.  The block has room for \<^verbatim>\<open>max_element\<close> elements, and no
  size in bytes that the code computes for a larger block may leave 32 bits; \<open>fits\<close> says so for the next growth.
\<close>

definition array_ok :: "'a DYNAMIC_ARRAY \<Rightarrow> 'a list \<Rightarrow> bool" where
  "array_ok a xs \<longleftrightarrow> size_of_element a \<noteq> 0 \<and> alloc_increment a \<noteq> 0 \<and> elements a \<le> max_element a \<and> unat (elements a) = length xs
     \<and> (\<exists>b. da_buffer a = Some (xs @ b) \<and> length (xs @ b) = unat (max_element a))"

definition fits :: "'a DYNAMIC_ARRAY \<Rightarrow> nat \<Rightarrow> bool" where
  "fits a n \<longleftrightarrow> (n + unat (alloc_increment a)) * unat (size_of_element a) < 2 ^ 32"

definition malloc_gives :: "(nat \<Rightarrow> 'a list option) \<Rightarrow> bool" where
  "malloc_gives malloc \<longleftrightarrow> (\<forall>n b. malloc n = Some b \<longrightarrow> length b = n)"

definition realloc_grows :: "('a list option \<Rightarrow> nat \<Rightarrow> 'a list option) \<Rightarrow> bool" where
  "realloc_grows realloc \<longleftrightarrow>
     (\<forall>xs n b. realloc (Some xs) n = Some b \<longrightarrow> length b = n \<and> take (min n (length xs)) b = take (min n (length xs)) xs)"

lemma room_exact: "unat n * unat s < 2 ^ 32 \<Longrightarrow> s \<noteq> 0 \<Longrightarrow> room n s = unat n"
  by (simp add: room_def unat_mult_lem [THEN iffD1] unat_eq_zero)

lemma array_ok_room: "array_ok a xs \<Longrightarrow> elements a \<noteq> max_element a \<Longrightarrow>
    \<exists>y b. da_buffer a = Some (xs @ y # b) \<and> Suc (length xs + length b) = unat (max_element a)"
proof -
  assume ok: "array_ok a xs" and ne: "elements a \<noteq> max_element a"
  obtain b where b: "da_buffer a = Some (xs @ b)" "length xs + length b = unat (max_element a)" "unat (elements a) = length xs"
    using ok by (auto simp: array_ok_def)
  moreover have "b \<noteq> []" using b(2,3) ne by (auto simp: word_unat_eq_iff)
  ultimately show ?thesis by (cases b) auto
qed

lemma unat_plus: "unat (x :: 32 word) + unat y < 2 ^ 32 \<Longrightarrow> unat (x + y) = unat x + unat y"
  using unat_add_lem [of x y] by simp

lemma uint32_lt: "unat (x :: 32 word) < 4294967296"
  using unsigned_less [where 'a = nat and w = x] by simp

lemma unat_suc_less: "x < (y :: 32 word) \<Longrightarrow> unat (x + 1) = Suc (unat x)"
  using unat_plus [of x 1] uint32_lt [of y] by (simp add: word_less_nat_alt)

lemma realloc_growsD:
  "realloc_grows r \<Longrightarrow> r (Some xs) (length xs + n) = Some b \<Longrightarrow> length b = length xs + n \<and> take (length xs) b = xs"
  unfolding realloc_grows_def by (metis le_add1 min.absorb2 order_refl take_all)

text \<open>One more element: when there is no memory the array is unchanged, otherwise it has any value in a new last place.\<close>

lemma alloc_dynamic_ok:
  assumes "array_ok a xs" and "realloc_grows realloc" and "fits a (length xs)"
  obtains "ma_alloc_dynamic realloc a = (None, a)"
  | a' y where "ma_alloc_dynamic realloc a = (Some (elements a), a')" and "array_ok a' (xs @ [y])"
    and "alloc_increment a' = alloc_increment a" and "size_of_element a' = size_of_element a"
proof (cases "elements a = max_element a")
  case True
  let ?m = "max_element a + alloc_increment a"
  note ok = assms(1) [unfolded array_ok_def]
  have s: "size_of_element a \<noteq> 0" "alloc_increment a \<noteq> 0" "unat (max_element a) = length xs" "da_buffer a = Some xs"
    using ok True by auto
  have le: "(length xs + unat (alloc_increment a)) * unat (size_of_element a) < 2 ^ 32" using assms(3) by (simp add: fits_def)
  have "length xs + unat (alloc_increment a) \<le> (length xs + unat (alloc_increment a)) * unat (size_of_element a)"
    using s(1) by (simp add: Suc_le_eq unat_gt_0)
  then have lt: "length xs + unat (alloc_increment a) < 2 ^ 32" using le by linarith
  then have m: "unat ?m = length xs + unat (alloc_increment a)" using unat_plus [of "max_element a" "alloc_increment a"] s(3) by simp
  then have r: "room ?m (size_of_element a) = length xs + unat (alloc_increment a)" using le s(1) by (simp add: room_exact)
  show thesis
  proof (cases "realloc (Some xs) (length xs + unat (alloc_increment a))")
    case None
    then show thesis using that(1) True r s(4) by (simp add: ma_alloc_dynamic_def)
  next
    case (Some b)
    then have b: "length b = length xs + unat (alloc_increment a)" "take (length xs) b = xs"
      using realloc_growsD [OF assms(2)] by blast+
    have pos: "0 < unat (alloc_increment a)" using s(2) by (simp add: unat_gt_0)
    obtain y ys where y: "b = xs @ y # ys"
      using b pos by (metis append_take_drop_id add_less_same_cancel1 append_Nil2 length_drop less_add_same_cancel1 list.exhaust nat_less_le take_all_iff)
    have u: "unat (elements a + 1) = Suc (length xs)"
      using True s(3) lt pos by (simp add: unat_plus)
    have "array_ok (a\<lparr>da_buffer := Some b, max_element := ?m, elements := elements a + 1\<rparr>) (xs @ [y])"
      using s b u m y pos by (simp add: array_ok_def word_le_nat_alt del: unat_add_lem)
    then show thesis using that(2) True r s(4) Some by (simp add: ma_alloc_dynamic_def)
  qed
next
  case False
  obtain y b where b: "da_buffer a = Some (xs @ y # b)" "Suc (length xs + length b) = unat (max_element a)"
    using array_ok_room [OF assms(1) False] by blast
  have "elements a < max_element a" using assms(1) False by (simp add: array_ok_def order.strict_iff_order)
  then have "array_ok (a\<lparr>elements := elements a + 1\<rparr>) (xs @ [y])"
    using assms(1) b by (simp add: array_ok_def unat_suc_less word_le_nat_alt)
  then show thesis using that(2) False by (simp add: ma_alloc_dynamic_def)
qed

lemma store_element_ok:
  "i < length xs \<Longrightarrow> unat w = i \<Longrightarrow> store_element (Some (xs @ b)) w x = Some (xs[i := x] @ b)"
  by (simp add: store_element_def list_update_append)

lemma insert_dynamic_ok:
  assumes "array_ok a xs" and "realloc_grows realloc" and "fits a (length xs)"
  shows "\<exists>r a'. ma_insert_dynamic realloc a x = Some (r, a') \<and> array_ok a' (if r then xs else xs @ [x])
    \<and> alloc_increment a' = alloc_increment a \<and> size_of_element a' = size_of_element a"
proof (cases "elements a = max_element a")
  case True
  from assms show ?thesis
  proof (cases rule: alloc_dynamic_ok)
    case 1
    then show ?thesis using True assms(1) by (intro exI [of _ True] exI [of _ a]) (simp add: ma_insert_dynamic_def)
  next
    case (2 a' y)
    obtain b where b: "da_buffer a' = Some ((xs @ [y]) @ b)" using 2(2) by (auto simp: array_ok_def)
    have "unat (elements a) = length xs" using assms(1) by (simp add: array_ok_def)
    then have "store_element (da_buffer a') (elements a) x = Some ((xs @ [x]) @ b)"
      using store_element_ok [of "length xs" "xs @ [y]" "elements a" b x] b by simp
    moreover have "array_ok (a'\<lparr>da_buffer := Some ((xs @ [x]) @ b)\<rparr>) (xs @ [x])"
      using 2(2) b by (simp add: array_ok_def)
    ultimately show ?thesis using 2 True by (intro exI [of _ False]) (simp add: ma_insert_dynamic_def)
  qed
next
  case False
  obtain y b where b: "da_buffer a = Some (xs @ y # b)" "Suc (length xs + length b) = unat (max_element a)"
    using array_ok_room [OF assms(1) False] by blast
  have lt: "elements a < max_element a" and u: "unat (elements a) = length xs"
    using assms(1) False by (simp_all add: array_ok_def order.strict_iff_order)
  then have "store_element (da_buffer a) (elements a) x = Some ((xs @ [x]) @ b)"
    using store_element_ok [of "length xs" "xs @ [y]" "elements a" b x] b by simp
  moreover have "array_ok (a\<lparr>da_buffer := Some ((xs @ [x]) @ b), elements := elements a + 1\<rparr>) (xs @ [x])"
    using assms(1) b u unat_suc_less [OF lt] by (simp add: array_ok_def word_le_nat_alt)
  ultimately show ?thesis using False by (intro exI [of _ False]) (simp add: ma_insert_dynamic_def)
qed

lemma pop_dynamic_ok:
  assumes "array_ok a xs"
  shows "case ma_pop_dynamic a of (r, a') \<Rightarrow> array_ok a' (butlast xs) \<and> (r = None \<longleftrightarrow> xs = [])
    \<and> (\<forall>i. r = Some i \<longrightarrow> dynamic_element a' i = Some (last xs)) \<and> alloc_increment a' = alloc_increment a \<and> size_of_element a' = size_of_element a"
proof (cases "elements a = 0")
  case True
  then show ?thesis using assms by (auto simp: ma_pop_dynamic_def array_ok_def)
next
  case False
  obtain b where b: "da_buffer a = Some (xs @ b)" "length (xs @ b) = unat (max_element a)" "unat (elements a) = length xs"
    using assms by (auto simp: array_ok_def)
  have u: "unat (elements a - 1) = length xs - 1" using False b(3) by (simp add: unat_minus_one)
  obtain ys z where x: "xs = ys @ [z]" using False b(3) by (cases xs rule: rev_cases) (auto simp: unat_eq_zero)
  have "array_ok (a\<lparr>elements := elements a - 1\<rparr>) ys"
    using assms False b u x by (simp add: array_ok_def word_le_nat_alt)
  then show ?thesis using b u x False by (simp add: ma_pop_dynamic_def dynamic_element_def)
qed

lemma get_dynamic_ok:
  "array_ok a xs \<Longrightarrow> ma_get_dynamic zero a i = Some (if unat i < length xs then xs ! unat i else zero)"
  by (auto simp: ma_get_dynamic_def array_ok_def dynamic_element_def word_le_nat_alt nth_append not_le split: option.splits)

lemma delete_dynamic_element_ok:
  assumes "array_ok a xs" and "unat i < length xs"
  shows "\<exists>a'. ma_delete_dynamic_element a i = Some a' \<and> array_ok a' (take (unat i) xs @ drop (Suc (unat i)) xs)
    \<and> alloc_increment a' = alloc_increment a \<and> size_of_element a' = size_of_element a"
proof -
  obtain b where b: "da_buffer a = Some (xs @ b)" "length (xs @ b) = unat (max_element a)" "unat (elements a) = length xs"
    using assms(1) by (auto simp: array_ok_def)
  then have "elements a \<noteq> 0" using assms(2) by auto
  then have u: "unat (elements a - 1) = length xs - 1" using b(3) by (simp add: unat_minus_one)
  then have "i \<le> elements a - 1" using assms(2) by (simp add: word_le_nat_alt)
  then have n: "unat (elements a - 1 - i) = length xs - 1 - unat i" using u by (simp add: unat_sub)
  obtain us x vs where x: "xs = us @ x # vs" "unat i = length us" using assms(2) by (metis id_take_nth_drop length_take min.absorb4)
  let ?r = "drop (length us + length vs) (us @ x # vs @ b)"
  have "ma_delete_dynamic_element a i = Some (a\<lparr>elements := elements a - 1, da_buffer := Some ((us @ vs) @ ?r)\<rparr>)"
    using b n x by (simp add: ma_delete_dynamic_element_def Let_def)
  moreover have "array_ok (a\<lparr>elements := elements a - 1, da_buffer := Some ((us @ vs) @ ?r)\<rparr>) (us @ vs)"
    using assms b u x unfolding array_ok_def by (intro conjI exI [of _ ?r]) (simp_all add: word_le_nat_alt)
  ultimately show ?thesis using x by auto
qed

definition set_list :: "'a \<Rightarrow> 'a list \<Rightarrow> nat \<Rightarrow> 'a \<Rightarrow> 'a list" where
  "set_list zero xs i x = (if i < length xs then xs[i := x] else xs @ replicate (i - length xs) zero @ [x])"

lemma set_behind:
  assumes "array_ok a xs" and "length xs \<le> unat i" and "i < max_element a"
  shows "\<exists>b c. clear_elements zero (da_buffer a) (elements a) (i - elements a) = Some b \<and> store_element (Some b) i x = Some c
    \<and> array_ok (a\<lparr>elements := i + 1, da_buffer := Some c\<rparr>) (set_list zero xs (unat i) x)"
proof -
  obtain b where b: "da_buffer a = Some (xs @ b)" "length (xs @ b) = unat (max_element a)" "unat (elements a) = length xs"
    using assms(1) by (auto simp: array_ok_def)
  have n: "unat (i - elements a) = unat i - length xs" using assms(2) b(3) by (simp add: unat_sub word_le_nat_alt)
  have lt: "unat i < length (xs @ b)" using assms(3) b(2) by (simp add: word_less_nat_alt)
  let ?k = "unat i - length xs"
  let ?c = "xs @ replicate ?k zero @ drop ?k b"
  have c: "clear_elements zero (da_buffer a) (elements a) (i - elements a) = Some ?c"
    using b n lt assms(2) by (simp add: clear_elements_def)
  obtain y ys where y: "drop ?k b = y # ys" using lt assms(2) by (cases "drop ?k b") auto
  then have ly: "length ys = length b - ?k - 1" by (metis length_drop length_tl list.sel(3))
  have ls: "length (set_list zero xs (unat i) x) = Suc (unat i)" using assms(2) by (simp add: set_list_def)
  have "length ys + Suc (unat i) = unat (max_element a)" using ly lt b(2) assms(2) by simp
  note lys = this
  have "store_element (Some ((xs @ replicate ?k zero @ [y]) @ ys)) i x = Some ((xs @ replicate ?k zero @ [y])[unat i := x] @ ys)"
    using assms(2) by (intro store_element_ok) simp_all
  moreover have "(xs @ replicate ?k zero @ [y])[unat i := x] = set_list zero xs (unat i) x"
    using assms(2) by (simp add: set_list_def list_update_append)
  ultimately have "store_element (Some ?c) i x = Some (set_list zero xs (unat i) x @ ys)" using y by simp
  moreover have "array_ok (a\<lparr>elements := i + 1, da_buffer := Some (set_list zero xs (unat i) x @ ys)\<rparr>) (set_list zero xs (unat i) x)"
    using assms ls lys unat_suc_less [OF assms(3)] by (simp add: array_ok_def word_le_nat_alt)
  ultimately show ?thesis using c by blast
qed

lemma set_dynamic_ok:
  assumes ok: "array_ok a xs" and r: "realloc_grows realloc" and f: "fits a (unat i)"
  shows "\<exists>r a'. ma_set_dynamic realloc zero a x i = Some (r, a') \<and> array_ok a' (if r then xs else set_list zero xs (unat i) x)
    \<and> alloc_increment a' = alloc_increment a \<and> size_of_element a' = size_of_element a"
proof -
  obtain b where b: "da_buffer a = Some (xs @ b)" "length (xs @ b) = unat (max_element a)" "unat (elements a) = length xs"
    and nz: "alloc_increment a \<noteq> 0" "size_of_element a \<noteq> 0"
    using ok by (auto simp: array_ok_def)
  consider (inside) "unat i < length xs" | (behind) "length xs \<le> unat i" "i < max_element a" | (grow) "length xs \<le> unat i" "max_element a \<le> i"
    by force
  then show ?thesis
  proof cases
    case inside
    then have "store_element (da_buffer a) i x = Some (xs[unat i := x] @ b)" using b(1) by (simp add: store_element_ok)
    moreover have "array_ok (a\<lparr>da_buffer := Some (xs[unat i := x] @ b)\<rparr>) (xs[unat i := x])" using ok b by (simp add: array_ok_def)
    ultimately show ?thesis using inside b(3)
      by (intro exI [of _ False]) (simp add: ma_set_dynamic_def word_le_nat_alt not_le set_list_def)
  next
    case behind
    then show ?thesis using set_behind [OF ok behind, of zero x] b(3)
      by (intro exI [of _ False]) (auto simp: ma_set_dynamic_def word_le_nat_alt word_less_nat_alt not_le)
  next
    case grow
    let ?inc = "unat (alloc_increment a)"
    let ?s = "(i + alloc_increment a) div alloc_increment a * alloc_increment a"
    have "0 < unat (size_of_element a)" "0 < ?inc" using nz by (simp_all add: unat_gt_0)
    then have "unat i + ?inc \<le> (unat i + ?inc) * unat (size_of_element a)" by simp
    then have u: "unat (i + alloc_increment a) = unat i + ?inc" using f [unfolded fits_def] by (intro unat_plus) linarith
    have d: "(unat i + ?inc) div ?inc * ?inc \<le> unat i + ?inc" "unat i < (unat i + ?inc) div ?inc * ?inc"
      using \<open>0 < ?inc\<close> dividend_less_div_times [of ?inc "unat i"] by (simp_all add: div_add_self2)
    have m: "(unat i + ?inc) div ?inc * ?inc < 4294967296" using d(1) u uint32_lt [of "i + alloc_increment a"] by linarith
    have s: "unat ?s = (unat i + ?inc) div ?inc * ?inc"
      using m u by (subst unat_mult_lem [THEN iffD1]) (simp_all add: unat_div)
    have "unat ?s * unat (size_of_element a) \<le> (unat i + ?inc) * unat (size_of_element a)" unfolding s by (rule mult_le_mono1 [OF d(1)])
    then have rm: "room ?s (size_of_element a) = unat ?s" using f [unfolded fits_def] nz(2) by (intro room_exact) linarith
    have le: "length (xs @ b) \<le> unat i" using grow(2) b(2) by (simp add: word_le_nat_alt)
    define w where "w = ?s"
    have lt: "unat i < unat w" using d(2) s by (simp only: w_def)
    then obtain k where k: "unat w = length (xs @ b) + k" "0 < k" using that [of "unat w - length (xs @ b)"] le by simp
    show ?thesis
    proof (cases "realloc (Some (xs @ b)) (unat w)")
      case None
      then show ?thesis using ok b grow rm nz
        by (intro exI [of _ True] exI [of _ a]) (simp add: ma_set_dynamic_def word_le_nat_alt Let_def w_def)
    next
      case (Some c)
      let ?a = "a\<lparr>da_buffer := Some c, max_element := w\<rparr>"
      have c: "length c = unat w" "take (length (xs @ b)) c = xs @ b" using realloc_growsD [OF r Some [unfolded k]] k by auto
      then obtain e where e: "c = (xs @ b) @ e" by (metis append_take_drop_id)
      have "array_ok ?a xs" using ok b c e k by (simp add: array_ok_def word_le_nat_alt)
      moreover have "i < max_element ?a" using lt by (simp add: word_less_nat_alt)
      ultimately show ?thesis using set_behind [of ?a xs i zero x] grow b Some rm nz
        by (intro exI [of _ False]) (auto simp: ma_set_dynamic_def word_le_nat_alt Let_def w_def)
    qed
  qed
qed

lemma init_dynamic_array_ok:
  assumes "ma_init_dynamic_array malloc esize init inc = Some (False, a)" and "malloc_gives malloc" and "esize \<noteq> 0"
    and "alloc_increment a \<noteq> 0" and "unat (max_element a) * unat (size_of_element a) < 2 ^ 32"
  shows "array_ok a []"
proof -
  obtain b where b: "malloc (room (max_element a) esize) = Some b" "da_buffer a = Some b" "elements a = 0" "size_of_element a = esize"
    using assms(1,3) by (auto simp: ma_init_dynamic_array_def Let_def split: if_splits)
  then have "length b = unat (max_element a)" using assms(2,3,5) by (simp add: malloc_gives_def room_exact)
  then show ?thesis using b assms(3,4) by (simp add: array_ok_def)
qed

text \<open>Sequences of operations.  \<open>Remove\<close> is called with an index of the array only.\<close>

datatype 'a array_op = Push 'a | Pop | Set "32 word" 'a | Remove "32 word"

fun run_array_op :: "('a list option \<Rightarrow> nat \<Rightarrow> 'a list option) \<Rightarrow> 'a \<Rightarrow> 'a array_op \<Rightarrow> 'a DYNAMIC_ARRAY \<Rightarrow> (bool \<times> 'a DYNAMIC_ARRAY) option" where
  "run_array_op realloc zero (Push x) a = ma_insert_dynamic realloc a x"
| "run_array_op realloc zero Pop a = Some (False, snd (ma_pop_dynamic a))"
| "run_array_op realloc zero (Set i x) a = ma_set_dynamic realloc zero a x i"
| "run_array_op realloc zero (Remove i) a =
     (if i < elements a then map_option (Pair False) (ma_delete_dynamic_element a i) else Some (False, a))"

fun list_op :: "'a \<Rightarrow> 'a array_op \<Rightarrow> 'a list \<Rightarrow> 'a list" where
  "list_op zero (Push x) xs = xs @ [x]"
| "list_op zero Pop xs = butlast xs"
| "list_op zero (Set i x) xs = set_list zero xs (unat i) x"
| "list_op zero (Remove i) xs = take (unat i) xs @ drop (Suc (unat i)) xs"

fun run_array_ops :: "('a list option \<Rightarrow> nat \<Rightarrow> 'a list option) \<Rightarrow> 'a \<Rightarrow> 'a array_op list \<Rightarrow> 'a DYNAMIC_ARRAY \<Rightarrow> (bool list \<times> 'a DYNAMIC_ARRAY) option" where
  "run_array_ops realloc zero [] a = Some ([], a)"
| "run_array_ops realloc zero (p # ps) a = do {
     (r, a) \<leftarrow> run_array_op realloc zero p a;
     (rs, a) \<leftarrow> run_array_ops realloc zero ps a;
     Some (r # rs, a) }"

text \<open>The sequence that the operations that did not fail give.\<close>

fun list_ops :: "'a \<Rightarrow> ('a array_op \<times> bool) list \<Rightarrow> 'a list \<Rightarrow> 'a list" where
  "list_ops zero [] xs = xs"
| "list_ops zero ((p, r) # ps) xs = list_ops zero ps (if r then xs else list_op zero p xs)"

fun index_below :: "nat \<Rightarrow> 'a array_op \<Rightarrow> bool" where
  "index_below n (Set i x) \<longleftrightarrow> unat i < n"
| "index_below n _ \<longleftrightarrow> True"

lemma array_op_ok:
  assumes ok: "array_ok a xs" and r: "realloc_grows realloc" and n: "length xs \<le> n" "index_below n p"
    and f: "(n + unat (alloc_increment a)) * unat (size_of_element a) < 2 ^ 32"
  shows "\<exists>r a'. run_array_op realloc zero p a = Some (r, a') \<and> array_ok a' (if r then xs else list_op zero p xs)
    \<and> alloc_increment a' = alloc_increment a \<and> size_of_element a' = size_of_element a \<and> length (list_op zero p xs) \<le> Suc n"
proof -
  have fit: "fits a m" if "m \<le> n" for m
    using f that unfolding fits_def by (meson add_le_mono le_less_trans mult_le_mono1 order_refl)
  show ?thesis
  proof (cases p)
    case (Push x)
    then show ?thesis using insert_dynamic_ok [OF ok r fit [OF n(1)], of x] n(1) by fastforce
  next
    case Pop
    obtain r a' where "ma_pop_dynamic a = (r, a')" by (cases "ma_pop_dynamic a")
    then show ?thesis using pop_dynamic_ok [OF ok] n(1) Pop by (intro exI [of _ False] exI [of _ a']) simp
  next
    case (Set i x)
    then have "unat i < n" using n(2) by simp
    then have "length (set_list zero xs (unat i) x) \<le> Suc n" using n(1) by (simp add: set_list_def)
    moreover have "fits a (unat i)" using \<open>unat i < n\<close> by (intro fit) simp
    ultimately show ?thesis using set_dynamic_ok [OF ok r, of i zero x] unfolding Set run_array_op.simps list_op.simps by blast
  next
    case (Remove i)
    have e: "i < elements a \<longleftrightarrow> unat i < length xs" using ok by (simp add: array_ok_def word_less_nat_alt)
    show ?thesis
    proof (cases "i < elements a")
      case True
      then show ?thesis using delete_dynamic_element_ok [OF ok, of i] e Remove n(1) by (intro exI [of _ False]) auto
    next
      case False
      then show ?thesis using ok e Remove n(1) by (intro exI [of _ False]) simp
    qed
  qed
qed

lemma array_ops_ok:
  assumes "array_ok a xs" and "realloc_grows realloc" and "length xs \<le> n" and "list_all (index_below n) ps"
    and "(n + length ps + unat (alloc_increment a)) * unat (size_of_element a) < 2 ^ 32"
  shows "\<exists>rs a'. run_array_ops realloc zero ps a = Some (rs, a') \<and> length rs = length ps
    \<and> array_ok a' (list_ops zero (zip ps rs) xs)"
  using assms
proof (induction ps arbitrary: a xs n)
  case (Cons p ps)
  have "(n + unat (alloc_increment a)) * unat (size_of_element a) \<le> (n + length (p # ps) + unat (alloc_increment a)) * unat (size_of_element a)"
    by (intro mult_le_mono1) simp
  then have "(n + unat (alloc_increment a)) * unat (size_of_element a) < 2 ^ 32" using Cons.prems(5) by linarith
  then obtain r a' where a': "run_array_op realloc zero p a = Some (r, a')" "array_ok a' (if r then xs else list_op zero p xs)"
    "alloc_increment a' = alloc_increment a" "size_of_element a' = size_of_element a" "length (list_op zero p xs) \<le> Suc n"
    using array_op_ok [OF Cons.prems(1-3), of p zero] Cons.prems(4) by auto
  have "index_below n q \<Longrightarrow> index_below (Suc n) q" for q :: "'a array_op" by (cases q) auto
  then have "list_all (index_below (Suc n)) ps" using Cons.prems(4) by (auto elim: list.pred_mono_strong)
  moreover have "length (if r then xs else list_op zero p xs) \<le> Suc n" using a'(5) Cons.prems(3) by simp
  ultimately obtain rs a'' where "run_array_ops realloc zero ps a' = Some (rs, a'')" "length rs = length ps"
    "array_ok a'' (list_ops zero (zip ps rs) (if r then xs else list_op zero p xs))"
    using Cons.IH [OF a'(2) Cons.prems(2), of "Suc n"] Cons.prems(5) a'(3,4) by auto
  then show ?case using a'(1) by (intro exI [of _ "r # rs"] exI [of _ a'']) simp
qed simp

text \<open>C5: an array is the sequence of what was put into it.  From a fresh array, any sequence of \<^verbatim>\<open>ma_insert_dynamic\<close>, \<^verbatim>\<open>ma_pop_dynamic\<close>,
  \<^verbatim>\<open>ma_set_dynamic\<close> (also behind the end, which fills up with zeros) and \<^verbatim>\<open>ma_delete_dynamic_element\<close> stays inside the block, and
  \<^verbatim>\<open>ma_get_dynamic\<close> then gives the elements of the list that the same operations make; an operation that gets no memory
  reports it and changes nothing.  The sizes in bytes must stay below 2 to the 32.\<close>

theorem array_refines_list:
  assumes "ma_init_dynamic_array malloc esize init inc = Some (False, a)" and "malloc_gives malloc" and "realloc_grows realloc"
    and "esize \<noteq> 0" and "alloc_increment a \<noteq> 0" and "unat (max_element a) * unat esize < 2 ^ 32"
    and "list_all (index_below n) ps" and "(n + length ps + unat (alloc_increment a)) * unat esize < 2 ^ 32"
  shows "\<exists>rs a'. run_array_ops realloc zero ps a = Some (rs, a') \<and> length rs = length ps
    \<and> (let xs = list_ops zero (zip ps rs) [] in unat (elements a') = length xs
        \<and> (\<forall>i. ma_get_dynamic zero a' i = Some (if unat i < length xs then xs ! unat i else zero)))"
proof -
  have e: "size_of_element a = esize" using assms(1) by (auto simp: ma_init_dynamic_array_def Let_def split: if_splits)
  have "array_ok a []" by (rule init_dynamic_array_ok [OF assms(1,2,4,5)]) (use e assms(6) in simp)
  then obtain rs a' where r: "run_array_ops realloc zero ps a = Some (rs, a')" "length rs = length ps" "array_ok a' (list_ops zero (zip ps rs) [])"
    using array_ops_ok [OF _ assms(3) _ assms(7), of a "[]" zero] assms(8) e by auto
  then show ?thesis using get_dynamic_ok [OF r(3), of zero] by (auto simp: Let_def array_ok_def)
qed

theorem array_refines_list_witness:
  "\<exists>a a' rs. ma_init_dynamic_array (\<lambda>n. Some (replicate n 0)) 8 1 2 = Some (False, a)
    \<and> run_array_ops (\<lambda>b n. Some (take n (the b @ replicate n 0))) 0 [Push (5 :: nat), Push 6, Set 5 7, Remove 0, Pop] a = Some (rs, a')
    \<and> rs = replicate 5 False \<and> ma_get_dynamic 0 a' 0 = Some 6 \<and> unat (elements a') = 4"
proof -
  let ?a = "\<lparr>da_buffer = Some [0], elements = 0, max_element = 1, alloc_increment = 2, size_of_element = 8\<rparr> :: nat DYNAMIC_ARRAY"
  let ?ps = "[Push (5 :: nat), Push 6, Set 5 7, Remove 0, Pop]" and ?r = "\<lambda>b n. Some (take n (the b @ replicate n (0 :: nat)))"
  have i: "ma_init_dynamic_array (\<lambda>n. Some (replicate n 0)) 8 1 2 = Some (False, ?a)"
    by (simp add: ma_init_dynamic_array_def room_def)
  have "realloc_grows ?r" by (auto simp: realloc_grows_def min_def)
  then obtain rs a' where r: "run_array_ops ?r 0 ?ps ?a = Some (rs, a')"
    and g: "let xs = list_ops 0 (zip ?ps rs) [] in unat (elements a') = length xs
        \<and> (\<forall>i. ma_get_dynamic 0 a' i = Some (if unat i < length xs then xs ! unat i else 0))"
    using array_refines_list [OF i, of ?r 6 ?ps 0] by (auto simp: malloc_gives_def)
  have "map_option fst (run_array_ops ?r 0 ?ps ?a) = Some (replicate 5 False)" by code_simp
  then have rs: "rs = replicate 5 False" using r by (simp del: run_array_ops.simps)
  have "list_ops 0 (zip ?ps (replicate 5 False)) [] = [6, 0, 0, 0]" by code_simp
  then have "ma_get_dynamic 0 a' 0 = Some 6" "unat (elements a') = 4" using g by (simp_all only: rs Let_def) simp_all
  with i r rs show ?thesis by blast
qed

end
