(* ===== verification/MaHash.thy ===== *)
theory MaHash
  imports MaArray "HOL-Library.Multiset"
begin

unbundle bit_operations_syntax

section \<open>The hash index (libmariadb/ma_hash.c, include/ma_hash.h)\<close>

text \<open>
  Linear hashing over one array of links.  A record is a value of type \<open>'r\<close>, the pointer that the code keeps; \<open>obj\<close> gives
  the bytes of the object it points to and \<^verbatim>\<open>get_key\<close> the bytes of its key.  A pointer to a link is its index.  \<open>None\<close> as the
  result means an access outside the array or the key, or a loop that does not end.
\<close>

abbreviation (input) NO_RECORD :: "32 word" where "NO_RECORD \<equiv> - 1"

record 'r OB_HASH_LINK =
  lnk_next :: "32 word"
  lnk_data :: 'r

datatype hash_fun = CalcHashnr | CalcHashnrCaseup

record 'r OB_HASH =
  key_offset :: "32 word"
  key_length :: "32 word"
  records :: "32 word"
  blength :: "32 word"
  current_record :: "32 word"
  hs_flags :: "32 word"
  hs_array :: "'r OB_HASH_LINK DYNAMIC_ARRAY"
  get_key :: "('r \<Rightarrow> mem) option"
  hs_free :: bool
  hs_calc_hashnr :: hash_fun

subsection \<open>Hash numbers and keys\<close>

fun hashnr_loop :: "(byte \<Rightarrow> byte) \<Rightarrow> 32 word \<Rightarrow> 32 word \<Rightarrow> mem \<Rightarrow> 32 word" where
  "hashnr_loop f nr nr2 [] = nr"
| "hashnr_loop f nr nr2 (c # key) =
     hashnr_loop f (nr XOR (((nr AND 63) + nr2) * ucast (f c) + push_bit 8 nr)) (nr2 + 3) key"

definition calc_hashnr :: "mem \<Rightarrow> 32 word" where
  "calc_hashnr key = hashnr_loop (\<lambda>c. c) 1 4 key"

definition c_toupper :: "byte \<Rightarrow> byte" where
  "c_toupper c = (if 97 \<le> c \<and> c \<le> 122 then c - 32 else c)"

definition calc_hashnr_caseup :: "mem \<Rightarrow> 32 word" where
  "calc_hashnr_caseup key = hashnr_loop c_toupper 1 4 key"

definition hashnr :: "('r, 'x) OB_HASH_scheme \<Rightarrow> mem \<Rightarrow> 32 word" where
  "hashnr hash key = (case hs_calc_hashnr hash of CalcHashnr \<Rightarrow> calc_hashnr key | CalcHashnrCaseup \<Rightarrow> calc_hashnr_caseup key)"

definition hash_key :: "('r \<Rightarrow> mem) \<Rightarrow> ('r, 'x) OB_HASH_scheme \<Rightarrow> 'r \<Rightarrow> mem option" where
  "hash_key obj hash record = (case get_key hash of
     Some f \<Rightarrow> Some (f record)
   | None \<Rightarrow> load_bytes (obj record) (uint (key_offset hash)) (unat (key_length hash)))"

definition hash_mask :: "32 word \<Rightarrow> 32 word \<Rightarrow> 32 word \<Rightarrow> 32 word" where
  "hash_mask nr buffmax maxlength =
     (if nr AND (buffmax - 1) < maxlength then nr AND (buffmax - 1) else nr AND (drop_bit 1 buffmax - 1))"

definition rec_hashnr :: "('r \<Rightarrow> mem) \<Rightarrow> ('r, 'x) OB_HASH_scheme \<Rightarrow> 'r \<Rightarrow> 32 word option" where
  "rec_hashnr obj hash record = map_option (hashnr hash) (hash_key obj hash record)"

definition hash_rec_mask ::
  "('r \<Rightarrow> mem) \<Rightarrow> ('r, 'x) OB_HASH_scheme \<Rightarrow> 'r OB_HASH_LINK \<Rightarrow> 32 word \<Rightarrow> 32 word \<Rightarrow> 32 word option" where
  "hash_rec_mask obj hash pos buffmax maxlength =
     map_option (\<lambda>key. hash_mask (hashnr hash key) buffmax maxlength) (hash_key obj hash (lnk_data pos))"

text \<open>\<open>True\<close> when the keys differ.\<close>

definition hashcmp :: "('r \<Rightarrow> mem) \<Rightarrow> ('r, 'x) OB_HASH_scheme \<Rightarrow> 'r OB_HASH_LINK \<Rightarrow> mem \<Rightarrow> 32 word \<Rightarrow> bool option" where
  "hashcmp obj hash pos key len = do {
     rec_key \<leftarrow> hash_key obj hash (lnk_data pos);
     if len \<noteq> 0 \<and> unat len \<noteq> length rec_key then Some True
     else do {
       k \<leftarrow> load_bytes key 0 (length rec_key);
       Some (rec_key \<noteq> k) } }"

subsection \<open>Initialisation and end\<close>

definition hash_init ::
  "(nat \<Rightarrow> 'r OB_HASH_LINK list option) \<Rightarrow> 32 word \<Rightarrow> 32 word \<Rightarrow> 32 word \<Rightarrow> ('r \<Rightarrow> mem) option \<Rightarrow> bool \<Rightarrow> 32 word
   \<Rightarrow> 'r OB_HASH \<Rightarrow> (bool \<times> 'r OB_HASH) option" where
  "hash_init malloc sz offset len getkey free_element flgs hash = do {
     (fail, a) \<leftarrow> ma_init_dynamic_array malloc 16 sz 0;
     let hash = hash\<lparr>records := 0, hs_array := a\<rparr>;
     Some (if fail then (True, hash\<lparr>hs_free := False\<rparr>)
       else (False, hash\<lparr>key_offset := offset, key_length := len, blength := 1, current_record := NO_RECORD,
              get_key := getkey, hs_free := free_element, hs_flags := flgs,
              hs_calc_hashnr := if bit flgs 0 then CalcHashnrCaseup else CalcHashnr\<rparr>)) }"

text \<open>\<^verbatim>\<open>hash_free\<close> also returns the records that it passed to the free function.\<close>

definition hash_free :: "'r OB_HASH \<Rightarrow> ('r list \<times> 'r OB_HASH) option" where
  "hash_free hash = do {
     rs \<leftarrow> (if hs_free hash then do {
         data \<leftarrow> (case da_buffer (hs_array hash) of None \<Rightarrow> if records hash = 0 then Some [] else None | Some d \<Rightarrow> Some d);
         if unat (records hash) \<le> length data then Some (map lnk_data (take (unat (records hash)) data)) else None }
       else Some []);
     Some (rs, hash\<lparr>hs_free := False, hs_array := snd (ma_delete_dynamic (hs_array hash)), records := 0\<rparr>) }"

subsection \<open>Search\<close>

definition link_at :: "'r OB_HASH_LINK list \<Rightarrow> 32 word \<Rightarrow> 'r OB_HASH_LINK option" where
  "link_at data i = (if unat i < length data then Some (data ! unat i) else None)"

definition set_link :: "'r OB_HASH_LINK list \<Rightarrow> 32 word \<Rightarrow> 'r OB_HASH_LINK \<Rightarrow> 'r OB_HASH_LINK list option" where
  "set_link data i l = (if unat i < length data then Some (data[unat i := l]) else None)"

partial_function (option) search_loop ::
  "('r \<Rightarrow> mem) \<Rightarrow> 'r OB_HASH \<Rightarrow> 'r OB_HASH_LINK list \<Rightarrow> mem \<Rightarrow> 32 word \<Rightarrow> bool \<Rightarrow> 32 word \<Rightarrow> (32 word \<times> 'r) option option" where
  "search_loop obj hash data key len first idx = do {
     pos \<leftarrow> link_at data idx;
     differs \<leftarrow> hashcmp obj hash pos key len;
     if \<not> differs then Some (Some (idx, lnk_data pos))
     else do {
       wrong \<leftarrow> (if first then map_option (\<lambda>i. i \<noteq> idx) (hash_rec_mask obj hash pos (blength hash) (records hash)) else Some False);
       if wrong then Some None
       else if lnk_next pos \<noteq> NO_RECORD then search_loop obj hash data key len False (lnk_next pos)
       else Some None } }"

definition hash_search ::
  "('r \<Rightarrow> mem) \<Rightarrow> 'r OB_HASH \<Rightarrow> mem \<Rightarrow> 32 word \<Rightarrow> ('r option \<times> 'r OB_HASH) option" where
  "hash_search obj hash key len =
     (if records hash \<noteq> 0 then do {
        k \<leftarrow> load_bytes key 0 (unat (if len \<noteq> 0 then len else key_length hash));
        data \<leftarrow> da_buffer (hs_array hash);
        r \<leftarrow> search_loop obj hash data key len True (hash_mask (hashnr hash k) (blength hash) (records hash));
        Some (case r of
                Some (idx, d) \<Rightarrow> (Some d, hash\<lparr>current_record := idx\<rparr>)
              | None \<Rightarrow> (None, hash\<lparr>current_record := NO_RECORD\<rparr>)) }
      else Some (None, hash\<lparr>current_record := NO_RECORD\<rparr>))"

partial_function (option) next_loop ::
  "('r \<Rightarrow> mem) \<Rightarrow> 'r OB_HASH \<Rightarrow> 'r OB_HASH_LINK list \<Rightarrow> mem \<Rightarrow> 32 word \<Rightarrow> 32 word \<Rightarrow> (32 word \<times> 'r) option option" where
  "next_loop obj hash data key len idx =
     (if idx = NO_RECORD then Some None
      else do {
        pos \<leftarrow> link_at data idx;
        differs \<leftarrow> hashcmp obj hash pos key len;
        if \<not> differs then Some (Some (idx, lnk_data pos))
        else next_loop obj hash data key len (lnk_next pos) })"

definition hash_next ::
  "('r \<Rightarrow> mem) \<Rightarrow> 'r OB_HASH \<Rightarrow> mem \<Rightarrow> 32 word \<Rightarrow> ('r option \<times> 'r OB_HASH) option" where
  "hash_next obj hash key len =
     (if current_record hash \<noteq> NO_RECORD then do {
        data \<leftarrow> da_buffer (hs_array hash);
        cur \<leftarrow> link_at data (current_record hash);
        r \<leftarrow> next_loop obj hash data key len (lnk_next cur);
        Some (case r of
                Some (idx, d) \<Rightarrow> (Some d, hash\<lparr>current_record := idx\<rparr>)
              | None \<Rightarrow> (None, hash\<lparr>current_record := NO_RECORD\<rparr>)) }
      else Some (None, hash))"

definition hash_element :: "'r OB_HASH \<Rightarrow> 32 word \<Rightarrow> 'r option option" where
  "hash_element hash idx =
     (if idx < records hash then map_option (\<lambda>l. Some (lnk_data l)) (dynamic_element (hs_array hash) idx) else Some None)"

subsection \<open>Insertion\<close>

partial_function (option) movelink ::
  "'r OB_HASH_LINK list \<Rightarrow> 32 word \<Rightarrow> 32 word \<Rightarrow> 32 word \<Rightarrow> 'r OB_HASH_LINK list option" where
  "movelink array target next_link newlink = do {
     old_link \<leftarrow> link_at array next_link;
     if lnk_next old_link \<noteq> target then movelink array target (lnk_next old_link) newlink
     else set_link array next_link (old_link\<lparr>lnk_next := newlink\<rparr>) }"

text \<open>
  The state of the loop that splits a chain.  The bits of \<^verbatim>\<open>flag\<close> are four booleans; \<^verbatim>\<open>gpos\<close>, \<^verbatim>\<open>ptr_to_rec\<close> and their
  partners are not set before the first record of their kind.
\<close>

record 'r split_state =
  ss_data :: "'r OB_HASH_LINK list"
  lowfind :: bool
  lowused :: bool
  highfind :: bool
  highused :: bool
  gpos :: "(32 word \<times> 'r) option"
  gpos2 :: "(32 word \<times> 'r) option"
  ss_empty :: "32 word"

definition write_pos :: "(32 word \<times> 'r) option \<Rightarrow> 32 word \<Rightarrow> 'r OB_HASH_LINK list \<Rightarrow> 'r OB_HASH_LINK list option" where
  "write_pos g n data = do {
     (i, r) \<leftarrow> g;
     set_link data i \<lparr>lnk_next = n, lnk_data = r\<rparr> }"

definition split_step :: "bool \<Rightarrow> 32 word \<Rightarrow> 'r OB_HASH_LINK \<Rightarrow> 'r split_state \<Rightarrow> 'r split_state option" where
  "split_step high idx pos s =
     (if \<not> high then
        if \<not> lowfind s then
          if highfind s
          then Some (s\<lparr>lowfind := True, lowused := False, highused := False, gpos := Some (ss_empty s, lnk_data pos), ss_empty := idx\<rparr>)
          else Some (s\<lparr>lowfind := True, lowused := True, highused := False, gpos := Some (idx, lnk_data pos)\<rparr>)
        else do {
          s \<leftarrow> (if \<not> lowused s then do {
                 d \<leftarrow> write_pos (gpos s) idx (ss_data s);
                 Some (s\<lparr>ss_data := d, lowused := True, highused := False\<rparr>) }
               else Some s);
          pos \<leftarrow> link_at (ss_data s) idx;
          Some (s\<lparr>gpos := Some (idx, lnk_data pos)\<rparr>) }
      else
        if \<not> highfind s then
          Some (s\<lparr>highfind := True, lowused := False, highused := False, gpos2 := Some (ss_empty s, lnk_data pos), ss_empty := idx\<rparr>)
        else do {
          s \<leftarrow> (if \<not> highused s then do {
                 d \<leftarrow> write_pos (gpos2 s) idx (ss_data s);
                 Some (s\<lparr>ss_data := d, lowused := False, highused := True\<rparr>) }
               else Some s);
          pos \<leftarrow> link_at (ss_data s) idx;
          Some (s\<lparr>gpos2 := Some (idx, lnk_data pos)\<rparr>) })"

partial_function (option) split_loop ::
  "('r \<Rightarrow> mem) \<Rightarrow> 'r OB_HASH \<Rightarrow> 32 word \<Rightarrow> bool \<Rightarrow> 32 word \<Rightarrow> 'r split_state \<Rightarrow> 'r split_state option" where
  "split_loop obj info halfbuff first idx s = do {
     pos \<leftarrow> link_at (ss_data s) idx;
     nr \<leftarrow> rec_hashnr obj info (lnk_data pos);
     if first \<and> hash_mask nr (blength info) (records info) \<noteq> idx then Some s
     else do {
       s \<leftarrow> split_step (nr AND halfbuff \<noteq> 0) idx pos s;
       pos \<leftarrow> link_at (ss_data s) idx;
       if lnk_next pos \<noteq> NO_RECORD then split_loop obj info halfbuff False (lnk_next pos) s
       else Some s } }"

definition split_end :: "'r split_state \<Rightarrow> 'r split_state option" where
  "split_end s = do {
     d \<leftarrow> (if lowfind s \<and> \<not> lowused s then write_pos (gpos s) NO_RECORD (ss_data s) else Some (ss_data s));
     d \<leftarrow> (if highfind s \<and> \<not> highused s then write_pos (gpos2 s) NO_RECORD d else Some d);
     Some (s\<lparr>ss_data := d\<rparr>) }"

definition split_chain :: "('r \<Rightarrow> mem) \<Rightarrow> 'r OB_HASH \<Rightarrow> 'r OB_HASH_LINK list \<Rightarrow> 32 word \<Rightarrow> ('r OB_HASH_LINK list \<times> 32 word) option" where
  "split_chain obj info data free_pos = do {
     let halfbuff = drop_bit 1 (blength info);
     let idx = records info - halfbuff;
     if idx \<noteq> records info then do {
       s \<leftarrow> split_loop obj info halfbuff True idx
              \<lparr>ss_data = data, lowfind = False, lowused = False, highfind = False, highused = False,
               gpos = None, gpos2 = None, ss_empty = free_pos\<rparr>;
       s \<leftarrow> split_end s;
       Some (ss_data s, ss_empty s) }
     else Some (data, free_pos) }"

definition place_record ::
  "('r \<Rightarrow> mem) \<Rightarrow> 'r OB_HASH \<Rightarrow> 'r \<Rightarrow> 'r OB_HASH_LINK list \<Rightarrow> 32 word \<Rightarrow> 'r OB_HASH_LINK list option" where
  "place_record obj info record data free_pos = do {
     nr \<leftarrow> rec_hashnr obj info record;
     let idx = hash_mask nr (blength info) (records info + 1);
     pos \<leftarrow> link_at data idx;
     if idx = free_pos then set_link data idx \<lparr>lnk_next = NO_RECORD, lnk_data = record\<rparr>
     else do {
       data \<leftarrow> set_link data free_pos pos;
       g \<leftarrow> hash_rec_mask obj info pos (blength info) (records info + 1);
       if idx = g then set_link data idx \<lparr>lnk_next = free_pos, lnk_data = record\<rparr>
       else do {
         data \<leftarrow> set_link data idx \<lparr>lnk_next = NO_RECORD, lnk_data = record\<rparr>;
         movelink data idx g free_pos } } }"

definition hash_insert ::
  "('r OB_HASH_LINK list option \<Rightarrow> nat \<Rightarrow> 'r OB_HASH_LINK list option) \<Rightarrow> ('r \<Rightarrow> mem) \<Rightarrow> 'r OB_HASH \<Rightarrow> 'r
   \<Rightarrow> (bool \<times> 'r OB_HASH) option" where
  "hash_insert realloc obj info record =
     (case ma_alloc_dynamic realloc (hs_array info) of
        (None, a) \<Rightarrow> Some (True, info\<lparr>hs_array := a\<rparr>)
      | (Some free_pos, a) \<Rightarrow> do {
          let info = info\<lparr>hs_array := a, current_record := NO_RECORD\<rparr>;
          data \<leftarrow> da_buffer a;
          (data, free_pos) \<leftarrow> split_chain obj info data free_pos;
          data \<leftarrow> place_record obj info record data free_pos;
          let info = info\<lparr>hs_array := a\<lparr>da_buffer := Some data\<rparr>, records := records info + 1\<rparr>;
          Some (False, if records info = blength info then info\<lparr>blength := blength info + blength info\<rparr> else info) })"

subsection \<open>Deletion and update\<close>

partial_function (option) find_record ::
  "'r OB_HASH_LINK list \<Rightarrow> 'r \<Rightarrow> 32 word option \<Rightarrow> 32 word \<Rightarrow> (32 word option \<times> 32 word) option option" where
  "find_record data record prev pos = do {
     l \<leftarrow> link_at data pos;
     if lnk_data l \<noteq> record then
       if lnk_next l = NO_RECORD then Some None else find_record data record (Some pos) (lnk_next l)
     else Some (Some (prev, pos)) }"

text \<open>Unlinking gives the array and the position that is free afterwards.\<close>

definition unlink :: "'r OB_HASH_LINK list \<Rightarrow> 32 word option \<Rightarrow> 32 word \<Rightarrow> ('r OB_HASH_LINK list \<times> 32 word) option" where
  "unlink data prev pos = do {
     l \<leftarrow> link_at data pos;
     (case prev of
        Some g \<Rightarrow> do {
          k \<leftarrow> link_at data g;
          data \<leftarrow> set_link data g (k\<lparr>lnk_next := lnk_next l\<rparr>);
          Some (data, pos) }
      | None \<Rightarrow>
          if lnk_next l \<noteq> NO_RECORD then do {
            k \<leftarrow> link_at data (lnk_next l);
            data \<leftarrow> set_link data pos k;
            Some (data, lnk_next l) }
          else Some (data, pos)) }"

text \<open>Moving the last link into the free position; \<open>blen\<close> is \<^verbatim>\<open>blength\<close> before the deletion.\<close>

definition move_last ::
  "('r \<Rightarrow> mem) \<Rightarrow> 'r OB_HASH \<Rightarrow> 32 word \<Rightarrow> 'r OB_HASH_LINK list \<Rightarrow> 32 word \<Rightarrow> 'r OB_HASH_LINK list option" where
  "move_last obj hash blen data free_pos = do {
     let lastpos = records hash;
     if free_pos = lastpos then Some data
     else do {
       l \<leftarrow> link_at data lastpos;
       lastpos_hashnr \<leftarrow> rec_hashnr obj hash (lnk_data l);
       let pos = hash_mask lastpos_hashnr (blength hash) (records hash);
       if pos = free_pos then set_link data free_pos l
       else do {
         p \<leftarrow> link_at data pos;
         pos_hashnr \<leftarrow> rec_hashnr obj hash (lnk_data p);
         let pos3 = hash_mask pos_hashnr (blength hash) (records hash);
         if pos \<noteq> pos3 then do {
           data \<leftarrow> set_link data free_pos p;
           data \<leftarrow> set_link data pos l;
           movelink data pos pos3 free_pos }
         else do {
           let pos2 = hash_mask lastpos_hashnr blen (records hash + 1);
           let same = (pos2 = hash_mask pos_hashnr blen (records hash + 1));
           data \<leftarrow> set_link data free_pos l;
           if same \<and> pos2 \<noteq> records hash then movelink data lastpos pos free_pos
           else do {
             p \<leftarrow> link_at data pos;
             data \<leftarrow> movelink data (if same then pos else NO_RECORD) free_pos (lnk_next p);
             p \<leftarrow> link_at data pos;
             set_link data pos (p\<lparr>lnk_next := free_pos\<rparr>) } } } } }"

text \<open>\<^verbatim>\<open>hash_delete\<close> also tells whether the record was passed to the free function.\<close>

definition hash_delete :: "('r \<Rightarrow> mem) \<Rightarrow> 'r OB_HASH \<Rightarrow> 'r \<Rightarrow> (bool \<times> bool \<times> 'r OB_HASH) option" where
  "hash_delete obj hash record =
     (if records hash = 0 then Some (True, False, hash)
      else do {
        data \<leftarrow> da_buffer (hs_array hash);
        nr \<leftarrow> rec_hashnr obj hash record;
        r \<leftarrow> find_record data record None (hash_mask nr (blength hash) (records hash));
        (case r of
           None \<Rightarrow> Some (True, False, hash)
         | Some (prev, pos) \<Rightarrow> do {
             let blen = blength hash;
             let hash = hash\<lparr>records := records hash - 1\<rparr>;
             let hash = (if records hash < drop_bit 1 (blength hash) then hash\<lparr>blength := drop_bit 1 (blength hash)\<rparr> else hash);
             let hash = hash\<lparr>current_record := NO_RECORD\<rparr>;
             (data, free_pos) \<leftarrow> unlink data prev pos;
             data \<leftarrow> move_last obj hash blen data free_pos;
             let a = snd (ma_pop_dynamic ((hs_array hash)\<lparr>da_buffer := Some data\<rparr>));
             Some (False, hs_free hash, hash\<lparr>hs_array := a\<rparr>) }) })"

text \<open>The end of \<^verbatim>\<open>hash_update\<close>: the link of the record goes into the chain of its new place.\<close>

definition relink ::
  "'r OB_HASH_LINK list \<Rightarrow> 'r OB_HASH_LINK \<Rightarrow> 32 word \<Rightarrow> 32 word \<Rightarrow> 32 word \<Rightarrow> 'r OB_HASH_LINK list option" where
  "relink data org_link free_pos new_index new_pos_index = do {
     pos \<leftarrow> link_at data new_index;
     if new_index \<noteq> new_pos_index then do {
       data \<leftarrow> set_link data free_pos pos;
       data \<leftarrow> movelink data new_index new_pos_index free_pos;
       set_link data new_index (org_link\<lparr>lnk_next := NO_RECORD\<rparr>) }
     else do {
       data \<leftarrow> set_link data free_pos (org_link\<lparr>lnk_next := lnk_next pos\<rparr>);
       pos \<leftarrow> link_at data new_index;
       set_link data new_index (pos\<lparr>lnk_next := free_pos\<rparr>) } }"

definition hash_update ::
  "('r \<Rightarrow> mem) \<Rightarrow> 'r OB_HASH \<Rightarrow> 'r \<Rightarrow> mem \<Rightarrow> 32 word \<Rightarrow> (bool \<times> 'r OB_HASH) option" where
  "hash_update obj hash record old_key old_key_length = do {
     k \<leftarrow> load_bytes old_key 0 (unat (if old_key_length \<noteq> 0 then old_key_length else key_length hash));
     let idx = hash_mask (hashnr hash k) (blength hash) (records hash);
     nr \<leftarrow> rec_hashnr obj hash record;
     let new_index = hash_mask nr (blength hash) (records hash);
     if idx = new_index then Some (False, hash)
     else do {
       data \<leftarrow> da_buffer (hs_array hash);
       r \<leftarrow> find_record data record None idx;
       (case r of
          None \<Rightarrow> Some (True, hash)
        | Some (previous, idx) \<Rightarrow> do {
            let hash = hash\<lparr>current_record := NO_RECORD\<rparr>;
            org_link \<leftarrow> link_at data idx;
            (data, free_pos) \<leftarrow> unlink data previous idx;
            pos \<leftarrow> link_at data new_index;
            new_pos_index \<leftarrow> hash_rec_mask obj hash pos (blength hash) (records hash);
            data \<leftarrow> relink data org_link free_pos new_index new_pos_index;
            Some (False, hash\<lparr>hs_array := (hs_array hash)\<lparr>da_buffer := Some data\<rparr>\<rparr>) }) } }"

subsection \<open>Buckets\<close>

text \<open>The bucket of a hash number in an index with \<open>n\<close> places and \<open>b\<close> the power of two above.\<close>

definition bucket :: "nat \<Rightarrow> nat \<Rightarrow> nat \<Rightarrow> nat" where
  "bucket b n h = (if h mod b < n then h mod b else h mod (b div 2))"

definition geometry :: "nat \<Rightarrow> nat \<Rightarrow> bool" where
  "geometry b n \<longleftrightarrow> (\<exists>k. b = 2 ^ k) \<and> b div 2 \<le> n \<and> n < b \<and> b < 2 ^ 32"

lemma unat_and_mask: "k \<le> 32 \<Longrightarrow> unat ((x :: 32 word) AND (word_of_nat (2 ^ k) - 1)) = unat x mod 2 ^ k"
proof -
  assume "k \<le> 32"
  have "word_of_nat (2 ^ k) - 1 = (mask k :: 32 word)" by (simp add: mask_eq_exp_minus_1)
  then have "unat (x AND (word_of_nat (2 ^ k) - 1)) = take_bit k (unat x)"
    by (simp add: take_bit_eq_mask [symmetric] unsigned_take_bit_eq)
  then show ?thesis by (simp only: take_bit_eq_mod)
qed

lemma unat_word32: "n < 2 ^ 32 \<Longrightarrow> unat (word_of_nat n :: 32 word) = n"
  by (simp add: unsigned_of_nat take_bit_nat_eq_self)

lemma hash_mask_bucket:
  assumes "b = 2 ^ k" and "b < 2 ^ 32" and "0 < n" and "n < 2 ^ 32"
  shows "unat (hash_mask h (word_of_nat b) (word_of_nat n)) = bucket b n (unat h)"
proof -
  have k: "k < 32" using assms(1,2) by (metis power_less_imp_less_exp one_less_numeral_iff semiring_norm(76))
  have a: "unat (h AND (word_of_nat b - 1)) = unat h mod b" using k assms(1) by (simp only: unat_and_mask)
  have n: "unat (word_of_nat n :: 32 word) = n" using assms(4) by (rule unat_word32)
  have lt: "h AND (word_of_nat b - 1) < word_of_nat n \<longleftrightarrow> unat h mod b < n" using a n by (simp add: word_less_nat_alt)
  have d: "unat (h AND (drop_bit 1 (word_of_nat b) - 1)) = unat h mod (b div 2)" if "\<not> unat h mod b < n"
  proof -
    have "b \<noteq> 1" using that assms(3) by (cases n) auto
    then obtain j where j: "k = Suc j" using assms(1) by (cases k) auto
    have "drop_bit 1 (word_of_nat b :: 32 word) = word_of_nat (b div 2)"
      using assms(2) by (intro word_unat_eq_iff [THEN iffD2]) (simp add: drop_bit_eq_div unat_div unat_word32)
    also have "b div 2 = 2 ^ j" using j assms(1) by simp
    finally show ?thesis using unat_and_mask [of j h] j k assms(1) by simp
  qed
  show ?thesis unfolding hash_mask_def lt bucket_def using a d by simp
qed

lemma geometry_half: "geometry b n \<Longrightarrow> 0 < n \<Longrightarrow> \<exists>k. b = 2 ^ Suc k"
  unfolding geometry_def by (metis Suc_pred less_one neq0_conv not_less_iff_gr_or_eq power_0)

lemma bucket_less: "geometry b n \<Longrightarrow> 0 < n \<Longrightarrow> bucket b n h < n"
proof -
  assume g: "geometry b n" "0 < n"
  then obtain k where "b = 2 ^ Suc k" using geometry_half by blast
  then have "h mod (b div 2) < b div 2" by simp
  then show ?thesis using g by (auto simp: bucket_def geometry_def)
qed

text \<open>One place more: the bucket \<open>n - b div 2\<close> is split, its records with the bit \<open>b div 2\<close> set go to the new bucket.\<close>

lemma bucket_split:
  assumes "geometry b n" and "0 < n"
  shows "bucket b (Suc n) h = (if bucket b n h = n - b div 2 \<and> odd (h div (b div 2)) then n else bucket b n h)"
proof -
  obtain k where b: "b = 2 ^ Suc k" using geometry_half assms by blast
  define c where "c = b div 2"
  have c: "b = 2 * c" "0 < c" "c \<le> n" "n < 2 * c" using b assms(1) by (auto simp: c_def geometry_def)
  have h: "h mod (2 * c) = (if odd (h div c) then c else 0) + h mod c"
    using mod_mult2_eq [of h c 2] by (simp add: mult.commute odd_iff_mod_2_eq_one)
  have m: "h mod c < c" using c(2) by simp
  show ?thesis unfolding bucket_def c_def [symmetric] unfolding c(1) h using c(2-4) m by auto
qed

lemma bit_half:
  assumes "b = 2 ^ Suc k" and "k < 32"
  shows "(x :: 32 word) AND word_of_nat (b div 2) \<noteq> 0 \<longleftrightarrow> odd (unat x div (b div 2))"
proof -
  have "x AND word_of_nat (2 ^ k) \<noteq> 0 \<longleftrightarrow> bit x k"
    by (simp add: and_exp_eq_0_iff_not_bit)
  also have "bit x k \<longleftrightarrow> bit (unat x) k" using assms(2) by (simp add: bit_unsigned_iff)
  also have "\<dots> \<longleftrightarrow> odd (unat x div 2 ^ k)" by (rule bit_iff_odd)
  finally show ?thesis using assms(1) by simp
qed

lemma bucket_double: "b = 2 ^ k \<Longrightarrow> bucket (b + b) b h = bucket b b h"
proof -
  assume "b = 2 ^ k"
  then have "h mod b < b" by simp
  moreover have "h mod (2 * b) mod b = h mod b" by (simp add: mod_mod_cancel)
  ultimately show ?thesis by (auto simp: bucket_def mult_2 [symmetric])
qed

subsection \<open>Chains of links\<close>

fun linked :: "'r OB_HASH_LINK list \<Rightarrow> nat list \<Rightarrow> 32 word \<Rightarrow> bool" where
  "linked ds [] e \<longleftrightarrow> True"
| "linked ds (p # ps) e \<longleftrightarrow> p < length ds \<and> lnk_next (ds ! p) = (case ps of [] \<Rightarrow> e | q # _ \<Rightarrow> word_of_nat q) \<and> linked ds ps e"

text \<open>
  \<open>K\<close> gives the bucket of a record and \<open>P\<close> is the set of places in use.  The chain \<open>C k\<close> starts at place \<open>k\<close> and goes
  through exactly the places whose records are in bucket \<open>k\<close>.
\<close>

definition chained :: "('r \<Rightarrow> nat) \<Rightarrow> nat set \<Rightarrow> 'r OB_HASH_LINK list \<Rightarrow> (nat \<Rightarrow> nat list) \<Rightarrow> bool" where
  "chained K P ds C \<longleftrightarrow> (\<forall>k. distinct (C k) \<and> linked ds (C k) NO_RECORD \<and> set (C k) = {p\<in>P. K (lnk_data (ds ! p)) = k}
     \<and> (C k \<noteq> [] \<longrightarrow> hd (C k) = k))"

definition bag :: "'r OB_HASH_LINK list \<Rightarrow> nat set \<Rightarrow> 'r multiset" where
  "bag ds P = image_mset (\<lambda>p. lnk_data (ds ! p)) (mset_set P)"

lemma linked_append: "linked ds (xs @ y # ys) e \<longleftrightarrow> linked ds xs (word_of_nat y) \<and> linked ds (y # ys) e"
  by (induction xs rule: induct_list012) auto

lemma linked_cong: "(\<And>p. p \<in> set ps \<Longrightarrow> ds' ! p = ds ! p) \<Longrightarrow> length ds' = length ds \<Longrightarrow> linked ds' ps e = linked ds ps e"
  by (induction ps) auto

lemma linked_update [simp]: "p \<notin> set ps \<Longrightarrow> linked (ds[p := l]) ps e = linked ds ps e"
  by (rule linked_cong) (metis nth_list_update_neq, simp)

lemma linked_set: "linked ds ps e \<Longrightarrow> set ps \<subseteq> {..<length ds}"
  by (induction ps) auto

lemma linked_snoc: "linked ds (xs @ [y]) e \<longleftrightarrow> linked ds xs (word_of_nat y) \<and> y < length ds \<and> lnk_next (ds ! y) = e"
  by (auto simp: linked_append)

text \<open>Changing the end of a segment.\<close>

lemma linked_end:
  assumes "linked ds xs e" and "xs \<noteq> []" and "distinct xs"
  shows "linked (ds[last xs := (ds ! last xs)\<lparr>lnk_next := e'\<rparr>]) xs e'"
proof -
  obtain ys y where x: "xs = ys @ [y]" using assms(2) by (cases xs rule: rev_cases) auto
  then show ?thesis using assms by (auto simp: linked_snoc)
qed

lemma keep_data: "lnk_data (ds[i := (ds ! i)\<lparr>lnk_next := e\<rparr>] ! p) = lnk_data (ds ! p)"
  by (cases "i < length ds") (auto simp: nth_list_update list_update_beyond)

lemma bag_insert: "finite P \<Longrightarrow> p \<notin> P \<Longrightarrow> bag ds (insert p P) = add_mset (lnk_data (ds ! p)) (bag ds P)"
  by (simp add: bag_def)

lemma bag_cong: "(\<And>p. p \<in> P \<Longrightarrow> lnk_data (ds ! p) = lnk_data (ds' ! p)) \<Longrightarrow> bag ds P = bag ds' P"
  unfolding bag_def by (cases "finite P") (auto intro: image_mset_cong)

lemma bag_list: "distinct ps \<Longrightarrow> bag ds (set ps) = mset (map (\<lambda>p. lnk_data (ds ! p)) ps)"
  by (simp add: bag_def mset_set_set)

lemma bag_Un: "finite P \<Longrightarrow> finite Q \<Longrightarrow> P \<inter> Q = {} \<Longrightarrow> bag ds (P \<union> Q) = bag ds P + bag ds Q"
  by (simp add: bag_def mset_set_Union)

lemma in_bag: "finite P \<Longrightarrow> p \<in> P \<Longrightarrow> lnk_data (ds ! p) \<in># bag ds P"
  by (simp add: bag_def)

lemma bag_move: "finite P \<Longrightarrow> p \<in> P \<Longrightarrow> q \<notin> P \<Longrightarrow> bag (ds[q := ds ! p]) (insert q (P - {p})) = bag ds P"
  if "q < length ds"
proof -
  assume a: "finite P" "p \<in> P" "q \<notin> P"
  have "bag (ds[q := ds ! p]) (insert q (P - {p})) = add_mset (lnk_data (ds ! p)) (bag (ds[q := ds ! p]) (P - {p}))"
    using a that by (simp add: bag_insert)
  also have "bag (ds[q := ds ! p]) (P - {p}) = bag ds (P - {p})" using a by (intro bag_cong) (metis DiffD1 nth_list_update_neq)
  also have "add_mset (lnk_data (ds ! p)) (bag ds (P - {p})) = bag ds (insert p (P - {p}))" by (rule bag_insert [symmetric]) (use a in auto)
  finally show ?thesis using a(2) by (simp add: insert_absorb)
qed

subsection \<open>Indices as words\<close>

lemma word_index_eq: "i < 2 ^ 32 \<Longrightarrow> j < 2 ^ 32 \<Longrightarrow> (word_of_nat i :: 32 word) = word_of_nat j \<longleftrightarrow> i = j"
  by (metis unat_word32)

lemma word_index_NO: "i < 2 ^ 32 - 1 \<Longrightarrow> (word_of_nat i :: 32 word) \<noteq> NO_RECORD"
proof
  assume "i < 2 ^ 32 - 1" and "(word_of_nat i :: 32 word) = - 1"
  then have "i = unat (- 1 :: 32 word)" using unat_word32 [of i] by simp
  then show False using \<open>i < 2 ^ 32 - 1\<close> by (simp add: unsigned_minus_1_eq_mask mask_eq_exp_minus_1)
qed

lemma link_at_index: "i < length ds \<Longrightarrow> length ds < 2 ^ 32 \<Longrightarrow> link_at ds (word_of_nat i) = Some (ds ! i)"
  by (simp add: link_at_def unat_word32 del: power_numeral)

lemma set_link_index: "i < length ds \<Longrightarrow> length ds < 2 ^ 32 \<Longrightarrow> set_link ds (word_of_nat i) l = Some (ds[i := l])"
  by (simp add: set_link_def unat_word32 del: power_numeral)

lemmas index_simps = link_at_index set_link_index

text \<open>\<^verbatim>\<open>movelink\<close> changes the link at the end of a segment.\<close>

lemma movelink_segment:
  assumes "linked ds xs e" and "xs \<noteq> []" and "\<forall>x\<in>set (tl xs). word_of_nat x \<noteq> e" and "length ds < 2 ^ 32"
  shows "movelink ds e (word_of_nat (hd xs)) new = Some (ds[last xs := (ds ! last xs)\<lparr>lnk_next := new\<rparr>])"
  using assms
proof (induction xs)
  case (Cons p ps)
  show ?case
  proof (cases ps)
    case Nil
    then show ?thesis using Cons.prems by (subst movelink.simps) (simp add: index_simps)
  next
    case (Cons q qs)
    then have "movelink ds e (word_of_nat q) new = Some (ds[last ps := (ds ! last ps)\<lparr>lnk_next := new\<rparr>])"
      using Cons.IH Cons.prems by simp
    then show ?thesis using Cons Cons.prems by (subst movelink.simps) (simp add: index_simps)
  qed
qed simp

lemma chainedD:
  assumes "chained K P ds C"
  shows "distinct (C k)" and "linked ds (C k) NO_RECORD" and "set (C k) = {p\<in>P. K (lnk_data (ds ! p)) = k}"
    and "C k \<noteq> [] \<Longrightarrow> hd (C k) = k"
  using assms by (simp_all add: chained_def)

lemma chained_mem: "chained K P ds C \<Longrightarrow> p \<in> set (C k) \<longleftrightarrow> p \<in> P \<and> K (lnk_data (ds ! p)) = k"
  by (simp add: chainedD(3))

lemma chained_empty:
  assumes "chained K P ds C" and "k \<notin> P \<or> K (lnk_data (ds ! k)) \<noteq> k"
  shows "C k = []"
proof (rule ccontr)
  assume "C k \<noteq> []"
  then have "k \<in> set (C k)" using chainedD(4) [OF assms(1), of k] by (metis hd_in_set)
  then show False using assms(2) by (simp add: chained_mem [OF assms(1)])
qed

lemma chained_head:
  assumes "chained K P ds C" and "k \<in> P" and "K (lnk_data (ds ! k)) = k"
  obtains ys where "C k = k # ys"
proof (cases "C k")
  case Nil
  then show thesis using chained_mem [OF assms(1), of k k] assms(2,3) by simp
next
  case (Cons x xs)
  then show thesis using chainedD(4) [OF assms(1), of k] that by simp
qed

lemma chained_inner:
  assumes "chained K P ds C" and "p \<in> P" and "K (lnk_data (ds ! p)) \<noteq> p"
  obtains xs ys where "C (K (lnk_data (ds ! p))) = xs @ p # ys" and "xs \<noteq> []" and "hd xs = K (lnk_data (ds ! p))"
proof -
  let ?g = "K (lnk_data (ds ! p))"
  have "p \<in> set (C ?g)" using chained_mem [OF assms(1)] assms(2) by simp
  then obtain xs ys where x: "C ?g = xs @ p # ys" by (meson split_list)
  then have "hd (xs @ [p]) = ?g" using chainedD(4) [OF assms(1), of ?g] by (cases xs) auto
  moreover from this have "xs \<noteq> []" using assms(3) by auto
  ultimately show thesis using that [of xs ys] x by simp
qed

text \<open>Rewriting some chained: the others only have to keep their links.\<close>

lemma chained_change:
  assumes "chained K P ds C" and "length ds' = length ds"
    and "\<And>j p. j \<notin> J \<Longrightarrow> p \<in> set (C j) \<Longrightarrow> ds' ! p = ds ! p"
    and "\<And>j. j \<in> J \<Longrightarrow> distinct (N j) \<and> linked ds' (N j) NO_RECORD \<and> (N j \<noteq> [] \<longrightarrow> hd (N j) = j)"
    and "\<And>j. set (if j \<in> J then N j else C j) = {p\<in>P'. K' (lnk_data (ds' ! p)) = j}"
  shows "chained K' P' ds' (\<lambda>j. if j \<in> J then N j else C j)"
proof -
  have "linked ds' (C j) NO_RECORD" if "j \<notin> J" for j
    using assms(2,3) that chainedD(2) [OF assms(1), of j] by (subst linked_cong [of _ ds' ds]) auto
  moreover have "distinct (C j)" "C j \<noteq> [] \<Longrightarrow> hd (C j) = j" for j using assms(1) by (simp_all add: chained_def)
  ultimately show ?thesis unfolding chained_def using assms(4,5) by (simp split del: if_split) (simp split: if_split)
qed

lemma chained_cong:
  assumes "chained K P ds C" and "length ds' = length ds" and "\<And>p. p \<in> P \<Longrightarrow> ds' ! p = ds ! p"
    and "\<And>p. p \<in> P \<Longrightarrow> K' (lnk_data (ds ! p)) = K (lnk_data (ds ! p))"
  shows "chained K' P ds' C"
proof -
  have "set (C j) = {p \<in> P. K' (lnk_data (ds' ! p)) = j}" for j
    using chainedD(3) [OF assms(1)] assms(3,4) by force
  then show ?thesis using chained_change [OF assms(1,2), of "{}" _ P K'] assms(3) chained_mem [OF assms(1)] by simp
qed

text \<open>The steps of which insertion and deletion are made.  First, a single record becomes a chain of its own.\<close>

lemma chained_single:
  assumes ch: "chained K P ds C" and k: "k \<notin> P" "k < length ds" "ds ! k = \<lparr>lnk_next = NO_RECORD, lnk_data = r\<rparr>" "K r = k"
  shows "chained K (insert k P) ds (\<lambda>j. if j \<in> {k} then [k] else C j)"
proof (rule chained_change [OF ch])
  have "K (lnk_data (ds ! p)) \<noteq> k" if "p \<in> P" for p
    using chained_mem [OF ch, of p k] chained_empty [OF ch, of k] k(1) that by simp
  then show "set (if j \<in> {k} then [k] else C j) = {p \<in> insert k P. K (lnk_data (ds ! p)) = j}" for j
    using chained_mem [OF ch, of _ j] k by auto
qed (use k in auto)

text \<open>The record at place \<open>p\<close>, which is not the first of its chain, goes to the free place \<open>e\<close>, and \<open>l\<close> takes its place.\<close>

lemma move_inner:
  assumes ch: "chained K P ds C" and p: "p \<in> P" "K (lnk_data (ds ! p)) = g" "g \<noteq> p"
    and e: "e \<notin> P" "e < length ds" and P: "P \<subseteq> {..<length ds}" "length ds < 2 ^ 32 - 1"
  obtains ds' C' where "movelink (ds[e := ds ! p, p := l]) (word_of_nat p) (word_of_nat g) (word_of_nat e) = Some ds'"
    and "length ds' = length ds" and "chained K (insert e (P - {p})) ds' C'" and "ds' ! p = l"
    and "\<And>q. q \<notin> set (C g) \<Longrightarrow> q \<noteq> e \<Longrightarrow> ds' ! q = ds ! q" and "lnk_data (ds' ! e) = lnk_data (ds ! p)"
    and "\<And>q. q \<noteq> e \<Longrightarrow> q \<noteq> p \<Longrightarrow> lnk_data (ds' ! q) = lnk_data (ds ! q)"
    and "\<And>j. j \<noteq> g \<Longrightarrow> C' j = C j"
proof -
  obtain xs ys where xs: "C g = xs @ p # ys" "xs \<noteq> []" "hd xs = g" using chained_inner [OF ch p(1)] p(2,3) by metis
  have d: "distinct (xs @ p # ys)" "e \<notin> set (xs @ p # ys)" "e \<noteq> p" using chainedD(1) [OF ch, of g] chained_mem [OF ch, of e g] xs(1) e(1) p(1) by auto
  have lk: "linked ds xs (word_of_nat p)" "linked ds (p # ys) NO_RECORD"
    using chainedD(2) [OF ch, of g] xs(1) by (simp_all only: linked_append)
  have sub: "set xs \<subseteq> {..<length ds}" "p < length ds" using linked_set [OF lk(1)] p(1) P(1) by auto
  let ?d2 = "ds[e := ds ! p, p := l]" and ?l = "last xs"
  let ?d = "?d2[?l := (?d2 ! ?l)\<lparr>lnk_next := word_of_nat e\<rparr>]" and ?N = "\<lambda>_. xs @ e # ys"
  have px: "p \<notin> set xs" "e \<notin> set xs" using d by auto
  have lx: "?l \<in> set xs" "?l \<noteq> p" "?l \<noteq> e" using px last_in_set [OF xs(2)] by metis+
  have ly: "?l \<notin> set ys" using lx(1) d(1) by (meson disjoint_iff distinct_append list.set_intros(2))
  have l2: "linked ?d2 xs (word_of_nat p)" using lk(1) d by simp
  have tx: "\<forall>x\<in>set (tl xs). word_of_nat x \<noteq> (word_of_nat p :: 32 word)"
  proof
    fix x
    assume "x \<in> set (tl xs)"
    then have "x \<in> set xs" by (cases xs) auto
    then show "word_of_nat x \<noteq> (word_of_nat p :: 32 word)" using word_index_eq [of x p] px(1) sub P(2) by (auto dest!: subsetD)
  qed
  define D where "D = ?d"
  have mv: "movelink ?d2 (word_of_nat p) (word_of_nat g) (word_of_nat e) = Some D"
    using movelink_segment [OF l2 xs(2) tx, of "word_of_nat e"] P(2) xs(3) by (simp add: D_def)
  have "linked D xs (word_of_nat e)" using linked_end [OF l2 xs(2)] d by (simp add: D_def)
  moreover have "linked D (e # ys) NO_RECORD"
    using lk(2) d lx(2,3) ly e(2) by (auto simp: D_def nth_list_update)
  ultimately have ln: "linked D (xs @ e # ys) NO_RECORD" by (simp only: linked_append)
  have dk: "lnk_data (D ! q) = lnk_data (?d2 ! q)" for q unfolding D_def by (rule keep_data)
  have de: "lnk_data (D ! e) = lnk_data (ds ! p)" and dp: "D ! p = l" using e(2) lx(2,3) sub d(3) by (simp_all add: D_def nth_list_update)
  have dq: "lnk_data (D ! q) = lnk_data (ds ! q)" if "q \<noteq> e" "q \<noteq> p" for q using that by (metis dk nth_list_update_neq)
  have other: "D ! q = ds ! q" if "q \<notin> set (C g)" "q \<noteq> e" for q
    using that xs(1) lx(1) unfolding D_def by (metis Un_iff list.set_intros(1) nth_list_update_neq set_append)
  have "chained K (insert e (P - {p})) D (\<lambda>j. if j \<in> {g} then ?N j else C j)"
  proof (rule chained_change [OF ch])
    show "set (if j \<in> {g} then ?N j else C j) = {q \<in> insert e (P - {p}). K (lnk_data (D ! q)) = j}" for j
    proof (rule set_eqI)
      fix q
      have m: "q \<in> set (C j) \<longleftrightarrow> q \<in> P \<and> K (lnk_data (ds ! q)) = j" using chained_mem [OF ch] .
      consider "q = e" | "q \<noteq> e" "q = p" | "q \<noteq> e" "q \<noteq> p" by blast
      then show "q \<in> set (if j \<in> {g} then ?N j else C j) \<longleftrightarrow> q \<in> {q \<in> insert e (P - {p}). K (lnk_data (D ! q)) = j}"
      proof cases
        case 1
        then show ?thesis using m de p(2) e(1) by (cases "j = g") simp_all
      next
        case 2
        then show ?thesis using m p d(1) by (cases "j = g") simp_all
      next
        case 3
        then have "q \<in> set (if j \<in> {g} then ?N j else C j) \<longleftrightarrow> q \<in> set (C j)" using xs(1) by (cases "j = g") simp_all
        then show ?thesis using m 3 dq [OF 3] by (simp del: if_split_mem2)
      qed
    qed
    show "D ! q = ds ! q" if "j \<notin> {g}" "q \<in> set (C j)" for j q
      using that chained_mem [OF ch, of q] e(1) by (intro other) auto
    show "distinct (?N j) \<and> linked D (?N j) NO_RECORD \<and> (?N j \<noteq> [] \<longrightarrow> hd (?N j) = j)" if "j \<in> {g}" for j
      using that d ln xs(2,3) by auto
  qed (simp add: D_def)
  then show thesis using that [OF mv _ _ dp other de dq] by (simp add: D_def)
qed

lemma bag_moved:
  assumes "finite P" and "p \<in> P" and "e \<notin> P" and "lnk_data (ds' ! e) = lnk_data (ds ! p)"
    and "\<And>q. q \<noteq> e \<Longrightarrow> q \<noteq> p \<Longrightarrow> lnk_data (ds' ! q) = lnk_data (ds ! q)"
  shows "bag ds' (insert e (P - {p})) = bag ds P"
proof -
  have "bag ds' (P - {p}) = bag ds (P - {p})" using assms(3,5) by (intro bag_cong) (metis DiffE insertI1)
  then have "bag ds' (insert e (P - {p})) = add_mset (lnk_data (ds ! p)) (bag ds (P - {p}))" using assms(1,3,4) by (simp add: bag_insert)
  also have "\<dots> = bag ds (insert p (P - {p}))" by (rule bag_insert [symmetric]) (use assms(1) in auto)
  finally show ?thesis using assms(2) by (simp add: insert_absorb)
qed

text \<open>A record becomes the first of the chain at its place; the former first record goes to the free place, behind it.\<close>

lemma chained_front:
  assumes ch: "chained K P ds C" and k: "k \<in> P" "K (lnk_data (ds ! k)) = k" "k < length ds" "K r = k" and e: "e \<notin> P" "e < length ds"
  obtains C' where "chained K (insert e P) (ds[e := ds ! k, k := \<lparr>lnk_next = word_of_nat e, lnk_data = r\<rparr>]) C'"
proof -
  let ?d = "ds[e := ds ! k, k := \<lparr>lnk_next = word_of_nat e, lnk_data = r\<rparr>]"
  obtain ys where ys: "C k = k # ys" using chained_head [OF ch k(1,2)] .
  have d: "k \<notin> set ys" "e \<notin> set ys" "e \<noteq> k" using chainedD(1) [OF ch, of k] chained_mem [OF ch, of e k] ys e(1) k(1) by auto
  have l: "linked ds ys NO_RECORD" "lnk_next (ds ! k) = (case ys of [] \<Rightarrow> NO_RECORD | q # _ \<Rightarrow> word_of_nat q)"
    using chainedD(2) [OF ch, of k] ys by simp_all
  have "chained K (insert e P) ?d (\<lambda>j. if j \<in> {k} then k # e # ys else C j)"
  proof (rule chained_change [OF ch])
    show "set (if j \<in> {k} then k # e # ys else C j) = {p \<in> insert e P. K (lnk_data (?d ! p)) = j}" for j
    proof (rule set_eqI)
      fix p
      have m: "p \<in> set (C j) \<longleftrightarrow> p \<in> P \<and> K (lnk_data (ds ! p)) = j" using chained_mem [OF ch] .
      have v: "K (lnk_data (?d ! p)) = (if p = k \<or> p = e then k else K (lnk_data (ds ! p)))"
        using k(2-4) e(2) by (simp add: nth_list_update)
      have mk: "p = k \<or> p \<in> set ys \<longleftrightarrow> p \<in> P \<and> K (lnk_data (ds ! p)) = k" using chained_mem [OF ch, of p k] ys by simp
      show "p \<in> set (if j \<in> {k} then k # e # ys else C j) \<longleftrightarrow> p \<in> {p \<in> insert e P. K (lnk_data (?d ! p)) = j}"
        using m mk v k(1,2) e(1) d by (cases "j = k"; cases "p = k"; cases "p = e") simp_all
    qed
    show "?d ! p = ds ! p" if "j \<notin> {k}" "p \<in> set (C j)" for j p
      using that e(1) k(2) by (metis chained_mem [OF ch] insertI1 nth_list_update_neq)
  qed (use k(3) e(2) d l chainedD(1) [OF ch, of k] ys in auto)
  then show thesis by (rule that)
qed

text \<open>A record goes into a table with one free place \<open>e\<close>.\<close>

lemma place_record_ok:
  assumes ch: "chained K P ds C" and e: "e \<notin> P" "insert e P = {..<n}" and n: "n \<le> length ds" "length ds < 2 ^ 32 - 1"
    and k: "K r < n" and Kn: "\<And>p. p \<in> P \<Longrightarrow> K (lnk_data (ds ! p)) < n"
    and nr: "\<And>x. x = r \<or> x \<in># bag ds P \<Longrightarrow> rec_hashnr obj info x = Some (nr x)
      \<and> hash_mask (nr x) (blength info) (records info + 1) = word_of_nat (K x)"
  shows "\<exists>ds' C'. place_record obj info r ds (word_of_nat e) = Some ds' \<and> length ds' = length ds
    \<and> chained K {..<n} ds' C' \<and> bag ds' {..<n} = add_mset r (bag ds P)"
proof -
  have "P = {..<n} - {e}" "e < n" using e by blast+
  then have P: "P = {..<n} - {e}" "finite P" "e < n" by simp_all
  have L: "length ds < 2 ^ 32" using n(2) by simp
  let ?k = "K r"
  have kd: "?k < length ds" "e < length ds" using k P(3) n(1) by simp_all
  have eq: "(word_of_nat i :: 32 word) = word_of_nat j \<longleftrightarrow> i = j" if "i < n" "j < n" for i j
    using that n by (intro word_index_eq) simp_all
  let ?new = "\<lambda>x. \<lparr>lnk_next = x, lnk_data = r\<rparr>"
  show ?thesis
  proof (cases "?k = e")
    case True
    let ?d = "ds[e := ?new NO_RECORD]"
    have pr: "place_record obj info r ds (word_of_nat e) = Some ?d"
      unfolding place_record_def using nr [of r] True kd L by (simp add: index_simps)
    have "chained K P ?d C"
      by (rule chained_cong [OF ch]) (use e(1) in \<open>simp_all, metis nth_list_update_neq\<close>)
    then have "chained K (insert e P) ?d (\<lambda>j. if j \<in> {e} then [e] else C j)"
      by (rule chained_single) (use e(1) kd True in auto)
    moreover have "bag ?d P = bag ds P" using e(1) by (intro bag_cong) (metis nth_list_update_neq)
    then have "bag ?d (insert e P) = add_mset r (bag ds P)" using kd e(1) P(2) by (simp add: bag_insert)
    moreover have "length ?d = length ds" by simp
    ultimately show ?thesis using pr e(2) by metis
  next
    case False
    then have kP: "?k \<in> P" using k P(1) by simp
    let ?pos = "ds ! ?k" and ?g = "K (lnk_data (ds ! ?k))"
    have gn: "?g < n" using Kn [OF kP] .
    have g: "hash_rec_mask obj info ?pos (blength info) (records info + 1) = Some (word_of_nat ?g)"
      using nr [of "lnk_data ?pos"] in_bag [OF P(2) kP, of ds] by (auto simp: hash_rec_mask_def rec_hashnr_def)
    have w: "word_of_nat ?k \<noteq> (word_of_nat e :: 32 word)" using eq [OF k P(3)] False by simp
    have start: "place_record obj info r ds (word_of_nat e) =
        (if ?k = ?g then Some (ds[e := ?pos, ?k := ?new (word_of_nat e)])
         else movelink (ds[e := ?pos, ?k := ?new NO_RECORD]) (word_of_nat ?k) (word_of_nat ?g) (word_of_nat e))"
      unfolding place_record_def using nr [of r] w kd L g eq [OF k gn] by (simp add: index_simps)
    have ins: "insert ?k (insert e (P - {?k})) = {..<n}" using e(2) kP by auto
    have bk: "bag ds' {..<n} = add_mset r (bag ds P)" if "lnk_data (ds' ! ?k) = r" "lnk_data (ds' ! e) = lnk_data ?pos"
      "\<And>p. p \<noteq> e \<Longrightarrow> p \<noteq> ?k \<Longrightarrow> lnk_data (ds' ! p) = lnk_data (ds ! p)" for ds'
      using bag_moved [OF P(2) kP e(1), of ds' ds] bag_insert [of "insert e (P - {?k})" ?k ds'] that P(2) False unfolding ins by simp
    show ?thesis
    proof (cases "?g = ?k")
      case True
      let ?d = "ds[e := ?pos, ?k := ?new (word_of_nat e)]"
      obtain C' where "chained K (insert e P) ?d C'" using chained_front [OF ch kP True kd(1) refl e(1) kd(2)] .
      moreover have "bag ?d {..<n} = add_mset r (bag ds P)" using kd False by (intro bk) simp_all
      moreover have "length ?d = length ds" by simp
      ultimately show ?thesis using start True e(2) by metis
    next
      case ne: False
      have "P \<subseteq> {..<length ds}" using P(1) n(1) by auto
      then obtain ds' C' where m: "movelink (ds[e := ?pos, ?k := ?new NO_RECORD]) (word_of_nat ?k) (word_of_nat ?g) (word_of_nat e) = Some ds'"
        "length ds' = length ds" "chained K (insert e (P - {?k})) ds' C'" "ds' ! ?k = ?new NO_RECORD"
        "lnk_data (ds' ! e) = lnk_data ?pos" "\<And>q. q \<noteq> e \<Longrightarrow> q \<noteq> ?k \<Longrightarrow> lnk_data (ds' ! q) = lnk_data (ds ! q)"
        by (rule move_inner [OF ch kP refl ne e(1) kd(2) _ n(2), of "?new NO_RECORD"]) blast
      have "chained K {..<n} ds' (\<lambda>j. if j \<in> {?k} then [?k] else C' j)"
        unfolding ins [symmetric] by (rule chained_single [OF m(3)]) (use m(2,4) kd False in auto)
      moreover have "bag ds' {..<n} = add_mset r (bag ds P)" using m(4-6) by (intro bk) simp_all
      ultimately show ?thesis using start ne m(1,2) by auto
    qed
  qed
qed

end
