(* ===== verification/MaHashSplit.thy ===== *)
theory MaHashSplit
  imports MaHash
begin

unbundle bit_operations_syntax

text \<open>
  Insertion into the hash index.  When the index gets one place more, one chain is split in two, in place; the loop
  and its invariant come first, then the index as a whole and \<^verbatim>\<open>hash_insert\<close>.
\<close>

subsection \<open>Splitting a chain\<close>

text \<open>
  One of the two chains that the loop builds: \<open>xs\<close> are the places of its records \<open>rs\<close> so far.  All but the last are
  linked; the last one is held in \<^verbatim>\<open>gpos\<close> and \<^verbatim>\<open>ptr_to_rec\<close> and, when it is \<open>used\<close>, is also in the array, linked to what comes next.
\<close>

definition side :: "'r OB_HASH_LINK list \<Rightarrow> nat list \<Rightarrow> 'r list \<Rightarrow> bool \<Rightarrow> (32 word \<times> 'r) option \<Rightarrow> 32 word \<Rightarrow> bool" where
  "side d xs rs used g w \<longleftrightarrow>
     (if xs = [] then rs = []
      else length xs = length rs \<and> last xs < length d \<and> g = Some (word_of_nat (last xs), last rs)
        \<and> linked d (butlast xs) (word_of_nat (last xs)) \<and> map (\<lambda>p. lnk_data (d ! p)) (butlast xs) = butlast rs
        \<and> (used \<longrightarrow> d ! last xs = \<lparr>lnk_next = w, lnk_data = last rs\<rparr>))"

lemma side_Nil [simp]: "side d [] rs used g w \<longleftrightarrow> rs = []"
  by (simp add: side_def)

lemma side_snoc:
  "side d (ys @ [y]) (ss @ [s]) u g w \<longleftrightarrow> length ys = length ss \<and> y < length d \<and> g = Some (word_of_nat y, s)
     \<and> linked d ys (word_of_nat y) \<and> map (\<lambda>p. lnk_data (d ! p)) ys = ss \<and> (u \<longrightarrow> d ! y = \<lparr>lnk_next = w, lnk_data = s\<rparr>)"
  by (simp add: side_def)

lemma side_cases:
  assumes "side d xs rs u g w"
  obtains "xs = []" and "rs = []" | ys y ss s where "xs = ys @ [y]" and "rs = ss @ [s]"
  using assms by (cases xs rule: rev_cases; cases rs rule: rev_cases) (auto simp: side_def)

lemma side_start: "e < length d \<Longrightarrow> side d [e] [r] False (Some (word_of_nat e, r)) w"
  by (simp add: side_def)

lemma side_here: "i < length d \<Longrightarrow> d ! i = \<lparr>lnk_next = w, lnk_data = r\<rparr> \<Longrightarrow> side d [i] [r] True (Some (word_of_nat i, r)) w"
  by (simp add: side_def)

lemma side_weaken: "side d xs rs u g w \<Longrightarrow> side d xs rs False g w'"
  by (auto simp: side_def split: if_splits)

lemma side_frame:
  assumes "side d xs rs u g w" and "length d' = length d" and "\<And>p. p \<in> set xs \<Longrightarrow> d' ! p = d ! p"
  shows "side d' xs rs u g w"
proof -
  have "linked d' (butlast xs) e = linked d (butlast xs) e" for e
    using assms(2,3) by (intro linked_cong) (auto dest: in_set_butlastD)
  moreover have "map (\<lambda>p. lnk_data (d' ! p)) (butlast xs) = map (\<lambda>p. lnk_data (d ! p)) (butlast xs)"
    using assms(3) by (auto dest: in_set_butlastD)
  ultimately show ?thesis using assms unfolding side_def by (metis (no_types, lifting) last_in_set)
qed

lemma side_next:
  assumes "side d xs rs True g (word_of_nat i)" and "xs \<noteq> []" and "i < length d" and "d ! i = \<lparr>lnk_next = w, lnk_data = r\<rparr>"
  shows "side d (xs @ [i]) (rs @ [r]) True (Some (word_of_nat i, r)) w"
  using assms(1)
proof (cases rule: side_cases)
  case (2 ys y ss s)
  show ?thesis unfolding 2 side_snoc [of d "ys @ [y]" i "ss @ [s]"] using assms [unfolded 2 side_snoc] by (auto simp: linked_snoc)
qed (use assms(2) in simp)

lemma side_write:
  assumes "side d xs rs u g w" and "xs \<noteq> []" and "distinct xs" and "length d < 2 ^ 32"
  shows "write_pos g v d = Some (d[last xs := \<lparr>lnk_next = v, lnk_data = last rs\<rparr>])"
    and "side (d[last xs := \<lparr>lnk_next = v, lnk_data = last rs\<rparr>]) xs rs True g v"
proof -
  obtain ys y where x: "xs = ys @ [y]" using assms(2) by (cases xs rule: rev_cases) auto
  moreover obtain ss s where r: "rs = ss @ [s]" using assms(1,2) by (cases rs rule: rev_cases) (auto simp: side_def)
  ultimately have y: "y < length d" "y \<notin> set ys" using assms(1,3) by (auto simp: side_def)
  then have "d[y := l] ! p = d ! p" if "p \<in> set ys" for p l using that by (metis nth_list_update_neq)
  then show "side (d[last xs := \<lparr>lnk_next = v, lnk_data = last rs\<rparr>]) xs rs True g v"
    using assms(1) x r y by (auto simp: side_def cong: map_cong)
  show "write_pos g v d = Some (d[last xs := \<lparr>lnk_next = v, lnk_data = last rs\<rparr>])"
    using assms x r y(1) by (simp add: side_def write_pos_def index_simps)
qed

lemma side_linked:
  assumes "side d xs rs True g w"
  shows "linked d xs w" and "map (\<lambda>p. lnk_data (d ! p)) xs = rs"
proof -
  have "linked d xs w \<and> map (\<lambda>p. lnk_data (d ! p)) xs = rs"
  proof (cases "xs = []")
    case False
    then obtain ys y where x: "xs = ys @ [y]" by (cases xs rule: rev_cases) auto
    moreover obtain ss s where "rs = ss @ [s]" using assms False by (cases rs rule: rev_cases) (auto simp: side_def)
    ultimately show ?thesis using assms by (auto simp: side_def linked_snoc)
  qed (use assms in simp)
  then show "linked d xs w" and "map (\<lambda>p. lnk_data (d ! p)) xs = rs" by simp_all
qed

text \<open>
  The loop over the chain of place \<open>f\<close> in the array \<open>d0\<close>, in which place \<open>n\<close> is free at first: the places \<open>us\<close> have been
  visited and \<open>w\<close> leads to the next one.  \<open>Lo\<close> and \<open>Hi\<close> are the places of the two new chains, \<open>e\<close> is free.
\<close>

definition split_inv ::
  "('r \<Rightarrow> bool) \<Rightarrow> 'r OB_HASH_LINK list \<Rightarrow> nat \<Rightarrow> nat \<Rightarrow> nat list \<Rightarrow> 32 word \<Rightarrow> 'r split_state
   \<Rightarrow> nat list \<Rightarrow> 'r list \<Rightarrow> nat list \<Rightarrow> 'r list \<Rightarrow> nat \<Rightarrow> bool" where
  "split_inv high d0 n f us w s Lo RL Hi RH e \<longleftrightarrow>
     length (ss_data s) = length d0 \<and> (\<forall>p. p \<notin> insert n (set us) \<longrightarrow> ss_data s ! p = d0 ! p)
     \<and> side (ss_data s) Lo RL (lowused s) (gpos s) w \<and> side (ss_data s) Hi RH (highused s) (gpos2 s) w
     \<and> \<not> (lowused s \<and> highused s) \<and> (lowfind s \<longleftrightarrow> Lo \<noteq> []) \<and> (highfind s \<longleftrightarrow> Hi \<noteq> []) \<and> ss_empty s = word_of_nat e
     \<and> distinct (e # Lo @ Hi) \<and> insert e (set Lo \<union> set Hi) = insert n (set us)
     \<and> (Lo \<noteq> [] \<longrightarrow> hd Lo = f) \<and> (Hi \<noteq> [] \<longrightarrow> hd Hi = n) \<and> (Hi = [] \<longrightarrow> e = n) \<and> (Hi \<noteq> [] \<and> Lo = [] \<longrightarrow> e = f)
     \<and> mset RL + mset RH = mset (map (\<lambda>p. lnk_data (d0 ! p)) us)
     \<and> (\<forall>r\<in>set RL. \<not> high r) \<and> (\<forall>r\<in>set RH. high r)"

lemma split_invD:
  assumes "split_inv high d0 n f us w s Lo RL Hi RH e"
  shows "length (ss_data s) = length d0" and "\<And>p. p \<notin> insert n (set us) \<Longrightarrow> ss_data s ! p = d0 ! p"
    and "side (ss_data s) Lo RL (lowused s) (gpos s) w" and "side (ss_data s) Hi RH (highused s) (gpos2 s) w"
    and "\<not> (lowused s \<and> highused s)" and "lowfind s \<longleftrightarrow> Lo \<noteq> []" and "highfind s \<longleftrightarrow> Hi \<noteq> []" and "ss_empty s = word_of_nat e"
    and "distinct (e # Lo @ Hi)" and "insert e (set Lo \<union> set Hi) = insert n (set us)"
    and "Lo \<noteq> [] \<Longrightarrow> hd Lo = f" and "Hi \<noteq> [] \<Longrightarrow> hd Hi = n" and "Hi = [] \<Longrightarrow> e = n" and "Hi \<noteq> [] \<Longrightarrow> Lo = [] \<Longrightarrow> e = f"
    and "mset RL + mset RH = mset (map (\<lambda>p. lnk_data (d0 ! p)) us)"
    and "\<And>r. r \<in> set RL \<Longrightarrow> \<not> high r" and "\<And>r. r \<in> set RH \<Longrightarrow> high r"
  using assms unfolding split_inv_def by blast+

lemmas split_invI = split_inv_def [THEN iffD2]

lemma side_extend:
  assumes sd: "side d xs rs u g (word_of_nat i)" and x: "xs \<noteq> []" "distinct xs" "i \<notin> set xs"
    and i: "i < length d" "d ! i = \<lparr>lnk_next = w, lnk_data = r\<rparr>" "length d < 2 ^ 32"
  shows "\<exists>d'. (if \<not> u then write_pos g (word_of_nat i) d else Some d) = Some d' \<and> length d' = length d
    \<and> (\<forall>p. p \<noteq> last xs \<longrightarrow> d' ! p = d ! p) \<and> side d' (xs @ [i]) (rs @ [r]) True (Some (word_of_nat i, r)) w"
proof (cases u)
  case True
  then have "side d (xs @ [i]) (rs @ [r]) True (Some (word_of_nat i, r)) w" using sd x(1) i by (intro side_next) simp_all
  then show ?thesis using True by simp
next
  case False
  let ?d = "d[last xs := \<lparr>lnk_next = word_of_nat i, lnk_data = last rs\<rparr>]"
  note wr = side_write [OF sd x(1,2) i(3), of "word_of_nat i"]
  have ne: "i \<noteq> last xs" using x(1,3) last_in_set by blast
  have "side ?d (xs @ [i]) (rs @ [r]) True (Some (word_of_nat i, r)) w"
    using wr(2) x(1) i ne by (intro side_next) simp_all
  then show ?thesis using False wr(1) by (intro exI [of _ ?d]) (auto simp: nth_list_update_neq)
qed

lemma split_step_low:
  assumes "split_inv high d0 n f us (word_of_nat i) s Lo RL Hi RH e" and "\<not> high r"
    and i: "i \<notin> insert n (set us)" "i < length d0" "us = [] \<longrightarrow> i = f" "d0 ! i = \<lparr>lnk_next = w, lnk_data = r\<rparr>"
    and n: "n < length d0" "n \<notin> set us" "length d0 < 2 ^ 32" and us: "set us \<subseteq> {..<length d0}"
  shows "\<exists>s' Lo' RL' Hi' RH' e'. split_step False (word_of_nat i) (d0 ! i) s = Some s' \<and> ss_data s' ! i = d0 ! i
    \<and> split_inv high d0 n f (us @ [i]) w s' Lo' RL' Hi' RH' e'"
proof -
  note I = split_invD [OF assms(1)]
  let ?d = "ss_data s"
  have di: "?d ! i = \<lparr>lnk_next = w, lnk_data = r\<rparr>" using I(2) i by simp
  have iL: "i \<noteq> e" "i \<notin> set Lo" "i \<notin> set Hi" using I(10) i(1) by blast+
  have H: "side ?d Hi RH False (gpos2 s) w" using I(4) by (rule side_weaken)
  have un: "insert e (insert i (set Lo \<union> set Hi)) = insert n (insert i (set us))" using I(10) by blast
  have ms: "mset (RL @ [r]) + mset RH = mset (map (\<lambda>p. lnk_data (d0 ! p)) (us @ [i]))" using I(15) i(4) by simp
  consider "Lo = []" "Hi = []" | "Lo = []" "Hi \<noteq> []" | "Lo \<noteq> []" by blast
  then show ?thesis
  proof cases
    case 1
    have e: "e = n" "RL = []" using I(3,13) 1 by simp_all
    then have u: "us = []" using I(10) 1 n(2) by (cases us) auto
    let ?s = "s\<lparr>lowfind := True, lowused := True, highused := False, gpos := Some (word_of_nat i, r)\<rparr>"
    have "side ?d [i] [r] True (Some (word_of_nat i, r)) w" using i(2) I(1) di by (intro side_here) simp_all
    then have "split_inv high d0 n f (us @ [i]) w ?s [i] [r] Hi RH e"
      using I(1,2,7,8,15,17) i(3) assms(2) 1 u un e ms H i(1) by (intro split_invI) (simp add: insert_commute)
    moreover have "split_step False (word_of_nat i) (d0 ! i) s = Some ?s" using I(6,7) 1 i(4) by (simp add: split_step_def)
    moreover have "ss_data ?s ! i = d0 ! i" using di i(4) by simp
    ultimately show ?thesis by blast
  next
    case 2
    then have e: "e = f" "RL = []" "e < length ?d" using I(1,3,10,14) n(1) us by auto
    let ?s = "s\<lparr>lowfind := True, lowused := False, highused := False, gpos := Some (word_of_nat e, r), ss_empty := word_of_nat i\<rparr>"
    have "side ?d [e] [r] False (Some (word_of_nat e, r)) w" using e(3) by (rule side_start)
    then have "split_inv high d0 n f (us @ [i]) w ?s [e] [r] Hi RH i"
      using I(1,2,7,9,12,17) assms(2) 2 un e ms H iL by (intro split_invI) (simp add: insert_commute)
    moreover have "split_step False (word_of_nat i) (d0 ! i) s = Some ?s" using I(6-8) 2 i(4) by (simp add: split_step_def)
    moreover have "ss_data ?s ! i = d0 ! i" using di i(4) by simp
    ultimately show ?thesis by blast
  next
    case 3
    then have lL: "last Lo \<in> set Lo" by simp
    obtain d' where d': "(if \<not> lowused s then write_pos (gpos s) (word_of_nat i) ?d else Some ?d) = Some d'" "length d' = length ?d"
      "\<forall>p. p \<noteq> last Lo \<longrightarrow> d' ! p = ?d ! p" "side d' (Lo @ [i]) (RL @ [r]) True (Some (word_of_nat i, r)) w"
      using side_extend [OF I(3) 3 _ iL(2) _ di] I(1,9) i(2) n(3) by auto
    have d'i: "d' ! i = \<lparr>lnk_next = w, lnk_data = r\<rparr>" using d'(3) di iL(2) lL by metis
    let ?s = "s\<lparr>ss_data := d', lowused := True, highused := False, gpos := Some (word_of_nat i, r)\<rparr>"
    have "last Lo \<notin> set Hi" using I(9) lL by (meson disjoint_iff distinct.simps(2) distinct_append)
    then have "side d' Hi RH False (gpos2 s) w"
      using d'(3) by (intro side_frame [OF H d'(2)]) metis
    moreover have "d' ! p = d0 ! p" if "p \<notin> insert n (set (us @ [i]))" for p
    proof -
      have "p \<notin> insert n (set us)" using that by simp
      moreover from this have "p \<noteq> last Lo" using I(10) lL by blast
      ultimately show ?thesis using d'(3) I(2) by metis
    qed
    ultimately have "split_inv high d0 n f (us @ [i]) w ?s (Lo @ [i]) (RL @ [r]) Hi RH e"
      using I(1,6-9,11-14,16,17) d' assms(2) 3 un ms iL by (intro split_invI) (auto simp: insert_commute)
    moreover have "split_step False (word_of_nat i) (d0 ! i) s = Some ?s"
      using I(1,5,6) 3 d'(1,2) d'i i(2) n(3) by (cases "lowused s") (auto simp: split_step_def link_at_index)
    moreover have "ss_data ?s ! i = d0 ! i" using d'i i(4) by simp
    ultimately show ?thesis by blast
  qed
qed

lemma split_step_high:
  assumes "split_inv high d0 n f us (word_of_nat i) s Lo RL Hi RH e" and "high r"
    and i: "i \<notin> insert n (set us)" "i < length d0" "us = [] \<longrightarrow> i = f" "d0 ! i = \<lparr>lnk_next = w, lnk_data = r\<rparr>"
    and n: "n < length d0" "n \<notin> set us" "length d0 < 2 ^ 32" and us: "set us \<subseteq> {..<length d0}"
  shows "\<exists>s' Lo' RL' Hi' RH' e'. split_step True (word_of_nat i) (d0 ! i) s = Some s' \<and> ss_data s' ! i = d0 ! i
    \<and> split_inv high d0 n f (us @ [i]) w s' Lo' RL' Hi' RH' e'"
proof -
  note I = split_invD [OF assms(1)]
  let ?d = "ss_data s"
  have di: "?d ! i = \<lparr>lnk_next = w, lnk_data = r\<rparr>" using I(2) i by simp
  have iL: "i \<noteq> e" "i \<notin> set Lo" "i \<notin> set Hi" using I(10) i(1) by blast+
  have L: "side ?d Lo RL False (gpos s) w" using I(3) by (rule side_weaken)
  have un: "insert e (insert i (set Lo \<union> set Hi)) = insert n (insert i (set us))" using I(10) by blast
  have ms: "mset RL + mset (RH @ [r]) = mset (map (\<lambda>p. lnk_data (d0 ! p)) (us @ [i]))" using I(15) i(4) by simp
  show ?thesis
  proof (cases "Hi = []")
    case True
    then have e: "e = n" "RH = []" "e < length ?d" using I(1,4,13) n(1) by simp_all
    have f: "i = f" if "Lo = []" using I(10) True that e(1) n(2) i(3) by (cases us) auto
    let ?s = "s\<lparr>highfind := True, lowused := False, highused := False, gpos2 := Some (word_of_nat e, r), ss_empty := word_of_nat i\<rparr>"
    have "side ?d [e] [r] False (Some (word_of_nat e, r)) w" using e(3) by (rule side_start)
    then have "split_inv high d0 n f (us @ [i]) w ?s Lo RL [e] [r] i"
      using I(1,2,6,9,11,16) assms(2) True un e f ms L iL by (intro split_invI) (auto simp: insert_commute)
    moreover have "split_step True (word_of_nat i) (d0 ! i) s = Some ?s" using I(7,8) True i(4) by (simp add: split_step_def)
    moreover have "ss_data ?s ! i = d0 ! i" using di i(4) by simp
    ultimately show ?thesis by blast
  next
    case False
    then have lH: "last Hi \<in> set Hi" by simp
    obtain d' where d': "(if \<not> highused s then write_pos (gpos2 s) (word_of_nat i) ?d else Some ?d) = Some d'" "length d' = length ?d"
      "\<forall>p. p \<noteq> last Hi \<longrightarrow> d' ! p = ?d ! p" "side d' (Hi @ [i]) (RH @ [r]) True (Some (word_of_nat i, r)) w"
      using side_extend [OF I(4) False _ iL(3) _ di] I(1,9) i(2) n(3) by auto
    have d'i: "d' ! i = \<lparr>lnk_next = w, lnk_data = r\<rparr>" using d'(3) di iL(3) lH by metis
    let ?s = "s\<lparr>ss_data := d', lowused := False, highused := True, gpos2 := Some (word_of_nat i, r)\<rparr>"
    have "last Hi \<notin> set Lo" using I(9) lH by (meson disjoint_iff distinct.simps(2) distinct_append)
    then have "side d' Lo RL False (gpos s) w"
      using d'(3) by (intro side_frame [OF L d'(2)]) metis
    moreover have "d' ! p = d0 ! p" if "p \<notin> insert n (set (us @ [i]))" for p
    proof -
      have "p \<notin> insert n (set us)" using that by simp
      moreover from this have "p \<noteq> last Hi" using I(10) lH by blast
      ultimately show ?thesis using d'(3) I(2) by metis
    qed
    ultimately have "split_inv high d0 n f (us @ [i]) w ?s Lo RL (Hi @ [i]) (RH @ [r]) e"
      using I(1,6-9,11-14,16,17) d' assms(2) False un ms iL by (intro split_invI) (auto simp: insert_commute)
    moreover have "split_step True (word_of_nat i) (d0 ! i) s = Some ?s"
      using I(1,5,7) False d'(1,2) d'i i(2) n(3) by (cases "highused s") (auto simp: split_step_def link_at_index)
    moreover have "ss_data ?s ! i = d0 ! i" using d'i i(4) by simp
    ultimately show ?thesis by blast
  qed
qed

lemma split_step_inv:
  assumes inv: "split_inv high d0 n f us (word_of_nat i) s Lo RL Hi RH e"
    and i: "i \<notin> insert n (set us)" "i < length d0" "us = [] \<longrightarrow> i = f" "d0 ! i = \<lparr>lnk_next = w, lnk_data = r\<rparr>"
    and n: "n < length d0" "n \<notin> set us" "length d0 < 2 ^ 32" and us: "set us \<subseteq> {..<length d0}"
  obtains s' Lo' RL' Hi' RH' e' where "split_step (high r) (word_of_nat i) (d0 ! i) s = Some s'" and "ss_data s' ! i = d0 ! i"
    and "split_inv high d0 n f (us @ [i]) w s' Lo' RL' Hi' RH' e'"
proof (cases "high r")
  case True
  then show thesis using split_step_high [OF inv True i n us] that by auto
next
  case False
  then show thesis using split_step_low [OF inv False i n us] that by auto
qed

text \<open>The whole loop, from any visited place on.\<close>

lemma split_loop_ok:
  assumes "split_inv high d0 n f us (case vs of [] \<Rightarrow> NO_RECORD | q # _ \<Rightarrow> word_of_nat q) s Lo RL Hi RH e" and "vs \<noteq> []"
    and "distinct (n # us @ vs)" and "linked d0 (us @ vs) NO_RECORD" and "hd (us @ vs) = f"
    and "n < length d0" and "length d0 < 2 ^ 32 - 1"
    and "\<And>p. p \<in> set vs \<Longrightarrow> \<exists>nr. rec_hashnr obj info (lnk_data (d0 ! p)) = Some nr \<and> (nr AND halfbuff \<noteq> 0 \<longleftrightarrow> high (lnk_data (d0 ! p)))
      \<and> (first \<longrightarrow> p = hd vs \<longrightarrow> hash_mask nr (blength info) (records info) = word_of_nat p)"
  shows "\<exists>s' Lo' RL' Hi' RH' e'. split_loop obj info halfbuff first (word_of_nat (hd vs)) s = Some s'
    \<and> split_inv high d0 n f (us @ vs) NO_RECORD s' Lo' RL' Hi' RH' e'"
  using assms
proof (induction vs arbitrary: us s Lo RL Hi RH e first)
  case (Cons i vs)
  note I = split_invD [OF Cons.prems(1)]
  let ?w = "case vs of [] \<Rightarrow> NO_RECORD | q # _ \<Rightarrow> word_of_nat q" and ?r = "lnk_data (d0 ! i)"
  have sub: "set (us @ i # vs) \<subseteq> {..<length d0}" using Cons.prems(4) by (rule linked_set)
  have nx: "lnk_next (d0 ! i) = ?w" using Cons.prems(4) by (simp only: linked_append linked.simps)
  then have di: "d0 ! i = \<lparr>lnk_next = ?w, lnk_data = ?r\<rparr>" by simp
  have i: "i \<notin> insert n (set us)" "i < length d0" "us = [] \<longrightarrow> i = f" using Cons.prems(3,5) sub by auto
  have n: "n \<notin> set us" "length d0 < 2 ^ 32" "set us \<subseteq> {..<length d0}" using Cons.prems(3,7) sub by auto
  obtain nr where nr: "rec_hashnr obj info ?r = Some nr" "nr AND halfbuff \<noteq> 0 \<longleftrightarrow> high ?r"
    "\<not> (first \<and> hash_mask nr (blength info) (records info) \<noteq> word_of_nat i)"
    using Cons.prems(8) [of i] by auto
  have "split_inv high d0 n f us (word_of_nat i) s Lo RL Hi RH e" using Cons.prems(1) by simp
  then obtain s' Lo' RL' Hi' RH' e' where st: "split_step (high ?r) (word_of_nat i) (d0 ! i) s = Some s'" "ss_data s' ! i = d0 ! i"
    "split_inv high d0 n f (us @ [i]) ?w s' Lo' RL' Hi' RH' e'"
    by (rule split_step_inv [OF _ i di Cons.prems(6) n])
  have at: "link_at (ss_data s) (word_of_nat i) = Some (d0 ! i)"
    using I(1,2) i n(2) by (simp add: link_at_index)
  have at': "link_at (ss_data s') (word_of_nat i) = Some (d0 ! i)"
    using split_invD(1) [OF st(3)] st(2) i(2) n(2) by (simp add: link_at_index)
  have step: "split_loop obj info halfbuff first (word_of_nat i) s =
      (if ?w \<noteq> NO_RECORD then split_loop obj info halfbuff False ?w s' else Some s')"
    by (subst split_loop.simps) (use at at' nr(1,2) st(1) nx in \<open>simp add: if_not_P [OF nr(3)]\<close>)
  show ?case
  proof (cases vs)
    case Nil
    then show ?thesis using step st(3) by simp blast
  next
    case (Cons j js)
    have "j < length d0" using sub Cons by simp
    then have "word_of_nat j \<noteq> (NO_RECORD :: 32 word)" using Cons.prems(7) by (intro word_index_NO) simp
    then have "split_loop obj info halfbuff first (word_of_nat i) s = split_loop obj info halfbuff False (word_of_nat (hd vs)) s'"
      using step Cons by simp
    moreover have "\<exists>nr. rec_hashnr obj info (lnk_data (d0 ! p)) = Some nr \<and> (nr AND halfbuff \<noteq> 0 \<longleftrightarrow> high (lnk_data (d0 ! p)))
        \<and> (False \<longrightarrow> p = hd vs \<longrightarrow> hash_mask nr (blength info) (records info) = word_of_nat p)" if "p \<in> set vs" for p
      using Cons.prems(8) [of p] that by auto
    ultimately show ?thesis using Cons.IH [OF st(3), of False] Cons.prems(3-7) Cons by simp
  qed
qed simp

lemma side_end:
  assumes sd: "side d xs rs u g NO_RECORD" and x: "distinct xs" "length d < 2 ^ 32"
  shows "\<exists>d'. (if xs \<noteq> [] \<and> \<not> u then write_pos g NO_RECORD d else Some d) = Some d' \<and> length d' = length d
    \<and> (\<forall>p. p \<notin> set xs \<longrightarrow> d' ! p = d ! p) \<and> linked d' xs NO_RECORD \<and> map (\<lambda>p. lnk_data (d' ! p)) xs = rs"
proof -
  consider "xs = []" | "xs \<noteq> []" u | "xs \<noteq> []" "\<not> u" by blast
  then show ?thesis
  proof cases
    case 1
    then show ?thesis using sd by simp
  next
    case 2
    then show ?thesis using side_linked [of d xs rs g NO_RECORD] sd by simp
  next
    case 3
    let ?d = "d[last xs := \<lparr>lnk_next = NO_RECORD, lnk_data = last rs\<rparr>]"
    note wr = side_write [OF sd 3(1) x, of NO_RECORD]
    have "?d ! p = d ! p" if "p \<notin> set xs" for p using that 3(1) by (metis last_in_set nth_list_update_neq)
    then show ?thesis using side_linked [OF wr(2)] wr(1) 3 by (intro exI [of _ ?d]) simp
  qed
qed

text \<open>The two chains at the end of the loop take the place of the chain that was split.\<close>

lemma split_done:
  assumes inv: "split_inv high d0 n f ps NO_RECORD s Lo RL Hi RH e" and ch: "chained K {..<n} d0 C" and ps: "C f = ps" and n: "n < length d0"
    "length d0 < 2 ^ 32" "f < n" "\<And>p. p < n \<Longrightarrow> K (lnk_data (d0 ! p)) < n"
    and K': "\<And>x. K' x = (if K x = f \<and> high x then n else K x)"
  shows "\<exists>s' C'. split_end s = Some s' \<and> ss_empty s' = word_of_nat e \<and> length (ss_data s') = length d0 \<and> e \<le> n
    \<and> chained K' ({..n} - {e}) (ss_data s') C' \<and> bag (ss_data s') ({..n} - {e}) = bag d0 {..<n}"
proof -
  note I = split_invD [OF inv]
  have pn: "set ps \<subseteq> {..<n}" "distinct ps" using chained_mem [OF ch, of _ f] chainedD(1) [OF ch, of f] ps by auto
  have dL: "distinct Lo" "distinct Hi" "set Lo \<inter> set Hi = {}" "e \<notin> set Lo" "e \<notin> set Hi" using I(9) by auto
  obtain d1 where d1: "(if Lo \<noteq> [] \<and> \<not> lowused s then write_pos (gpos s) NO_RECORD (ss_data s) else Some (ss_data s)) = Some d1"
    "length d1 = length d0" "\<forall>p. p \<notin> set Lo \<longrightarrow> d1 ! p = ss_data s ! p" "linked d1 Lo NO_RECORD" "map (\<lambda>p. lnk_data (d1 ! p)) Lo = RL"
    using side_end [OF I(3) dL(1)] I(1) n(2) by auto
  have "side d1 Hi RH (highused s) (gpos2 s) NO_RECORD"
    using d1(3) dL(3) by (intro side_frame [OF I(4)]) (auto simp: d1(2) I(1))
  then obtain d2 where d2: "(if Hi \<noteq> [] \<and> \<not> highused s then write_pos (gpos2 s) NO_RECORD d1 else Some d1) = Some d2"
    "length d2 = length d0" "\<forall>p. p \<notin> set Hi \<longrightarrow> d2 ! p = d1 ! p" "linked d2 Hi NO_RECORD" "map (\<lambda>p. lnk_data (d2 ! p)) Hi = RH"
    using side_end [of d1 Hi RH "highused s" "gpos2 s"] dL(2) d1(2) n(2) by auto
  have sL: "d2 ! p = d1 ! p" if "p \<in> set Lo" for p using d2(3) dL(3) that by auto
  have ld: "linked d2 Lo NO_RECORD" "map (\<lambda>p. lnk_data (d2 ! p)) Lo = RL"
    using linked_cong [OF sL] d1(2,4) d2(2) d1(5) sL by (simp, metis (mono_tags, lifting) map_eq_conv)
  have old: "d2 ! p = d0 ! p" if "p \<notin> insert n (set ps)" for p
  proof -
    have "p \<notin> set Lo" "p \<notin> set Hi" using that I(10) by blast+
    then show ?thesis using d1(3) d2(3) I(2) [OF that] by simp
  qed
  have le: "p \<le> n" if "p \<in> insert n (set ps)" for p using that pn(1) by auto
  have kp: "p < n \<and> K (lnk_data (d0 ! p)) = f" if "p \<in> set ps" for p using chained_mem [OF ch, of p f] ps that by simp
  have rs: "K r = f" if "r \<in> set RL \<union> set RH" for r
  proof -
    have "r \<in># mset RL + mset RH" using that by auto
    then show ?thesis using I(15) kp by auto
  qed
  have KL: "K' (lnk_data (d2 ! p)) = f" if "p \<in> set Lo" for p
    using that ld(2) rs [of "lnk_data (d2 ! p)"] I(16) [of "lnk_data (d2 ! p)"] by (auto simp: K')
  have KH: "K' (lnk_data (d2 ! p)) = n" if "p \<in> set Hi" for p
    using that d2(5) rs [of "lnk_data (d2 ! p)"] I(17) [of "lnk_data (d2 ! p)"] by (auto simp: K')
  have "split_end s = Some (s\<lparr>ss_data := d2\<rparr>)" using d1(1) d2(1) I(6,7) by (simp add: split_end_def)
  moreover have "chained K' ({..n} - {e}) d2 (\<lambda>j. if j \<in> {f, n} then if j = f then Lo else Hi else C j)"
  proof (rule chained_change [OF ch])
    show "set (if j \<in> {f, n} then if j = f then Lo else Hi else C j) = {p \<in> {..n} - {e}. K' (lnk_data (d2 ! p)) = j}" for j
    proof (rule set_eqI)
      fix p
      have m: "p \<in> set (C j) \<longleftrightarrow> p < n \<and> K (lnk_data (d0 ! p)) = j" using chained_mem [OF ch, of p j] by simp
      consider "p \<in> set Lo" | "p \<in> set Hi" | "p = e" | "p \<notin> insert n (set ps)" using I(10) by blast
      then show "p \<in> set (if j \<in> {f, n} then if j = f then Lo else Hi else C j) \<longleftrightarrow> p \<in> {p \<in> {..n} - {e}. K' (lnk_data (d2 ! p)) = j}"
      proof cases
        case 1
        then have "p \<in> insert n (set ps)" "p \<notin> set Hi" "p \<noteq> e" "K' (lnk_data (d2 ! p)) = f" using KL I(10) dL by blast+
        then show ?thesis using 1 m le [of p] n(3) kp by (cases "j = f"; cases "j = n") auto
      next
        case 2
        then have "p \<in> insert n (set ps)" "p \<notin> set Lo" "p \<noteq> e" "K' (lnk_data (d2 ! p)) = n" using KH I(10) dL by blast+
        then show ?thesis using 2 m le [of p] n(3) kp by (cases "j = f"; cases "j = n") auto
      next
        case 3
        then have "p \<in> insert n (set ps)" "p \<notin> set Lo" "p \<notin> set Hi" using I(10) dL by blast+
        then show ?thesis using 3 m kp by (cases "j = f"; cases "j = n") auto
      next
        case 4
        then have "p \<noteq> n" "p \<notin> set Lo" "p \<notin> set Hi" "p \<noteq> e" "d2 ! p = d0 ! p" using I(10) old by blast+
        moreover have "p < n \<Longrightarrow> K (lnk_data (d0 ! p)) \<noteq> f" using 4 chained_mem [OF ch, of p f] ps by simp
        ultimately show ?thesis using m n(3) n(4) [of p] by (cases "j = f"; cases "j = n") (auto simp: K')
      qed
    qed
    show "d2 ! p = d0 ! p" if "j \<notin> {f, n}" "p \<in> set (C j)" for j p
      using that chained_mem [OF ch, of p j] kp by (intro old) auto
    show "distinct (if j = f then Lo else Hi) \<and> linked d2 (if j = f then Lo else Hi) NO_RECORD
        \<and> ((if j = f then Lo else Hi) \<noteq> [] \<longrightarrow> hd (if j = f then Lo else Hi) = j)" if "j \<in> {f, n}" for j
      using that dL ld(1) d2(4) I(11,12) by auto
  qed (rule d2(2))
  moreover have "bag d2 ({..n} - {e}) = bag d0 {..<n}"
  proof -
    let ?R = "{..<n} - set ps"
    have "{..n} = insert n (set ps) \<union> ?R" using pn(1) by auto
    also have "insert n (set ps) = insert e (set Lo \<union> set Hi)" using I(10) by simp
    finally have "{..n} - {e} = (set Lo \<union> set Hi) \<union> ?R" using dL(4,5) I(10) by auto
    moreover have "(set Lo \<union> set Hi) \<inter> ?R = {}" using I(10) by auto
    ultimately have "bag d2 ({..n} - {e}) = bag d2 (set Lo) + bag d2 (set Hi) + bag d2 ?R" using dL(3) by (simp add: bag_Un)
    also have "bag d2 (set Lo) + bag d2 (set Hi) = bag d0 (set ps)"
      unfolding bag_list [OF dL(1)] bag_list [OF dL(2)] bag_list [OF pn(2)] ld(2) d2(5) by (rule I(15))
    also have "bag d2 ?R = bag d0 ?R" using old by (intro bag_cong) auto
    also have "bag d0 (set ps) + bag d0 ?R = bag d0 (set ps \<union> ?R)" by (rule bag_Un [symmetric]) auto
    also have "set ps \<union> ?R = {..<n}" using pn(1) by auto
    finally show ?thesis .
  qed
  moreover have "e \<le> n" using I(10) pn by auto
  ultimately show ?thesis using I(8) d2(2) by auto
qed

subsection \<open>The index\<close>

definition rec_nr :: "('r \<Rightarrow> mem) \<Rightarrow> 'r OB_HASH \<Rightarrow> 'r \<Rightarrow> 32 word" where
  "rec_nr obj h r = hashnr h (the (hash_key obj h r))"

definition rec_bucket :: "('r \<Rightarrow> mem) \<Rightarrow> 'r OB_HASH \<Rightarrow> nat \<Rightarrow> nat \<Rightarrow> 'r \<Rightarrow> nat" where
  "rec_bucket obj h b n r = bucket b n (unat (rec_nr obj h r))"

text \<open>\<open>hash_ok obj h M\<close>: the index \<open>h\<close> is well-formed and holds the records \<open>M\<close>.\<close>

definition hash_ok :: "('r \<Rightarrow> mem) \<Rightarrow> 'r OB_HASH \<Rightarrow> 'r multiset \<Rightarrow> bool" where
  "hash_ok obj h M \<longleftrightarrow> (\<exists>d C. da_buffer (hs_array h) = Some d \<and> array_ok (hs_array h) (take (unat (records h)) d)
     \<and> unat (records h) \<le> length d \<and> size_of_element (hs_array h) = 16 \<and> length d * 16 < 2 ^ 32
     \<and> geometry (unat (blength h)) (unat (records h))
     \<and> chained (rec_bucket obj h (unat (blength h)) (unat (records h))) {..<unat (records h)} d C
     \<and> M = bag d {..<unat (records h)} \<and> (\<forall>r\<in>#M. hash_key obj h r \<noteq> None))"

lemma rec_hashnr_nr: "hash_key obj h r \<noteq> None \<Longrightarrow> rec_hashnr obj h r = Some (rec_nr obj h r)"
  by (auto simp: rec_hashnr_def rec_nr_def)

lemma word_of_unat: "word_of_nat (unat (x :: 32 word)) = x"
  by simp

lemma geometry_0: "geometry b 0 \<Longrightarrow> b = 1"
proof -
  assume "geometry b 0"
  then obtain k where "b = 2 ^ k" "b div 2 = 0" by (auto simp: geometry_def)
  then show ?thesis by (cases k) auto
qed

lemma geometry_word:
  assumes "geometry b n" and "m \<le> Suc n" and "0 < m"
  shows "hash_mask x (word_of_nat b) (word_of_nat m) = word_of_nat (bucket b m (unat x))"
proof -
  obtain k where b: "b = 2 ^ k" "n < b" "b < 2 ^ 32" using assms(1) by (auto simp: geometry_def)
  then have "m < 2 ^ 32" using assms(2) by simp
  then show ?thesis using hash_mask_bucket [OF b(1,3) assms(3), of x] by (metis word_of_unat)
qed

lemma bucket_le: "geometry b n \<Longrightarrow> bucket b (Suc n) h \<le> n"
proof -
  assume g: "geometry b n"
  show ?thesis
  proof (cases "n = 0")
    case True
    then have "b = 1" using g geometry_0 by simp
    then show ?thesis by (simp add: bucket_def)
  next
    case False
    then show ?thesis using bucket_less [OF g] bucket_split [OF g] by (metis le_less less_imp_le neq0_conv)
  qed
qed

text \<open>\<^verbatim>\<open>split_chain\<close> prepares the index for one place more.\<close>

lemma split_chain_ok:
  assumes g: "geometry b n" "records info = word_of_nat n" "blength info = word_of_nat b"
    and ch: "chained (rec_bucket obj info b n) {..<n} d C" and n: "n < length d" "length d < 2 ^ 32 - 1"
    and keys: "\<And>r. r \<in># bag d {..<n} \<Longrightarrow> hash_key obj info r \<noteq> None"
  shows "\<exists>d' e C'. split_chain obj info d (word_of_nat n) = Some (d', word_of_nat e) \<and> length d' = length d \<and> e \<le> n
    \<and> chained (rec_bucket obj info b (Suc n)) ({..n} - {e}) d' C' \<and> bag d' ({..n} - {e}) = bag d {..<n}"
proof (cases "n = 0")
  case True
  then have "b = 1" using g(1) geometry_0 by simp
  then have "split_chain obj info d (word_of_nat n) = Some (d, word_of_nat 0)" using True g(2,3) by (simp add: split_chain_def)
  moreover have "chained (rec_bucket obj info b (Suc n)) {} d C" using ch True by (intro chained_cong [OF ch [unfolded True lessThan_0]]) simp_all
  ultimately show ?thesis using True by (intro exI [of _ d] exI [of _ 0]) auto
next
  case False
  then have n0: "0 < n" by simp
  obtain k where b: "b = 2 ^ Suc k" using geometry_half [OF g(1) n0] by blast
  have bn: "b div 2 \<le> n" "n < b" "b < 2 ^ 32" using g(1) by (auto simp: geometry_def)
  have k: "k < 32" using b bn(3) by (metis Suc_lessD power_less_imp_less_exp one_less_numeral_iff semiring_norm(76))
  let ?f = "n - b div 2" and ?K = "rec_bucket obj info b n" and ?high = "\<lambda>r. odd (unat (rec_nr obj info r) div (b div 2))"
  have f: "?f < n" using n0 b by simp
  have half: "drop_bit 1 (blength info) = word_of_nat (b div 2)"
    using bn(3) g(3) by (intro word_unat_eq_iff [THEN iffD2]) (simp add: drop_bit_eq_div unat_div unat_word32)
  have "unat (word_of_nat n - word_of_nat (b div 2) :: 32 word) = ?f"
    using bn by (subst unat_sub) (simp_all add: unat_word32 word_le_nat_alt)
  then have idx: "records info - drop_bit 1 (blength info) = word_of_nat ?f"
    unfolding half g(2) by (metis word_of_unat)
  have idxn: "(word_of_nat ?f :: 32 word) \<noteq> records info" using word_index_eq [of ?f n] f bn g(2) by simp
  let ?s = "\<lparr>ss_data = d, lowfind = False, lowused = False, highfind = False, highused = False,
               gpos = None, gpos2 = None, ss_empty = word_of_nat n\<rparr>"
  have sc: "split_chain obj info d (word_of_nat n) = do {
      s \<leftarrow> split_loop obj info (word_of_nat (b div 2)) True (word_of_nat ?f) ?s;
      s \<leftarrow> split_end s;
      Some (ss_data s, ss_empty s) }"
    unfolding split_chain_def Let_def idx unfolding half using idxn by simp
  have K': "rec_bucket obj info b (Suc n) r = (if ?K r = ?f \<and> ?high r then n else ?K r)" for r
    unfolding rec_bucket_def by (rule bucket_split [OF g(1) n0])
  have nr: "rec_hashnr obj info (lnk_data (d ! p)) = Some (rec_nr obj info (lnk_data (d ! p)))" if "p < n" for p
    using keys in_bag [of "{..<n}" p d] that by (intro rec_hashnr_nr) auto
  have mask: "hash_mask (rec_nr obj info r) (blength info) (records info) = word_of_nat (?K r)" for r
    unfolding g(2,3) rec_bucket_def using n0 by (intro geometry_word [OF g(1)]) simp_all
  have Kn: "?K r < n" for r unfolding rec_bucket_def by (rule bucket_less [OF g(1) n0])
  have L: "length d < 2 ^ 32" using n(2) by simp
  show ?thesis
  proof (cases "C ?f")
    case Nil
    then have none: "?K (lnk_data (d ! p)) \<noteq> ?f" if "p < n" for p using chained_mem [OF ch, of p ?f] that by simp
    have "word_of_nat (?K (lnk_data (d ! ?f))) \<noteq> (word_of_nat ?f :: 32 word)"
      using none [OF f] word_index_eq [of "?K (lnk_data (d ! ?f))" ?f] Kn [of "lnk_data (d ! ?f)"] f bn by simp
    then have "split_loop obj info (word_of_nat (b div 2)) True (word_of_nat ?f) ?s = Some ?s"
      using nr [OF f] mask f n(1) L by (subst split_loop.simps) (simp add: link_at_index)
    then have "split_chain obj info d (word_of_nat n) = Some (d, word_of_nat n)" by (simp add: sc split_end_def)
    moreover have "chained (rec_bucket obj info b (Suc n)) {..<n} d C"
      by (rule chained_cong [OF ch]) (use none in \<open>simp_all add: K'\<close>)
    moreover have "{..n} - {n} = {..<n}" by auto
    ultimately show ?thesis by (intro exI [of _ d] exI [of _ n] exI [of _ C]) simp
  next
    case (Cons q qs)
    then have ps: "C ?f = ?f # qs" using chainedD(4) [OF ch, of ?f] by simp
    have dis: "distinct (n # [] @ C ?f)" using chainedD(1) [OF ch, of ?f] chained_mem [OF ch, of n ?f] by simp
    have sub: "p < n" if "p \<in> set (C ?f)" for p using that chained_mem [OF ch, of p ?f] by simp
    have inv0: "split_inv ?high d n ?f [] (case C ?f of [] \<Rightarrow> NO_RECORD | q # _ \<Rightarrow> word_of_nat q) ?s [] [] [] [] n"
      by (rule split_invI) simp
    obtain s Lo RL Hi RH e where s: "split_loop obj info (word_of_nat (b div 2)) True (word_of_nat (hd (C ?f))) ?s = Some s"
      "split_inv ?high d n ?f ([] @ C ?f) NO_RECORD s Lo RL Hi RH e"
    proof -
      have "\<exists>nr. rec_hashnr obj info (lnk_data (d ! p)) = Some nr \<and> (nr AND word_of_nat (b div 2) \<noteq> 0 \<longleftrightarrow> ?high (lnk_data (d ! p)))
        \<and> (True \<longrightarrow> p = hd (C ?f) \<longrightarrow> hash_mask nr (blength info) (records info) = word_of_nat p)" if "p \<in> set (C ?f)" for p
        using nr [OF sub [OF that]] bit_half [OF b k] mask chained_mem [OF ch, of p ?f] that ps
        by (intro exI [of _ "rec_nr obj info (lnk_data (d ! p))"]) auto
      then show thesis
        using split_loop_ok [OF inv0 _ dis, of obj info "word_of_nat (b div 2)" True] chainedD(2) [OF ch, of ?f] ps n that by auto
    qed
    obtain s' C' where s': "split_end s = Some s'" "ss_empty s' = word_of_nat e" "length (ss_data s') = length d" "e \<le> n"
      "chained (rec_bucket obj info b (Suc n)) ({..n} - {e}) (ss_data s') C'" "bag (ss_data s') ({..n} - {e}) = bag d {..<n}"
      using split_done [OF s(2) ch _ n(1) L f Kn K'] by auto
    have "split_chain obj info d (word_of_nat n) = Some (ss_data s', word_of_nat e)"
      unfolding sc using s(1) s'(1,2) ps by simp
    then show ?thesis using s' by blast
  qed
qed

lemma chained_resize:
  assumes "chained K P d C" and "P \<subseteq> {..<n}" and "n \<le> length d" and "n \<le> length d'" and "\<And>p. p < n \<Longrightarrow> d' ! p = d ! p"
  shows "chained K P d' C"
proof -
  have l: "linked d' ps e" if "linked d ps e" "set ps \<subseteq> {..<n}" for ps e
    using that assms(3-5) by (induction ps) auto
  have s: "set (C k) \<subseteq> {..<n}" for k using chainedD(3) [OF assms(1), of k] assms(2) by blast
  have "{p \<in> P. K (lnk_data (d' ! p)) = k} = {p \<in> P. K (lnk_data (d ! p)) = k}" for k using assms(2,5) by auto
  then show ?thesis using assms(1) l [OF _ s] by (simp add: chained_def)
qed

lemma alloc_dynamic_max:
  assumes "ma_alloc_dynamic realloc a = (Some i, a')" and "array_ok a xs" and "fits a (length xs)"
    and "unat (max_element a) * unat (size_of_element a) < 2 ^ 32"
  shows "unat (max_element a') * unat (size_of_element a) < 2 ^ 32"
proof -
  consider "max_element a' = max_element a" | "max_element a' = max_element a + alloc_increment a" "elements a = max_element a"
    using assms(1) by (auto simp: ma_alloc_dynamic_def split: if_splits option.splits)
  then show ?thesis
  proof cases
    case 2
    then have "unat (max_element a') \<le> length xs + unat (alloc_increment a)"
      using assms(2) unat_plus_if_size [of "max_element a" "alloc_increment a"] by (auto simp: array_ok_def)
    then show ?thesis using assms(3) unfolding fits_def by (meson le_less_trans mult_le_mono1)
  qed (use assms(4) in simp)
qed

lemma array_ok_length: "array_ok a xs \<Longrightarrow> da_buffer a = Some d \<Longrightarrow> length d = unat (max_element a)"
  by (auto simp: array_ok_def)

lemma array_ok_buffer:
  assumes "array_ok a xs" and "length d = unat (max_element a)"
  shows "array_ok (a\<lparr>da_buffer := Some d\<rparr>) (take (length xs) d)"
proof -
  have "length xs \<le> length d" using assms by (auto simp: array_ok_def)
  then show ?thesis using assms
    by (auto simp: array_ok_def intro!: exI [of _ "drop (length xs) d"])
qed

text \<open>The members that determine keys and hash numbers, and those of the array that no operation changes.\<close>

definition same_keys :: "'r OB_HASH \<Rightarrow> 'r OB_HASH \<Rightarrow> bool" where
  "same_keys h h' \<longleftrightarrow> key_offset h' = key_offset h \<and> key_length h' = key_length h \<and> get_key h' = get_key h
     \<and> hs_calc_hashnr h' = hs_calc_hashnr h \<and> hs_free h' = hs_free h
     \<and> alloc_increment (hs_array h') = alloc_increment (hs_array h)"

lemma same_keys_nr:
  assumes "same_keys h h'"
  shows "hash_key obj h' = hash_key obj h" and "hashnr h' = hashnr h" and "rec_nr obj h' = rec_nr obj h"
    and "rec_bucket obj h' = rec_bucket obj h" and "rec_hashnr obj h' = rec_hashnr obj h"
    and "hash_rec_mask obj h' = hash_rec_mask obj h" and "hashcmp obj h' = hashcmp obj h"
proof -
  show k: "hash_key obj h' = hash_key obj h" using assms by (auto simp: fun_eq_iff same_keys_def hash_key_def split: option.split)
  show n: "hashnr h' = hashnr h" using assms by (simp add: fun_eq_iff same_keys_def hashnr_def)
  show r: "rec_nr obj h' = rec_nr obj h" by (simp add: fun_eq_iff rec_nr_def k n)
  show "rec_bucket obj h' = rec_bucket obj h" by (simp add: fun_eq_iff rec_bucket_def r)
  show "rec_hashnr obj h' = rec_hashnr obj h" "hash_rec_mask obj h' = hash_rec_mask obj h" "hashcmp obj h' = hashcmp obj h"
    by (simp_all add: fun_eq_iff rec_hashnr_def hash_rec_mask_def hashcmp_def k n)
qed

lemma geometry_grow:
  assumes "geometry b n" and "n < 2 ^ 30"
  shows "if Suc n = b then geometry (b + b) (Suc n) else geometry b (Suc n)"
proof (cases "Suc n = b")
  case True
  moreover have "\<exists>k. b + b = 2 ^ k" using assms(1) unfolding geometry_def by (metis mult_2 power_Suc)
  ultimately show ?thesis using assms by (auto simp: geometry_def)
qed (use assms in \<open>auto simp: geometry_def\<close>)

lemma bucket_grow: "geometry b n \<Longrightarrow> Suc n = b \<Longrightarrow> bucket (b + b) (Suc n) x = bucket b (Suc n) x"
  using bucket_double by (auto simp: geometry_def)

lemma hash_insert_ok:
  assumes ok: "hash_ok obj h M" and re: "realloc_grows realloc" and ft: "fits (hs_array h) (unat (records h))"
    and key: "hash_key obj h r \<noteq> None"
  shows "\<exists>fail h'. hash_insert realloc obj h r = Some (fail, h') \<and> same_keys h h'
    \<and> hash_ok obj h' (if fail then M else add_mset r M) \<and> (fail \<longrightarrow> (\<exists>b n. realloc b n = None))"
proof -
  let ?n = "unat (records h)" and ?b = "unat (blength h)" and ?a = "hs_array h"
  obtain d C where d: "da_buffer ?a = Some d" "array_ok ?a (take ?n d)" "?n \<le> length d" "size_of_element ?a = 16" "length d * 16 < 2 ^ 32"
    "geometry ?b ?n" "chained (rec_bucket obj h ?b ?n) {..<?n} d C" "M = bag d {..<?n}" "\<And>x. x \<in># M \<Longrightarrow> hash_key obj h x \<noteq> None"
    using ok unfolding hash_ok_def by blast
  have lt: "length (take ?n d) = ?n" using d(3) by simp
  have el: "elements ?a = records h" using d(2) lt by (auto simp: array_ok_def word_unat_eq_iff)
  have mx: "unat (max_element ?a) * unat (size_of_element ?a) < 2 ^ 32" using array_ok_length [OF d(2,1)] d(4,5) by simp
  have ft': "fits ?a (length (take ?n d))" using ft lt by simp
  show ?thesis
  proof (cases rule: alloc_dynamic_ok [OF d(2) re ft'])
    case 1
    then have "\<exists>b n. realloc b n = None" by (auto simp: ma_alloc_dynamic_def split: if_splits option.splits)
    then show ?thesis using ok 1 by (intro exI [of _ True] exI [of _ h]) (simp add: hash_insert_def same_keys_def)
  next
    case (2 a' y)
    obtain d' where d': "da_buffer a' = Some d'" "take (Suc ?n) d' = take ?n d @ [y]" "length d' = unat (max_element a')" "?n < length d'"
      using 2(2) lt by (auto simp: array_ok_def)
    have nth: "d' ! p = d ! p" if "p < ?n" for p
      using that d'(2) d(3) by (metis append_take_drop_id less_SucI lt nth_append nth_take)
    have len: "length d' * 16 < 2 ^ 32" using alloc_dynamic_max [OF 2(1) d(2) ft' mx] d'(3) d(4) by simp
    then have ld: "length d' < 2 ^ 32 - 1" and n30: "?n < 2 ^ 30" using d'(4) by simp_all
    let ?h = "h\<lparr>hs_array := a', current_record := NO_RECORD\<rparr>"
    have sk: "same_keys h ?h" using 2(3) by (simp add: same_keys_def)
    have "chained (rec_bucket obj h ?b ?n) {..<?n} d' C" by (rule chained_resize [OF d(7) _ d(3)]) (use d'(4) nth in auto)
    moreover have "bag d' {..<?n} = M" using nth by (auto simp: d(8) intro: bag_cong)
    ultimately obtain d1 e C1 where d1: "split_chain obj ?h d' (word_of_nat ?n) = Some (d1, word_of_nat e)" "length d1 = length d'" "e \<le> ?n"
      "chained (rec_bucket obj h ?b (Suc ?n)) ({..?n} - {e}) d1 C1" "bag d1 ({..?n} - {e}) = M"
      using split_chain_ok [of ?b ?n ?h obj d' C, unfolded same_keys_nr [OF sk]] d(6,9) d'(4) ld by auto
    obtain d2 C2 where d2: "place_record obj ?h r d1 (word_of_nat e) = Some d2" "length d2 = length d1"
      "chained (rec_bucket obj h ?b (Suc ?n)) {..<Suc ?n} d2 C2" "bag d2 {..<Suc ?n} = add_mset r M"
    proof -
      have K: "rec_bucket obj h ?b (Suc ?n) x < Suc ?n" for x unfolding rec_bucket_def using bucket_le [OF d(6)] by (simp add: le_imp_less_Suc)
      have "rec_hashnr obj ?h x = Some (rec_nr obj h x) \<and>
          hash_mask (rec_nr obj h x) (blength ?h) (records ?h + 1) = word_of_nat (rec_bucket obj h ?b (Suc ?n) x)"
        if "x = r \<or> x \<in># bag d1 ({..?n} - {e})" for x
      proof -
        have "hash_key obj h x \<noteq> None" using that key d(9) d1(5) by auto
        then show ?thesis using rec_hashnr_nr [of obj h x] geometry_word [OF d(6), of "Suc ?n" "rec_nr obj h x"] same_keys_nr [OF sk]
          by (simp add: rec_bucket_def add.commute)
      qed
      moreover have "insert e ({..?n} - {e}) = {..<Suc ?n}" using d1(3) by auto
      ultimately show thesis
        using place_record_ok [OF d1(4), of e "Suc ?n" r obj ?h "rec_nr obj h"] K d1(2,5) d'(4) ld that by auto
    qed
    let ?h2 = "?h\<lparr>hs_array := a'\<lparr>da_buffer := Some d2\<rparr>, records := records h + 1\<rparr>"
    let ?h3 = "if records ?h2 = blength ?h2 then ?h2\<lparr>blength := blength ?h2 + blength ?h2\<rparr> else ?h2"
    have "hash_insert realloc obj h r = Some (False, ?h3)"
      using 2(1) d'(1) d1(1) d2(1) el by (simp add: hash_insert_def Let_def)
    moreover have "same_keys h ?h3" using 2(3) by (simp add: same_keys_def)
    moreover have "hash_ok obj ?h3 (add_mset r M)"
    proof -
      have un: "unat (records h + 1) = Suc ?n" using n30 unat_plus [of "records h" 1] by simp
      have bb: "Suc ?n = ?b \<Longrightarrow> unat (blength h + blength h) = ?b + ?b" using n30 unat_plus [of "blength h" "blength h"] by simp
      have eqb: "records h + 1 = blength h \<longleftrightarrow> Suc ?n = ?b" by (metis un word_unat_eq_iff)
      have r3: "unat (records ?h3) = Suc ?n" and a3: "hs_array ?h3 = a'\<lparr>da_buffer := Some d2\<rparr>" using un eqb by auto
      have b3: "unat (blength ?h3) = (if Suc ?n = ?b then ?b + ?b else ?b)" using eqb bb by simp
      have arr: "array_ok (a'\<lparr>da_buffer := Some d2\<rparr>) (take (Suc ?n) d2)"
        using array_ok_buffer [OF 2(2), of d2] lt d2(2) d1(2) d'(3) by simp
      have bk: "rec_bucket obj ?h3 (unat (blength ?h3)) (Suc ?n) x = rec_bucket obj h ?b (Suc ?n) x" for x
        using bucket_grow [OF d(6)] unfolding rec_bucket_def same_keys_nr(3) [OF \<open>same_keys h ?h3\<close>] b3 by simp
      have ks: "\<forall>x\<in>#add_mset r M. hash_key obj ?h3 x \<noteq> None"
        using key d(9) unfolding same_keys_nr(1) [OF \<open>same_keys h ?h3\<close>] by auto
      have ch: "chained (rec_bucket obj ?h3 (unat (blength ?h3)) (Suc ?n)) {..<Suc ?n} d2 C2"
        by (rule chained_cong [OF d2(3)]) (simp_all only: bk)
      have ge: "geometry (unat (blength ?h3)) (Suc ?n)" using geometry_grow [OF d(6) n30] unfolding b3 by (simp split: if_splits)
      show ?thesis unfolding hash_ok_def r3 a3
        using arr d2(2) d1(2) d'(4) d(4) 2(4) len ge ch d2(4) ks
        by (intro exI [of _ d2] exI [of _ C2] conjI) simp_all
    qed
    ultimately show ?thesis by (intro exI [of _ False] exI [of _ ?h3]) simp
  qed
qed

end
