(* ===== verification/MaHashDelete.thy ===== *)
theory MaHashDelete
  imports MaHashSplit
begin

text \<open>
  Searching and deleting in the hash index of \<^verbatim>\<open>src/libmariadb/ma_hash.c\<close>: the chain walk of \<^verbatim>\<open>hash_search\<close>, the unlinking
  of a record in \<^verbatim>\<open>hash_delete\<close> and the move of the last link into the free place, which merges the last bucket into the
  one it was split from.
\<close>

unbundle bit_operations_syntax

subsection \<open>Searching\<close>

text \<open>With its whole length a key is compared as a sequence of bytes.\<close>

lemma hashcmp_key:
  assumes "hash_key obj h (lnk_data l) = Some k" and "len \<noteq> 0" and "unat len = length key"
  shows "hashcmp obj h l key len = Some (k \<noteq> key)"
  using assms by (auto simp: hashcmp_def load_bytes_def)

fun first_match :: "('r \<Rightarrow> bool) \<Rightarrow> 'r OB_HASH_LINK list \<Rightarrow> nat list \<Rightarrow> (32 word \<times> 'r) option" where
  "first_match Q d [] = None"
| "first_match Q d (p # ps) = (if Q (lnk_data (d ! p)) then Some (word_of_nat p, lnk_data (d ! p)) else first_match Q d ps)"

lemma first_match_None: "first_match Q d ps = None \<longleftrightarrow> (\<forall>p\<in>set ps. \<not> Q (lnk_data (d ! p)))"
  by (induction ps) auto

lemma first_match_Some: "first_match Q d ps = Some (i, r) \<Longrightarrow> Q r \<and> (\<exists>p\<in>set ps. lnk_data (d ! p) = r)"
  by (induction ps) (auto split: if_splits)

lemma search_loop_chain:
  assumes "linked d ps NO_RECORD" and "ps \<noteq> []" and "length d < 2 ^ 32 - 1" and "len \<noteq> 0" and "unat len = length key"
    and "\<And>p. p \<in> set ps \<Longrightarrow> hash_key obj h (lnk_data (d ! p)) \<noteq> None"
    and "first \<longrightarrow> hash_rec_mask obj h (d ! hd ps) (blength h) (records h) = Some (word_of_nat (hd ps))"
  shows "search_loop obj h d key len first (word_of_nat (hd ps)) = Some (first_match (\<lambda>r. hash_key obj h r = Some key) d ps)"
  using assms
proof (induction ps arbitrary: first)
  case (Cons p ps)
  obtain k where k: "hash_key obj h (lnk_data (d ! p)) = Some k" using Cons.prems(6) by force
  have at: "link_at d (word_of_nat p) = Some (d ! p)" using Cons.prems(1,3) by (intro link_at_index) simp_all
  have cmp: "hashcmp obj h (d ! p) key len = Some (k \<noteq> key)" by (rule hashcmp_key [OF k Cons.prems(4,5)])
  let ?nx = "lnk_next (d ! p)"
  have step: "search_loop obj h d key len first (word_of_nat p) =
      (if k = key then Some (Some (word_of_nat p, lnk_data (d ! p)))
       else if ?nx \<noteq> NO_RECORD then search_loop obj h d key len False ?nx else Some None)"
    using Cons.prems(7) by (subst search_loop.simps) (cases first; simp add: at cmp)
  show ?case
  proof (cases ps)
    case Nil
    then show ?thesis using step Cons.prems(1) k by simp
  next
    case (Cons q qs)
    have q: "?nx = word_of_nat q" "q < length d" using Cons.prems(1) Cons by simp_all
    then have "?nx \<noteq> NO_RECORD" using Cons.prems(3) word_index_NO [of q] by simp
    moreover have "search_loop obj h d key len False (word_of_nat (hd ps)) = Some (first_match (\<lambda>r. hash_key obj h r = Some key) d ps)"
      using Cons.prems Cons by (intro Cons.IH) auto
    ultimately show ?thesis using step q(1) k Cons by simp
  qed
qed simp

lemma hash_okE:
  assumes "hash_ok obj h M"
  obtains d C where "da_buffer (hs_array h) = Some d" and "array_ok (hs_array h) (take (unat (records h)) d)"
    and "unat (records h) \<le> length d" and "size_of_element (hs_array h) = 16" and "length d * 16 < 2 ^ 32"
    and "geometry (unat (blength h)) (unat (records h))"
    and "chained (rec_bucket obj h (unat (blength h)) (unat (records h))) {..<unat (records h)} d C"
    and "M = bag d {..<unat (records h)}" and "\<And>r. r \<in># M \<Longrightarrow> hash_key obj h r \<noteq> None"
  using assms unfolding hash_ok_def by blast

text \<open>The place at which the chain of a key starts, or a place of another chain when there is none.\<close>

lemma hash_mask_place:
  assumes "geometry b n" and "0 < n"
  shows "hash_mask x (word_of_nat b) (word_of_nat n) = word_of_nat (bucket b n (unat x))" and "bucket b n (unat x) < n"
  using geometry_word [OF assms(1), of n x] bucket_less [OF assms] assms(2) by auto

lemma hash_search_ok:
  assumes ok: "hash_ok obj h M" and len: "len \<noteq> 0" "unat len = length key"
  shows "\<exists>res h'. hash_search obj h key len = Some (res, h') \<and> hash_ok obj h' M \<and> same_keys h h'
    \<and> (case res of None \<Rightarrow> \<forall>r\<in>#M. hash_key obj h r \<noteq> Some key | Some r \<Rightarrow> r \<in># M \<and> hash_key obj h r = Some key)"
proof -
  let ?n = "unat (records h)" and ?b = "unat (blength h)"
  from ok obtain d C where d: "da_buffer (hs_array h) = Some d" "?n \<le> length d" "length d * 16 < 2 ^ 32" "geometry ?b ?n"
    "chained (rec_bucket obj h ?b ?n) {..<?n} d C" "M = bag d {..<?n}" "\<And>r. r \<in># M \<Longrightarrow> hash_key obj h r \<noteq> None"
    by (rule hash_okE) blast
  have keep: "hash_ok obj (h\<lparr>current_record := i\<rparr>) M" "same_keys h (h\<lparr>current_record := i\<rparr>)" for i
  proof -
    show sk: "same_keys h (h\<lparr>current_record := i\<rparr>)" by (simp add: same_keys_def)
    show "hash_ok obj (h\<lparr>current_record := i\<rparr>) M" using ok unfolding hash_ok_def same_keys_nr [OF sk] by simp
  qed
  have inM: "lnk_data (d ! p) \<in># M" if "p < ?n" for p using in_bag [of "{..<?n}" p d] that d(6) by simp
  have M: "\<exists>p<?n. lnk_data (d ! p) = r" if "r \<in># M" for r using that by (auto simp: d(6) bag_def)
  show ?thesis
  proof (cases "records h = 0")
    case True
    then have "M = {#}" using d(6) by (simp add: bag_def)
    then show ?thesis using True keep by (auto simp: hash_search_def)
  next
    case False
    then have n0: "0 < ?n" by (simp add: unat_gt_0)
    let ?k = "bucket ?b ?n (unat (hashnr h key))"
    note pl = hash_mask_place [OF d(4) n0]
    have kd: "?k < length d" "length d < 2 ^ 32 - 1" using pl(2) [of "hashnr h key"] d(2,3) by (simp_all add: less_le_trans)
    have small: "bucket ?b ?n (unat x) < 2 ^ 32" for x :: "32 word" using pl(2) [of x] uint32_lt [of "records h"] by simp
    have same: "rec_bucket obj h ?b ?n r = ?k" if "hash_key obj h r = Some key" for r
      using that by (simp add: rec_bucket_def rec_nr_def)
    have rm: "hash_rec_mask obj h l (blength h) (records h) = Some (word_of_nat (rec_bucket obj h ?b ?n (lnk_data l)))"
      if "hash_key obj h (lnk_data l) \<noteq> None" for l
      using that pl(1) by (auto simp: hash_rec_mask_def rec_bucket_def rec_nr_def)
    let ?Q = "\<lambda>r. hash_key obj h r = Some key"
    have "search_loop obj h d key len True (word_of_nat ?k) = Some (first_match ?Q d (C ?k))"
    proof (cases "C ?k")
      case Nil
      then have ne: "rec_bucket obj h ?b ?n (lnk_data (d ! ?k)) \<noteq> ?k" using chained_mem [OF d(5), of ?k ?k] pl(2) by simp
      obtain k where k: "hash_key obj h (lnk_data (d ! ?k)) = Some k" using d(7) [OF inM [OF pl(2)]] by auto
      then have "k \<noteq> key" using same ne by auto
      moreover have "hashcmp obj h (d ! ?k) key len = Some (k \<noteq> key)" by (rule hashcmp_key [OF k len])
      moreover have "word_of_nat (rec_bucket obj h ?b ?n (lnk_data (d ! ?k))) \<noteq> (word_of_nat ?k :: 32 word)"
        using ne small unfolding rec_bucket_def by (simp add: word_index_eq)
      ultimately show ?thesis using kd rm [of "d ! ?k"] k Nil by (subst search_loop.simps) (simp add: link_at_index)
    next
      case (Cons q qs)
      then have hd: "hd (C ?k) = ?k" "C ?k \<noteq> []" using chainedD(4) [OF d(5), of ?k] by simp_all
      have p: "p < ?n \<and> rec_bucket obj h ?b ?n (lnk_data (d ! p)) = ?k" if "p \<in> set (C ?k)" for p
        using chained_mem [OF d(5), of p ?k] that by simp
      have k1: "hash_key obj h (lnk_data (d ! p)) \<noteq> None" if "p \<in> set (C ?k)" for p using d(7) [OF inM] p [OF that] by blast
      have "hd (C ?k) \<in> set (C ?k)" using hd(2) by simp
      then have k2: "hash_rec_mask obj h (d ! hd (C ?k)) (blength h) (records h) = Some (word_of_nat (hd (C ?k)))"
        using rm [OF k1, of "hd (C ?k)"] p [of "hd (C ?k)"] hd(1) by simp
      have "search_loop obj h d key len True (word_of_nat (hd (C ?k))) = Some (first_match ?Q d (C ?k))"
        by (rule search_loop_chain [OF chainedD(2) [OF d(5), of ?k] hd(2) kd(2) len k1]) (simp_all add: k2)
      then show ?thesis using hd by simp
    qed
    moreover have "load_bytes key 0 (unat len) = Some key" using len(2) by (simp add: load_bytes_def)
    ultimately have hs: "hash_search obj h key len = Some (case first_match ?Q d (C ?k) of
        Some (idx, r) \<Rightarrow> (Some r, h\<lparr>current_record := idx\<rparr>) | None \<Rightarrow> (None, h\<lparr>current_record := NO_RECORD\<rparr>))"
      using False len(1) d(1) pl(1) by (simp add: hash_search_def)
    show ?thesis
    proof (cases "first_match ?Q d (C ?k)")
      case None
      then have "\<forall>r\<in>#M. \<not> ?Q r" using M same chained_mem [OF d(5), of _ ?k] by (fastforce simp: first_match_None)
      then show ?thesis using hs None keep by auto
    next
      case (Some ir)
      then obtain i r where "first_match ?Q d (C ?k) = Some (i, r)" by (cases ir) auto
      then show ?thesis using hs keep first_match_Some [of ?Q d "C ?k" i r] inM chained_mem [OF d(5), of _ ?k] by auto
    qed
  qed
qed

subsection \<open>Deletion\<close>

lemma find_record_absent:
  assumes "linked d ps NO_RECORD" and "ps \<noteq> []" and "length d < 2 ^ 32 - 1" and "\<And>p. p \<in> set ps \<Longrightarrow> lnk_data (d ! p) \<noteq> r"
  shows "find_record d r prev (word_of_nat (hd ps)) = Some None"
  using assms
proof (induction ps arbitrary: prev)
  case (Cons p ps)
  have at: "link_at d (word_of_nat p) = Some (d ! p)" using Cons.prems(1,3) by (intro link_at_index) simp_all
  show ?case
  proof (cases ps)
    case Nil
    then show ?thesis using Cons.prems(1,4) at by (subst find_record.simps) simp
  next
    case (Cons q qs)
    have "find_record d r (Some (word_of_nat p)) (word_of_nat (hd ps)) = Some None" using Cons.prems Cons by (intro Cons.IH) auto
    then show ?thesis using Cons.prems Cons at by (subst find_record.simps) simp
  qed
qed simp

lemma find_record_found:
  assumes "linked d (xs @ p # ys) NO_RECORD" and "length d < 2 ^ 32 - 1" and "lnk_data (d ! p) = r" and "\<And>x. x \<in> set xs \<Longrightarrow> lnk_data (d ! x) \<noteq> r"
  shows "find_record d r prev (word_of_nat (hd (xs @ [p]))) =
    Some (Some (if xs = [] then prev else Some (word_of_nat (last xs)), word_of_nat p))"
  using assms
proof (induction xs arbitrary: prev)
  case Nil
  then show ?case by (subst find_record.simps) (simp add: link_at_index)
next
  case (Cons x xs)
  have nx: "x < length d" "lnk_next (d ! x) = word_of_nat (hd (xs @ [p]))" using Cons.prems(1) by (cases xs; simp)+
  have "hd (xs @ [p]) < length d" using Cons.prems(1) by (cases xs) simp_all
  then have "word_of_nat (hd (xs @ [p])) \<noteq> (NO_RECORD :: 32 word)" using Cons.prems(2) by (intro word_index_NO) simp
  moreover have "find_record d r (Some (word_of_nat x)) (word_of_nat (hd (xs @ [p]))) =
      Some (Some (if xs = [] then Some (word_of_nat x) else Some (word_of_nat (last xs)), word_of_nat p))"
    using Cons.prems by (intro Cons.IH) auto
  ultimately show ?case using nx Cons.prems(2,4) by (subst find_record.simps) (simp add: link_at_index)
qed

text \<open>Unlinking the record at place \<open>p\<close> leaves one free place.\<close>

lemma unlink_ok:
  assumes ch: "chained K P d C" and C: "C k = xs @ p # ys" and P: "finite P" "length d < 2 ^ 32 - 1"
  shows "\<exists>d' e C'. unlink d (if xs = [] then None else Some (word_of_nat (last xs))) (word_of_nat p) = Some (d', word_of_nat e)
    \<and> length d' = length d \<and> e \<in> P \<and> chained K (P - {e}) d' C' \<and> bag d P = add_mset (lnk_data (d ! p)) (bag d' (P - {e}))"
proof -
  have m: "q \<in> set (C j) \<longleftrightarrow> q \<in> P \<and> K (lnk_data (d ! q)) = j" for q j using chained_mem [OF ch] .
  have dis: "distinct (xs @ p # ys)" using chainedD(1) [OF ch, of k] C by simp
  have lk: "linked d xs (word_of_nat p)" "linked d (p # ys) NO_RECORD" using chainedD(2) [OF ch, of k] C by (simp_all only: linked_append)
  have pP: "p \<in> P" "K (lnk_data (d ! p)) = k" using m [of p k] C by simp_all
  have pl: "p < length d" "length d < 2 ^ 32" using lk(2) P(2) by simp_all
  have bg: "bag d P = add_mset (lnk_data (d ! p)) (bag d' (P - {p}))" if "\<And>q. q \<noteq> p \<Longrightarrow> lnk_data (d' ! q) = lnk_data (d ! q)" for d'
  proof -
    have "bag d P = add_mset (lnk_data (d ! p)) (bag d (P - {p}))"
      using bag_insert [of "P - {p}" p d] P(1) pP(1) by (simp add: insert_absorb)
    moreover have "bag d' (P - {p}) = bag d (P - {p})" using that by (intro bag_cong) auto
    ultimately show ?thesis by simp
  qed
  consider "xs \<noteq> []" | "xs = []" "ys = []" | q zs where "xs = []" "ys = q # zs" by (cases ys) auto
  then show ?thesis
  proof cases
    case 1
    let ?l = "last xs"
    let ?d = "d[?l := (d ! ?l)\<lparr>lnk_next := lnk_next (d ! p)\<rparr>]"
    have lx: "?l \<in> set xs" using 1 by simp
    have ll: "?l < length d" using linked_set [OF lk(1)] lx by blast
    have "p \<noteq> ?l" "?l \<notin> set ys" using dis lx by (metis disjoint_iff distinct_append list.set_intros)+
    have "linked ?d xs (lnk_next (d ! p))" using linked_end [OF lk(1) 1] dis by simp
    then have ln: "linked ?d (xs @ ys) NO_RECORD" using lk(2) \<open>?l \<notin> set ys\<close> by (cases ys) (auto simp: linked_append)
    have "unlink d (Some (word_of_nat ?l)) (word_of_nat p) = Some (?d, word_of_nat p)"
      using pl ll by (simp add: unlink_def index_simps)
    moreover have "chained K (P - {p}) ?d (\<lambda>j. if j \<in> {k} then xs @ ys else C j)"
    proof (rule chained_change [OF ch])
      show "set (if j \<in> {k} then xs @ ys else C j) = {q \<in> P - {p}. K (lnk_data (?d ! q)) = j}" for j
      proof (rule set_eqI)
        fix q
        show "q \<in> set (if j \<in> {k} then xs @ ys else C j) \<longleftrightarrow> q \<in> {q \<in> P - {p}. K (lnk_data (?d ! q)) = j}"
          using m [of q j] C dis pP unfolding keep_data by (cases "j = k"; cases "q = p") auto
      qed
      show "?d ! q = d ! q" if "j \<notin> {k}" "q \<in> set (C j)" for j q
      proof -
        have "q \<notin> set (C k)" using that m by auto
        then have "q \<noteq> ?l" using C lx by auto
        then show ?thesis by (metis nth_list_update_neq)
      qed
      show "distinct (xs @ ys) \<and> linked ?d (xs @ ys) NO_RECORD \<and> (xs @ ys \<noteq> [] \<longrightarrow> hd (xs @ ys) = j)" if "j \<in> {k}" for j
        using that dis ln 1 chainedD(4) [OF ch, of k] C by auto
    qed simp
    moreover have "bag d P = add_mset (lnk_data (d ! p)) (bag ?d (P - {p}))" by (rule bg) (rule keep_data)
    moreover have "length ?d = length d" by simp
    ultimately show ?thesis using 1 pP(1) by (simp only: if_False) blast
  next
    case 2
    have "chained K (P - {p}) d (\<lambda>j. if j \<in> {k} then [] else C j)"
    proof (rule chained_change [OF ch])
      show "set (if j \<in> {k} then [] else C j) = {q \<in> P - {p}. K (lnk_data (d ! q)) = j}" for j
      proof (rule set_eqI)
        fix q
        show "q \<in> set (if j \<in> {k} then [] else C j) \<longleftrightarrow> q \<in> {q \<in> P - {p}. K (lnk_data (d ! q)) = j}"
          using m [of q j] C 2 pP by (cases "j = k"; cases "q = p") auto
      qed
    qed simp_all
    moreover have "bag d P = add_mset (lnk_data (d ! p)) (bag d (P - {p}))" by (rule bg) simp
    moreover have "unlink d None (word_of_nat p) = Some (d, word_of_nat p)" using 2 lk(2) pl by (simp add: unlink_def index_simps)
    ultimately show ?thesis using 2 pP(1) by auto
  next
    case 3
    let ?d = "d[p := d ! q]"
    have kp: "k = p" using chainedD(4) [OF ch, of k] C 3 by simp
    have q: "q < length d" "lnk_next (d ! p) = word_of_nat q" "q \<noteq> p" "q \<in> P" "K (lnk_data (d ! q)) = k"
      using lk(2) 3 dis m [of q k] C by auto
    have "word_of_nat q \<noteq> (NO_RECORD :: 32 word)" using q(1) P(2) by (intro word_index_NO) simp
    then have "unlink d None (word_of_nat p) = Some (?d, word_of_nat q)"
      using pl q by (simp add: unlink_def index_simps)
    moreover have "chained K (P - {q}) ?d (\<lambda>j. if j \<in> {k} then p # zs else C j)"
    proof (rule chained_change [OF ch])
      show "set (if j \<in> {k} then p # zs else C j) = {x \<in> P - {q}. K (lnk_data (?d ! x)) = j}" for j
      proof (rule set_eqI)
        fix x
        have v: "K (lnk_data (?d ! x)) = (if x = p then k else K (lnk_data (d ! x)))" using pl(1) q(5) by (simp add: nth_list_update)
        show "x \<in> set (if j \<in> {k} then p # zs else C j) \<longleftrightarrow> x \<in> {x \<in> P - {q}. K (lnk_data (?d ! x)) = j}"
          using m [of x j] v C 3 dis pP q by (cases "j = k"; cases "x = p"; cases "x = q") auto
      qed
      show "?d ! x = d ! x" if "j \<notin> {k}" "x \<in> set (C j)" for j x
        using that m [of x j] pP(2) by (metis insertI1 nth_list_update_neq)
      show "distinct (p # zs) \<and> linked ?d (p # zs) NO_RECORD \<and> (p # zs \<noteq> [] \<longrightarrow> hd (p # zs) = j)" if "j \<in> {k}" for j
        using that dis 3 lk(2) kp pl(1) by auto
    qed simp
    moreover have "bag d P = add_mset (lnk_data (d ! p)) (bag ?d (P - {q}))"
    proof -
      have "bag ?d (insert p (P - {p} - {q})) = bag d (P - {p})"
        by (rule bag_moved) (use P(1) q pP pl in \<open>auto simp: nth_list_update\<close>)
      moreover have "insert p (P - {p} - {q}) = P - {q}" using pP(1) q(3) by auto
      moreover have "bag d P = add_mset (lnk_data (d ! p)) (bag d (P - {p}))" by (rule bg) simp
      ultimately show ?thesis by simp
    qed
    moreover have "length ?d = length d" by simp
    ultimately show ?thesis using 3 q(4) by auto
  qed
qed

text \<open>
  When the index loses its last place \<open>m\<close>, the bucket \<open>m\<close> is merged into the bucket \<open>f\<close> and the last link goes to the free
  place \<open>e\<close>.  If it is the first of its chain and there is no chain at \<open>f\<close>, which is the free place, its chain moves there.
\<close>

lemma head_to_free:
  assumes ch: "chained K P d C" and m: "m \<in> P" "K (lnk_data (d ! m)) = m" and e: "e \<notin> P" "e < length d"
  obtains C' where "chained (\<lambda>x. if K x = m then e else K x) (insert e (P - {m})) (d[e := d ! m]) C'"
proof -
  let ?d = "d[e := d ! m]" and ?K = "\<lambda>x. if K x = m then e else K x"
  obtain ys where ys: "C m = m # ys" using chained_head [OF ch m] .
  have mm: "q \<in> set (C j) \<longleftrightarrow> q \<in> P \<and> K (lnk_data (d ! q)) = j" for q j using chained_mem [OF ch] .
  have ce: "C e = []" using chained_empty [OF ch] e(1) by blast
  have d: "m \<notin> set ys" "e \<notin> set ys" "distinct ys" "e \<noteq> m" using chainedD(1) [OF ch, of m] mm [of e m] ys e(1) m(1) by auto
  have l: "linked d ys NO_RECORD" "lnk_next (d ! m) = (case ys of [] \<Rightarrow> NO_RECORD | q # _ \<Rightarrow> word_of_nat q)"
    using chainedD(2) [OF ch, of m] ys by simp_all
  have "chained ?K (insert e (P - {m})) ?d (\<lambda>j. if j \<in> {e, m} then if j = e then e # ys else [] else C j)"
  proof (rule chained_change [OF ch])
    show "set (if j \<in> {e, m} then if j = e then e # ys else [] else C j) = {q \<in> insert e (P - {m}). ?K (lnk_data (?d ! q)) = j}" for j
    proof (rule set_eqI)
      fix q
      have v: "lnk_data (?d ! q) = (if q = e then lnk_data (d ! m) else lnk_data (d ! q))" using e(2) by (simp add: nth_list_update)
      have "q \<in> P \<Longrightarrow> K (lnk_data (d ! q)) \<noteq> e" using mm [of q e] ce by simp
      then show "q \<in> set (if j \<in> {e, m} then if j = e then e # ys else [] else C j) \<longleftrightarrow> q \<in> {q \<in> insert e (P - {m}). ?K (lnk_data (?d ! q)) = j}"
        using mm [of q j] mm [of q m] v ys m e(1) d(4) d(1) by (cases "q = e"; cases "q = m"; cases "j = e"; cases "j = m") auto
    qed
    show "?d ! q = d ! q" if "j \<notin> {e, m}" "q \<in> set (C j)" for j q
      using that mm [of q j] e(1) by (metis nth_list_update_neq)
    show "distinct (if j = e then e # ys else []) \<and> linked ?d (if j = e then e # ys else []) NO_RECORD
      \<and> ((if j = e then e # ys else []) \<noteq> [] \<longrightarrow> hd (if j = e then e # ys else []) = j)" for j
      using d l e(2) by auto
  qed simp
  then show thesis by (rule that)
qed

text \<open>Otherwise the segment that now starts at \<open>e\<close> is linked in behind the record at \<open>f\<close>.\<close>

definition link_behind :: "'r OB_HASH_LINK list \<Rightarrow> 32 word \<Rightarrow> 32 word \<Rightarrow> 32 word \<Rightarrow> 'r OB_HASH_LINK list option" where
  "link_behind d t e f = do {
     p \<leftarrow> link_at d f;
     d \<leftarrow> movelink d t e (lnk_next p);
     p \<leftarrow> link_at d f;
     set_link d f (p\<lparr>lnk_next := e\<rparr>) }"

lemma linked_concat:
  "linked d zs n \<Longrightarrow> linked d ys e \<Longrightarrow> n = (case ys of [] \<Rightarrow> e | q # _ \<Rightarrow> word_of_nat q) \<Longrightarrow> linked d (zs @ ys) e"
  by (cases ys) (simp_all only: linked_append list.case append_Nil2 simp_thms)

lemma link_behind_ok:
  assumes "linked d (e # xs) t" and "linked d (f # ys) NO_RECORD" and "distinct (f # e # xs @ ys)"
    and "\<forall>x\<in>set xs. word_of_nat x \<noteq> t" and L: "length d < 2 ^ 32"
  shows "\<exists>d'. link_behind d t (word_of_nat e) (word_of_nat f) = Some d' \<and> length d' = length d
    \<and> linked d' (f # e # xs @ ys) NO_RECORD \<and> (\<forall>q. q \<notin> set (f # e # xs) \<longrightarrow> d' ! q = d ! q) \<and> (\<forall>q. lnk_data (d' ! q) = lnk_data (d ! q))"
proof -
  let ?l = "last (e # xs)" and ?n = "lnk_next (d ! f)"
  let ?d1 = "d[?l := (d ! ?l)\<lparr>lnk_next := ?n\<rparr>]"
  let ?d2 = "?d1[f := (?d1 ! f)\<lparr>lnk_next := word_of_nat e\<rparr>]"
  have fl: "f < length d" using assms(2) by simp
  have l: "?l \<in> set (e # xs)" by (rule last_in_set) simp
  then have lf: "?l \<noteq> f" "?l \<notin> set ys" using assms(3) by auto
  have mv: "movelink d t (word_of_nat e) ?n = Some ?d1"
    using movelink_segment [OF assms(1) _ _ L, of ?n] assms(4) by simp
  have "linked ?d1 (e # xs) ?n" by (rule linked_end [OF assms(1)]) (use assms(3) in simp_all)
  then have "linked ?d2 (e # xs) ?n" using assms(3) by (subst linked_update) auto
  moreover have "linked ?d2 ys NO_RECORD" using assms(2,3) lf(2) by (simp add: linked_update del: linked.simps) (simp add: linked_update)
  ultimately have "linked ?d2 ((e # xs) @ ys) NO_RECORD"
    by (rule linked_concat) (use assms(2) in simp)
  moreover have "lnk_next (?d2 ! f) = word_of_nat e" using fl by simp
  ultimately have "linked ?d2 (f # e # xs @ ys) NO_RECORD" using fl by simp
  moreover have "?d2 ! q = d ! q" if "q \<notin> set (f # e # xs)" for q
  proof -
    have "q \<noteq> f" "q \<noteq> ?l" using that l by auto
    then show ?thesis by (metis nth_list_update_neq)
  qed
  moreover have "lnk_data (?d2 ! q) = lnk_data (d ! q)" for q by (simp only: keep_data)
  moreover have "link_behind d t (word_of_nat e) (word_of_nat f) = Some ?d2"
    using fl L mv by (simp add: link_behind_def index_simps)
  ultimately show ?thesis by (intro exI [of _ ?d2]) simp
qed

lemma merge_ok:
  assumes ch: "chained K P d C" and m: "m \<in> P" "m \<noteq> f" "f \<in> P" and e: "e \<notin> P" "e < length d" and L: "length d < 2 ^ 32"
    and sets: "set (C m) \<union> set (C f) = insert m (set (f # xs @ ys))" and dis: "distinct (m # f # xs @ ys)"
    and lk: "linked (d[e := d ! m]) (e # xs) t" "linked (d[e := d ! m]) (f # ys) NO_RECORD" and t: "\<forall>x\<in>set xs. word_of_nat x \<noteq> t"
  obtains d' C' where "link_behind (d[e := d ! m]) t (word_of_nat e) (word_of_nat f) = Some d'" and "length d' = length d"
    and "chained (\<lambda>x. if K x = m then f else K x) (insert e (P - {m})) d' C'"
    and "\<And>q. lnk_data (d' ! q) = lnk_data (d[e := d ! m] ! q)"
proof -
  let ?d = "d[e := d ! m]" and ?K = "\<lambda>x. if K x = m then f else K x"
  have mm: "q \<in> set (C j) \<longleftrightarrow> q \<in> P \<and> K (lnk_data (d ! q)) = j" for q j using chained_mem [OF ch] .
  have eq: "q \<in> P \<and> (K (lnk_data (d ! q)) = m \<or> K (lnk_data (d ! q)) = f) \<longleftrightarrow> q = m \<or> q \<in> set (f # xs @ ys)" for q
  proof -
    have "q \<in> set (C m) \<union> set (C f) \<longleftrightarrow> q \<in> insert m (set (f # xs @ ys))" by (simp only: sets)
    then show ?thesis using mm [of q m] mm [of q f] by auto
  qed
  then have ne: "e \<notin> set (f # xs @ ys)" "e \<noteq> m" using e(1) m(1) by blast+
  then have "distinct (f # e # xs @ ys)" using dis by auto
  then obtain d' where d': "link_behind ?d t (word_of_nat e) (word_of_nat f) = Some d'" "length d' = length d"
    "linked d' (f # e # xs @ ys) NO_RECORD" "\<forall>q. q \<notin> set (f # e # xs) \<longrightarrow> d' ! q = ?d ! q" "\<forall>q. lnk_data (d' ! q) = lnk_data (?d ! q)"
    using link_behind_ok [OF lk _ t] L by auto
  have dq: "lnk_data (d' ! q) = (if q = e then lnk_data (d ! m) else lnk_data (d ! q))" for q using d'(5) e(2) by (simp add: nth_list_update)
  have ke: "?K (lnk_data (d ! m)) = f" using eq [of m] m(1) by auto
  have "chained ?K (insert e (P - {m})) d' (\<lambda>j. if j \<in> {f, m} then if j = f then f # e # xs @ ys else [] else C j)"
  proof (rule chained_change [OF ch d'(2)])
    show "set (if j \<in> {f, m} then if j = f then f # e # xs @ ys else [] else C j) = {q \<in> insert e (P - {m}). ?K (lnk_data (d' ! q)) = j}" for j
    proof (rule set_eqI)
      fix q
      show "q \<in> set (if j \<in> {f, m} then if j = f then f # e # xs @ ys else [] else C j) \<longleftrightarrow> q \<in> {q \<in> insert e (P - {m}). ?K (lnk_data (d' ! q)) = j}"
      proof (cases "q = e")
        case True
        then show ?thesis using mm [of e j] ke dq [of e] m(2) e(1) ne by (simp split: if_splits) (auto split: if_splits)?
      next
        case False
        then have r: "q \<in> {q \<in> insert e (P - {m}). ?K (lnk_data (d' ! q)) = j} \<longleftrightarrow> q \<in> P \<and> q \<noteq> m \<and> ?K (lnk_data (d ! q)) = j" using dq [of q] by simp
        consider "j = f" | "j = m" | "j \<noteq> f" "j \<noteq> m" by blast
        then show ?thesis
        proof cases
          case 1
          then have "q \<in> P \<and> q \<noteq> m \<and> ?K (lnk_data (d ! q)) = j \<longleftrightarrow> q \<in> set (f # xs @ ys)" using eq [of q] dis by auto
          then show ?thesis unfolding r using 1 False by simp
        next
          case 2
          then show ?thesis unfolding r using m(2) by simp
        next
          case 3
          then have "q = m \<Longrightarrow> K (lnk_data (d ! q)) \<noteq> j" using eq [of m] m(1) by auto
          then show ?thesis unfolding r using 3 mm [of q j] by auto
        qed
      qed
    qed
    show "d' ! q = d ! q" if "j \<notin> {f, m}" "q \<in> set (C j)" for j q
    proof -
      have "q \<in> P" "\<not> (q = m \<or> q \<in> set (f # xs @ ys))" using that mm [of q j] eq [of q] by auto
      then have "q \<notin> set (f # e # xs)" "q \<noteq> e" using e(1) by auto
      then show ?thesis using d'(4) by (metis nth_list_update_neq)
    qed
    show "distinct (if j = f then f # e # xs @ ys else []) \<and> linked d' (if j = f then f # e # xs @ ys else []) NO_RECORD
      \<and> ((if j = f then f # e # xs @ ys else []) \<noteq> [] \<longrightarrow> hd (if j = f then f # e # xs @ ys else []) = j)" for j
      using \<open>distinct (f # e # xs @ ys)\<close> d'(3) by auto
  qed
  then show thesis using that d'(1,2,5) by blast
qed

text \<open>The record in the place of the last link's bucket belongs to another chain: it gives way and goes to the free place.\<close>

lemma last_displaces:
  assumes ch: "chained K ({..m} - {e}) d C" and em: "e < m" and d: "m < length d" "length d < 2 ^ 32 - 1"
    and l: "K (lnk_data (d ! m)) = m" and f: "f < m" "f \<noteq> e" and g: "K (lnk_data (d ! f)) = g" "g \<noteq> f" "g \<noteq> m"
  shows "\<exists>d' C'. movelink (d[e := d ! f, f := d ! m]) (word_of_nat f) (word_of_nat g) (word_of_nat e) = Some d' \<and> length d' = length d
    \<and> chained (\<lambda>x. if K x = m then f else K x) {..<m} d' C' \<and> bag d' {..<m} = bag d ({..m} - {e})"
proof -
  let ?P = "{..m} - {e}"
  let ?P1 = "insert e (?P - {f})"
  have P: "f \<in> ?P" "e \<notin> ?P" "e < length d" "?P \<subseteq> {..<length d}" "finite ?P" "m \<in> ?P" using em d f by auto
  obtain d' C' where d': "movelink (d[e := d ! f, f := d ! m]) (word_of_nat f) (word_of_nat g) (word_of_nat e) = Some d'"
    "length d' = length d" "chained K ?P1 d' C'" "d' ! f = d ! m" "\<And>q. q \<notin> set (C g) \<Longrightarrow> q \<noteq> e \<Longrightarrow> d' ! q = d ! q"
    "lnk_data (d' ! e) = lnk_data (d ! f)" "\<And>q. q \<noteq> e \<Longrightarrow> q \<noteq> f \<Longrightarrow> lnk_data (d' ! q) = lnk_data (d ! q)"
    by (rule move_inner [OF ch P(1) g(1,2) P(2,3,4) d(2), of "d ! m"]) blast
  have "m \<notin> set (C g)" using chained_mem [OF ch, of m g] l g(3) by simp
  then have dm: "d' ! m = d ! m" using d'(5) em by simp
  then have id: "d'[f := d' ! m] = d'" using d'(4) by (metis list_update_id)
  have P1: "m \<in> ?P1" "f \<notin> ?P1" "f < length d'" "finite ?P1" "insert f (?P1 - {m}) = {..<m}" using em f d(1) d'(2) by auto
  have "K (lnk_data (d' ! m)) = m" using dm l by simp
  then obtain C'' where "chained (\<lambda>x. if K x = m then f else K x) {..<m} d' C''"
    using head_to_free [OF d'(3) P1(1) _ P1(2,3)] unfolding id P1(5) by blast
  moreover have "bag d' {..<m} = bag d' ?P1" using bag_move [OF P1(3,4,1,2)] unfolding id P1(5) .
  moreover have "bag d' ?P1 = bag d ?P" by (rule bag_moved [OF P(5,1,2) d'(6)]) (rule d'(7))
  ultimately show ?thesis using d'(1,2) by auto
qed

text \<open>The last link is inside the chain of its bucket.\<close>

lemma last_inner:
  assumes ch: "chained K ({..m} - {e}) d C" and em: "e < m" and d: "m < length d" "length d < 2 ^ 32 - 1"
    and g: "K (lnk_data (d ! m)) = g" "g \<noteq> m"
  shows "\<exists>d' C'. movelink (d[e := d ! m]) (word_of_nat m) (word_of_nat g) (word_of_nat e) = Some d' \<and> length d' = length d
    \<and> chained (\<lambda>x. if K x = m then f else K x) {..<m} d' C' \<and> bag d' {..<m} = bag d ({..m} - {e})"
proof -
  let ?P = "{..m} - {e}"
  have P: "m \<in> ?P" "e \<notin> ?P" "e < length d" "?P \<subseteq> {..<length d}" "finite ?P" "insert e (?P - {m}) = {..<m}" using em d by auto
  have id: "d[e := d ! m, m := d ! m] = d[e := d ! m]" using em by (metis list_update_id nat_neq_iff nth_list_update_neq)
  obtain d' C' where d': "movelink (d[e := d ! m]) (word_of_nat m) (word_of_nat g) (word_of_nat e) = Some d'"
    "length d' = length d" "chained K {..<m} d' C'" "lnk_data (d' ! e) = lnk_data (d ! m)"
    "\<And>q. q \<noteq> e \<Longrightarrow> q \<noteq> m \<Longrightarrow> lnk_data (d' ! q) = lnk_data (d ! q)" "\<And>j. j \<noteq> g \<Longrightarrow> C' j = C j"
    by (rule move_inner [OF ch P(1) g P(2,3,4) d(2), of "d ! m"]) (unfold id P(6), blast)
  have "C m = []" using chained_empty [OF ch, of m] g by blast
  then have "C' m = []" using d'(6) g(2) by simp
  then have "K (lnk_data (d' ! q)) \<noteq> m" if "q < m" for q using chained_mem [OF d'(3), of q m] that by simp
  then have "chained (\<lambda>x. if K x = m then f else K x) {..<m} d' C'" by (intro chained_cong [OF d'(3)]) simp_all
  moreover have "bag d' {..<m} = bag d ?P" using bag_moved [OF P(5,1,2) d'(4,5)] unfolding P(6) .
  ultimately show ?thesis using d'(1,2) by auto
qed

text \<open>The last link starts the chain of its old bucket, and the record at \<open>f\<close> stays the first of the joined chain.\<close>

lemma last_joins:
  assumes ch: "chained K ({..m} - {e}) d C" and em: "e < m" and d: "m < length d" "length d < 2 ^ 32 - 1"
    and l: "K (lnk_data (d ! m)) = m" and f: "f < m" "f \<noteq> e" "K (lnk_data (d ! f)) = m \<or> K (lnk_data (d ! f)) = f"
  shows "\<exists>d' C'. link_behind (d[e := d ! m]) (if K (lnk_data (d ! f)) = m then word_of_nat f else NO_RECORD) (word_of_nat e) (word_of_nat f) = Some d'
    \<and> length d' = length d \<and> chained (\<lambda>x. if K x = m then f else K x) {..<m} d' C' \<and> bag d' {..<m} = bag d ({..m} - {e})"
proof -
  let ?P = "{..m} - {e}" and ?d = "d[e := d ! m]" and ?t = "if K (lnk_data (d ! f)) = m then word_of_nat f else NO_RECORD"
  have P: "m \<in> ?P" "m \<noteq> f" "f \<in> ?P" "e \<notin> ?P" "e < length d" "length d < 2 ^ 32" "finite ?P" "insert e (?P - {m}) = {..<m}" using em d f by auto
  have mem: "q \<in> set (C j) \<longleftrightarrow> q \<in> ?P \<and> K (lnk_data (d ! q)) = j" for q j using chained_mem [OF ch] .
  obtain zs where zs: "C m = m # zs" using chained_head [OF ch P(1) l] .
  obtain xs ys where xy: "set (C m) \<union> set (C f) = insert m (set (f # xs @ ys))" "distinct (m # f # xs @ ys)"
    "linked d (m # xs) ?t" "linked d (f # ys) NO_RECORD"
    "\<forall>x\<in>set xs. word_of_nat x \<noteq> ?t"
  proof (cases "K (lnk_data (d ! f)) = m")
    case True
    have "f \<in> set zs" using mem [of f m] True P(2,3) zs by simp
    then obtain xs ys where z: "zs = xs @ f # ys" by (meson split_list)
    have "C f = []" using chained_empty [OF ch, of f] True P(2) by simp
    moreover have "linked d (m # xs) (word_of_nat f)" "linked d (f # ys) NO_RECORD"
      using chainedD(2) [OF ch, of m] linked_append [of d "m # xs" f ys NO_RECORD] unfolding zs z by simp_all
    moreover have "distinct (m # xs @ f # ys)" using chainedD(1) [OF ch, of m] zs z by simp
    moreover have "word_of_nat x \<noteq> (word_of_nat f :: 32 word)" if "x \<in> set xs" for x
    proof -
      have "x \<le> m" "x \<noteq> f" using mem [of x m] zs z that calculation(4) by auto
      then show ?thesis using word_index_eq [of x f] P(6) d(1) f(1) by simp
    qed
    ultimately show ?thesis using that [of xs ys] zs z True by (simp del: linked.simps)
  next
    case False
    then have kf: "K (lnk_data (d ! f)) = f" using f(3) by blast
    obtain ys where ys: "C f = f # ys" using chained_head [OF ch P(3) kf] .
    have lk: "linked d (m # zs) NO_RECORD" "linked d (f # ys) NO_RECORD" "distinct (m # zs)" "distinct (f # ys)"
      using chainedD(1,2) [OF ch] zs ys by metis+
    have "set (C m) \<inter> set (C f) = {}" using mem P(2) by auto
    then have dis: "distinct (m # f # zs @ ys)" using lk(3,4) zs ys by auto
    have "word_of_nat x \<noteq> (NO_RECORD :: 32 word)" if "x \<in> set zs" for x
    proof -
      have "x \<le> m" using mem [of x m] zs that by auto
      then show ?thesis using d by (intro word_index_NO) simp
    qed
    then show ?thesis using that [of zs ys] zs ys dis lk(1,2) False by (auto simp del: linked.simps)
  qed
  have ne: "e \<notin> set (m # f # xs @ ys)" using xy(1) mem [of e] em f(2) by auto
  have "linked ?d (f # ys) NO_RECORD" using xy(4) ne by (subst linked_update) auto
  moreover have "linked ?d (e # xs) ?t"
  proof -
    have "linked ?d xs ?t" "lnk_next (?d ! e) = lnk_next (d ! m)" using xy(3) ne P(5) by auto
    then show ?thesis using xy(3) P(5) by simp
  qed
  ultimately obtain d' C' where d': "link_behind ?d ?t (word_of_nat e) (word_of_nat f) = Some d'" "length d' = length d"
    "chained (\<lambda>x. if K x = m then f else K x) {..<m} d' C'" "\<And>q. lnk_data (d' ! q) = lnk_data (?d ! q)"
    using merge_ok [OF ch P(1,2,3,4,5,6) xy(1,2) _ _ xy(5)] unfolding P(8) by blast
  have "bag d' {..<m} = bag ?d {..<m}" using d'(4) by (intro bag_cong) simp
  also have "\<dots> = bag d ?P" using bag_move [OF P(5,7,1,4)] unfolding P(8) .
  finally show ?thesis using d'(1,2,3) by blast
qed

text \<open>The link at place \<open>m\<close> is the last one; \<open>K\<close> and \<open>K'\<close> are the buckets with and without that place.\<close>

lemma move_last_ok:
  assumes ch: "chained K ({..m} - {e}) d C" and e: "e \<le> m" and d: "m < length d" "length d < 2 ^ 32 - 1"
    and K: "\<And>x. K x \<le> m" "\<And>x. m \<noteq> 0 \<Longrightarrow> K' x = (if K x = m then f else K x)" "m \<noteq> 0 \<Longrightarrow> f < m" and rec: "records hash = word_of_nat m"
    and nr: "\<And>x. x \<in># bag d ({..m} - {e}) \<Longrightarrow> rec_hashnr obj hash x = Some (nr x)
      \<and> hash_mask (nr x) (blength hash) (records hash) = word_of_nat (K' x) \<and> hash_mask (nr x) blen (records hash + 1) = word_of_nat (K x)"
  shows "\<exists>d' C'. move_last obj hash blen d (word_of_nat e) = Some d' \<and> length d' = length d \<and> chained K' {..<m} d' C'
    \<and> bag d' {..<m} = bag d ({..m} - {e})"
proof -
  let ?P = "{..m} - {e}"
  have eqw: "(word_of_nat i :: 32 word) = word_of_nat j \<longleftrightarrow> i = j" if "i \<le> m" "j \<le> m" for i j
    using that d by (intro word_index_eq) simp_all
  have L: "length d < 2 ^ 32" "?P \<subseteq> {..<length d}" "finite ?P" using d by auto
  have mem: "q \<in> set (C j) \<longleftrightarrow> q \<in> ?P \<and> K (lnk_data (d ! q)) = j" for q j using chained_mem [OF ch] .
  show ?thesis
  proof (cases "e = m")
    case True
    then have P: "?P = {..<m}" by auto
    have "C m = []" using chained_empty [OF ch, of m] True by simp
    then have "K (lnk_data (d ! p)) \<noteq> m" if "p < m" for p using mem [of p m] that True by auto
    then have "chained K' {..<m} d C" by (intro chained_cong [OF ch [unfolded P]]) (auto simp: K(2) [OF gr_implies_not0])
    then show ?thesis using True P rec by (auto simp: move_last_def)
  next
    case False
    then have em: "e < m" and mP: "m \<in> ?P" using e by auto
    have fm: "f < m" using K(3) em by simp
    have m0: "m \<noteq> 0" using em by simp
    note K(2) [OF m0]
    note K = K(1) this
    have P': "insert e (?P - {m}) = {..<m}" using em by auto
    let ?l = "d ! m" and ?pos = "K' (lnk_data (d ! m))"
    have K'm: "K' x < m" for x using K(1) [of x] K(2) [of x] fm by (simp add: le_neq_implies_less)
    have nrl: "rec_hashnr obj hash (lnk_data (d ! p)) = Some (nr (lnk_data (d ! p)))"
      "hash_mask (nr (lnk_data (d ! p))) (blength hash) (records hash) = word_of_nat (K' (lnk_data (d ! p)))"
      "hash_mask (nr (lnk_data (d ! p))) blen (records hash + 1) = word_of_nat (K (lnk_data (d ! p)))" if "p \<in> ?P" for p
      using nr [OF in_bag [OF L(3) that]] by blast+
    have ml: "move_last obj hash blen d (word_of_nat e) = (if ?pos = e then Some (d[e := ?l]) else
        if ?pos \<noteq> K' (lnk_data (d ! ?pos)) then movelink (d[e := d ! ?pos, ?pos := ?l]) (word_of_nat ?pos) (word_of_nat (K' (lnk_data (d ! ?pos)))) (word_of_nat e)
        else if K (lnk_data ?l) = K (lnk_data (d ! ?pos)) \<and> K (lnk_data ?l) \<noteq> m
        then movelink (d[e := ?l]) (word_of_nat m) (word_of_nat ?pos) (word_of_nat e)
        else link_behind (d[e := ?l]) (if K (lnk_data ?l) = K (lnk_data (d ! ?pos)) then word_of_nat ?pos else NO_RECORD) (word_of_nat e) (word_of_nat ?pos))"
    proof -
      have "?pos \<noteq> e \<Longrightarrow> ?pos \<in> ?P" using K'm [of "lnk_data ?l"] by auto
      note pp = nrl [OF this]
      show ?thesis
        unfolding move_last_def link_behind_def Let_def rec using False em d(1) L(1) K'm [of "lnk_data ?l"] K(1) nrl [OF mP] pp rec
          K'm [of "lnk_data (d ! ?pos)"]
        by (simp add: index_simps eqw less_imp_le)
    qed
    have eP: "e \<notin> ?P" "e < length d" using em d(1) by auto
    have lm: "K (lnk_data ?l) = m" if "C m \<noteq> []" using that chainedD(4) [OF ch, of m] mem [of m m] by (metis hd_in_set)
    have K': "K' = (\<lambda>x. if K x = m then f else K x)" using K(2) by blast
    show ?thesis
    proof (cases "?pos = e")
      case True
      have "C e = []" using chained_empty [OF ch, of e] by simp
      then have kl: "K (lnk_data ?l) = m" "f = e" using mem [of m e] mP True K(2) [of "lnk_data ?l"] by (auto split: if_splits)
      obtain C' where "chained K' {..<m} (d[e := ?l]) C'"
        using head_to_free [OF ch mP kl(1) eP] unfolding P' K' kl(2) by blast
      moreover have "bag (d[e := ?l]) {..<m} = bag d ?P" using bag_move [OF eP(2) L(3) mP eP(1)] P' by simp
      ultimately show ?thesis using ml True by auto
    next
      case False
      then have pos: "?pos \<in> ?P" "?pos < m" using K'm [of "lnk_data ?l"] by auto
      have np: "K (lnk_data ?l) = m" if "K (lnk_data (d ! ?pos)) \<noteq> ?pos"
      proof (rule ccontr)
        assume "K (lnk_data ?l) \<noteq> m"
        then have "m \<in> set (C ?pos)" using mem [of m ?pos] mP K(2) [of "lnk_data ?l"] by simp
        then show False using chained_empty [OF ch, of ?pos] that by simp
      qed
      consider (b) "K' (lnk_data (d ! ?pos)) \<noteq> ?pos" | (c) "K' (lnk_data (d ! ?pos)) = ?pos" "K (lnk_data ?l) \<noteq> m"
        | (d) "K' (lnk_data (d ! ?pos)) = ?pos" "K (lnk_data ?l) = m" by blast
      then show ?thesis
      proof cases
        case b
        then have "K (lnk_data (d ! ?pos)) \<noteq> ?pos" using K(2) [of "lnk_data (d ! ?pos)"] pos(2) by (simp split: if_splits)
        note l = np [OF this]
        then have f: "?pos = f" using K(2) by simp
        then have kp: "K (lnk_data (d ! ?pos)) = K' (lnk_data (d ! ?pos))" "K (lnk_data (d ! ?pos)) \<noteq> m" using b K(2) [of "lnk_data (d ! ?pos)"] by (auto split: if_splits)
        have "f \<noteq> e" using False f by simp
        then show ?thesis using last_displaces [OF ch em d l fm _ refl] b kp ml False f unfolding K' [symmetric] by simp
      next
        case c
        then have g: "K (lnk_data ?l) = ?pos" using K(2) by simp
        have "K (lnk_data (d ! ?pos)) = ?pos" using np c(2) by blast
        then show ?thesis using last_inner [OF ch em d g, of f] c ml False g pos(2) unfolding K' [symmetric] by simp
      next
        case d
        then have f: "?pos = f" using K(2) by simp
        then have "K (lnk_data (d ! f)) = m \<or> K (lnk_data (d ! f)) = f" using d(1) K(2) [of "lnk_data (d ! f)"] by (auto split: if_splits)
        moreover have "move_last obj hash blen d (word_of_nat e) =
            link_behind (d[e := ?l]) (if K (lnk_data (d ! f)) = m then word_of_nat f else NO_RECORD) (word_of_nat e) (word_of_nat f)"
          unfolding ml f using d False f by auto
        moreover have "f \<noteq> e" using False f by simp
        ultimately show ?thesis using last_joins [OF ch em assms(3,4) d(2) fm] unfolding K' [symmetric] by metis
      qed
    qed
  qed
qed

text \<open>The search for a record in the chain of its bucket.\<close>

lemma find_record_chain:
  assumes ch: "chained K {..<n} d C" and n: "n \<le> length d" "length d < 2 ^ 32 - 1" and k: "K r < n"
  shows "r \<notin># bag d {..<n} \<Longrightarrow> find_record d r None (word_of_nat (K r)) = Some None"
    and "r \<in># bag d {..<n} \<Longrightarrow> \<exists>xs p ys. C (K r) = xs @ p # ys \<and> lnk_data (d ! p) = r
      \<and> find_record d r None (word_of_nat (K r)) = Some (Some (if xs = [] then None else Some (word_of_nat (last xs)), word_of_nat p))"
proof -
  have m: "q \<in> set (C j) \<longleftrightarrow> q < n \<and> K (lnk_data (d ! q)) = j" for q j using chained_mem [OF ch, of q j] by simp
  have M: "r \<in># bag d {..<n} \<longleftrightarrow> (\<exists>p<n. lnk_data (d ! p) = r)" by (auto simp: bag_def)
  show "find_record d r None (word_of_nat (K r)) = Some None" if "r \<notin># bag d {..<n}"
  proof -
    let ?g = "K (lnk_data (d ! K r))"
    have "K r \<in> set (C ?g)" using m k by simp
    then obtain xs ys where xs: "C ?g = xs @ K r # ys" by (meson split_list)
    have "linked d (K r # ys) NO_RECORD" using chainedD(2) [OF ch, of ?g] unfolding xs by (simp only: linked_append)
    moreover have "lnk_data (d ! p) \<noteq> r" if "p \<in> set (K r # ys)" for p
    proof -
      have "p \<in> set (C ?g)" using that unfolding xs by auto
      then show ?thesis using m \<open>r \<notin># bag d {..<n}\<close> M by blast
    qed
    ultimately show ?thesis using find_record_absent [of d "K r # ys" r None] n(2) by simp
  qed
  show "\<exists>xs p ys. C (K r) = xs @ p # ys \<and> lnk_data (d ! p) = r
      \<and> find_record d r None (word_of_nat (K r)) = Some (Some (if xs = [] then None else Some (word_of_nat (last xs)), word_of_nat p))"
    if "r \<in># bag d {..<n}"
  proof -
    have "\<exists>p\<in>set (C (K r)). lnk_data (d ! p) = r" using that M m by blast
    from split_list_first_prop [OF this]
    obtain xs p ys where x: "C (K r) = xs @ p # ys" "lnk_data (d ! p) = r" "\<forall>q\<in>set xs. lnk_data (d ! q) \<noteq> r" by blast
    have "hd (xs @ [p]) = K r" using chainedD(4) [OF ch, of "K r"] x(1) by (cases xs) simp_all
    moreover have "linked d (xs @ p # ys) NO_RECORD" using chainedD(2) [OF ch, of "K r"] x(1) by simp
    ultimately show ?thesis using find_record_found [of d xs p ys r None] n(2) x by auto
  qed
qed

lemma geometry_shrink:
  assumes "geometry b (Suc n)"
  defines "b' \<equiv> if n < b div 2 then b div 2 else b"
  shows "geometry b' n" and "bucket b (Suc n) x = bucket b' (Suc n) x"
    and "n \<noteq> 0 \<Longrightarrow> bucket b' n x = (if bucket b (Suc n) x = n then n - b' div 2 else bucket b (Suc n) x)" and "n \<noteq> 0 \<Longrightarrow> n - b' div 2 < n"
proof -
  obtain k where k: "b = 2 ^ Suc k" using geometry_half [OF assms(1)] by blast
  have n: "b div 2 \<le> Suc n" "Suc n < b" "b < 2 ^ 32" using assms(1) by (simp_all only: geometry_def)
  have h: "b div 2 = 2 ^ k" "b = b div 2 + b div 2" "0 < b div 2" using k by simp_all
  have c: "(n < b div 2 \<and> b' = b div 2 \<and> Suc n = b div 2) \<or> (\<not> n < b div 2 \<and> b' = b)" using n(1) by (auto simp: b'_def)
  show g: "geometry b' n"
    using c
  proof
    assume a: "n < b div 2 \<and> b' = b div 2 \<and> Suc n = b div 2"
    then have "b' = 2 ^ k" "b' div 2 \<le> n" "n < b'" "b' < 2 ^ 32" using h n by linarith+
    then show ?thesis unfolding geometry_def by blast
  next
    assume "\<not> n < b div 2 \<and> b' = b"
    then show ?thesis using k n unfolding geometry_def by (metis Suc_lessD not_less)
  qed
  show e: "bucket b (Suc n) x = bucket b' (Suc n) x" for x
    using c
  proof
    assume a: "n < b div 2 \<and> b' = b div 2 \<and> Suc n = b div 2"
    then show ?thesis using bucket_double [OF h(1), of x] h(2) by metis
  qed simp
  show "bucket b' n x = (if bucket b (Suc n) x = n then n - b' div 2 else bucket b (Suc n) x)" if "n \<noteq> 0"
    unfolding e using bucket_split [OF g, of x] bucket_less [OF g, of x] that by auto
  show "n - b' div 2 < n" if n0: "n \<noteq> 0"
  proof -
    obtain j where "b' = 2 ^ Suc j" using geometry_half [OF g] n0 by blast
    then have "0 < b' div 2" by simp
    then show ?thesis using n0 by linarith
  qed
qed

text \<open>The index with one place less, before its last link is moved.\<close>

definition shrink :: "'r OB_HASH \<Rightarrow> 'r OB_HASH" where
  "shrink h = (let hash = h\<lparr>records := records h - 1\<rparr>;
     hash = (if records hash < drop_bit 1 (blength hash) then hash\<lparr>blength := drop_bit 1 (blength hash)\<rparr> else hash)
     in hash\<lparr>current_record := NO_RECORD\<rparr>)"

lemma shrink_members:
  assumes "unat (records h) = Suc n"
  shows "hs_array (shrink h) = hs_array h" and "records (shrink h) = word_of_nat n" and "unat (records (shrink h)) = n"
    and "unat (blength (shrink h)) = (if n < unat (blength h) div 2 then unat (blength h) div 2 else unat (blength h))" and "same_keys h (shrink h)"
proof -
  have n: "unat (records h - 1) = n" using assms by (subst unat_minus_one) auto
  have b: "unat (drop_bit 1 (blength h)) = unat (blength h) div 2" by (simp add: drop_bit_eq_div unat_div)
  have r: "records (shrink h) = records h - 1" by (simp add: shrink_def Let_def)
  show "unat (records (shrink h)) = n" using n r by simp
  then show "records (shrink h) = word_of_nat n" by (metis word_of_unat)
  have "records h - 1 < drop_bit 1 (blength h) \<longleftrightarrow> n < unat (blength h) div 2" unfolding word_less_nat_alt n b ..
  then show "unat (blength (shrink h)) = (if n < unat (blength h) div 2 then unat (blength h) div 2 else unat (blength h))"
    using b by (simp add: shrink_def Let_def)
qed (simp_all add: shrink_def Let_def same_keys_def)

lemma pop_buffer:
  assumes "array_ok a (take (Suc n) d)" and "da_buffer a = Some d" and "Suc n \<le> length d" and "length d' = length d"
  defines "a' \<equiv> snd (ma_pop_dynamic (a\<lparr>da_buffer := Some d'\<rparr>))"
  shows "array_ok a' (take n d')" and "da_buffer a' = Some d'" and "size_of_element a' = size_of_element a" and "alloc_increment a' = alloc_increment a"
proof -
  have "length (take (Suc n) d) = Suc n" using assms(3) by simp
  then have ok: "array_ok (a\<lparr>da_buffer := Some d'\<rparr>) (take (Suc n) d')"
    using array_ok_buffer [OF assms(1), of d'] array_ok_length [OF assms(1,2)] assms(4) by simp
  have "butlast (take (Suc n) d') = take n d'" using assms(3,4) by (simp add: butlast_take)
  then show "array_ok a' (take n d')" using pop_dynamic_ok [OF ok] by (simp add: a'_def split: prod.splits)
qed (simp_all add: a'_def ma_pop_dynamic_def)

lemma hash_delete_ok:
  assumes ok: "hash_ok obj h M" and key: "hash_key obj h r \<noteq> None"
  shows "\<exists>h'. hash_delete obj h r = Some (r \<notin># M, r \<in># M \<and> hs_free h, h') \<and> same_keys h h' \<and> hash_ok obj h' (M - {#r#}) \<and> (r \<notin># M \<longrightarrow> h' = h)"
proof (cases "unat (records h)")
  case 0
  then have "M = {#}" using ok by (auto simp: hash_ok_def bag_def)
  then show ?thesis using 0 ok by (simp add: hash_delete_def same_keys_def unat_eq_zero)
next
  case (Suc n)
  let ?b = "unat (blength h)" and ?K = "rec_bucket obj h (unat (blength h)) (Suc n)"
  from ok obtain d C where d: "da_buffer (hs_array h) = Some d" "array_ok (hs_array h) (take (unat (records h)) d)" "unat (records h) \<le> length d"
    "size_of_element (hs_array h) = 16" "length d * 16 < 2 ^ 32" "geometry ?b (unat (records h))"
    "chained (rec_bucket obj h ?b (unat (records h))) {..<unat (records h)} d C" "M = bag d {..<unat (records h)}"
    "\<And>r. r \<in># M \<Longrightarrow> hash_key obj h r \<noteq> None"
    by (rule hash_okE) blast
  note d = d [unfolded Suc]
  have ld: "length d < 2 ^ 32 - 1" using d(5) by simp
  have r0: "records h \<noteq> 0" "word_of_nat (Suc n) = records h" using Suc word_of_unat [of "records h"] by auto
  have pl: "hash_mask (rec_nr obj h x) (blength h) (records h) = word_of_nat (?K x)" "?K x < Suc n" for x
    using hash_mask_place [OF d(6), of "rec_nr obj h x"] r0(2) by (simp_all add: rec_bucket_def)
  note find = find_record_chain [OF d(7,3) ld pl(2), of r, folded d(8)]
  show ?thesis
  proof (cases "r \<in># M")
    case False
    then have "hash_delete obj h r = Some (True, False, h)"
      using find(1) r0(1) d(1) rec_hashnr_nr [OF key] pl(1) by (simp add: hash_delete_def)
    then show ?thesis using False ok by (simp add: same_keys_def diff_single_trivial)
  next
    case True
    obtain xs p ys where p: "C (?K r) = xs @ p # ys" "lnk_data (d ! p) = r" "find_record d r None (word_of_nat (?K r)) =
        Some (Some (if xs = [] then None else Some (word_of_nat (last xs)), word_of_nat p))" using find(2) [OF True] by blast
    obtain d1 e C1 where d1: "unlink d (if xs = [] then None else Some (word_of_nat (last xs))) (word_of_nat p) = Some (d1, word_of_nat e)"
      "length d1 = length d" "e \<in> {..<Suc n}" "chained ?K ({..<Suc n} - {e}) d1 C1" "M = add_mset r (bag d1 ({..<Suc n} - {e}))"
      using unlink_ok [OF d(7) p(1) _ ld] p(2) d(8) by auto
    let ?h = "shrink h"
    note sh = shrink_members [OF Suc]
    define b' where "b' = (if n < ?b div 2 then ?b div 2 else ?b)"
    note gs = geometry_shrink [OF d(6), folded b'_def]
    let ?K' = "rec_bucket obj h b' n"
    obtain d2 C2 where d2: "move_last obj ?h (blength h) d1 (word_of_nat e) = Some d2" "length d2 = length d1"
      "chained ?K' {..<n} d2 C2" "M = add_mset r (bag d2 {..<n})"
    proof -
      have P: "{..<Suc n} = {..n}" by auto
      have "\<exists>d' C'. move_last obj ?h (blength h) d1 (word_of_nat e) = Some d' \<and> length d' = length d1 \<and> chained ?K' {..<n} d' C'
          \<and> bag d' {..<n} = bag d1 ({..n} - {e})"
      proof (rule move_last_ok [OF d1(4) [unfolded P]])
        show "?K x \<le> n" for x using pl(2) [of x] by simp
        show "?K' x = (if ?K x = n then n - b' div 2 else ?K x)" if "n \<noteq> 0" for x unfolding rec_bucket_def by (rule gs(3) [OF that])
        show "rec_hashnr obj ?h x = Some (rec_nr obj h x) \<and> hash_mask (rec_nr obj h x) (blength ?h) (records ?h) = word_of_nat (?K' x)
            \<and> hash_mask (rec_nr obj h x) (blength h) (records ?h + 1) = word_of_nat (?K x)" if x: "x \<in># bag d1 ({..n} - {e})" for x
        proof -
          have "x \<in># M" using x d1(5) P by simp
          then have "rec_hashnr obj ?h x = Some (rec_nr obj h x)" using rec_hashnr_nr d(9) same_keys_nr(5) [OF sh(5)] by metis
          moreover have "records ?h + 1 = records h" using sh(2) r0(2) by (simp add: add.commute)
          moreover have "n \<noteq> 0" using x d1(3) by (cases n) (auto simp: bag_def)
          then have "hash_mask (rec_nr obj h x) (blength ?h) (records ?h) = word_of_nat (?K' x)"
            using geometry_word [OF gs(1), of n "rec_nr obj h x"] sh(2,4) word_of_unat [of "blength ?h"] unfolding rec_bucket_def b'_def by simp
          ultimately show ?thesis using pl(1) by simp
        qed
      qed (use d1(2,3) d(3) ld sh(2) gs(4) in auto)
      then show thesis using that d1(5) P by metis
    qed
    let ?a = "snd (ma_pop_dynamic ((hs_array h)\<lparr>da_buffer := Some d2\<rparr>))"
    note pb = pop_buffer [OF d(2,1,3), of d2]
    have del: "hash_delete obj h r = Some (False, hs_free h, ?h\<lparr>hs_array := ?a\<rparr>)"
      using r0(1) d(1) rec_hashnr_nr [OF key] pl(1) p(3) d1(1) d2(1) sh(1)
      by (simp add: hash_delete_def shrink_def Let_def)
    have sk: "same_keys h (?h\<lparr>hs_array := ?a\<rparr>)" using sh(5) pb(4) d2(2) d1(2) by (simp add: same_keys_def)
    have "hash_ok obj (?h\<lparr>hs_array := ?a\<rparr>) (bag d2 {..<n})"
      unfolding hash_ok_def same_keys_nr [OF sk] using pb d2 d1(2) sh(3,4) d gs(1) b'_def
      by (intro exI [of _ d2] exI [of _ C2] conjI) simp_all
    then show ?thesis using del sk True d2(4) by auto
  qed
qed

end
