(* ===== verification/MaHashIndex.thy ===== *)
theory MaHashIndex
  imports MaHashDelete
begin

text \<open>
  What the hash index of \<^verbatim>\<open>src/libmariadb/ma_hash.c\<close> promises to its callers, such as the table of complex types: a bag of
  records with searches by key.  The locale \<open>record_index\<close> states the laws of insertion, deletion and search; every
  sequence of operations then refines the bag.  The interpretation rests on the lemmas of the theories before.  The end of
  the theory is about \<^verbatim>\<open>hash_update\<close>.
\<close>

unbundle bit_operations_syntax

datatype 'r index_op = Insert 'r | Delete 'r | Search mem

datatype 'r index_result = Inserted bool | Deleted bool bool | Found "'r option"

fun run_index_op ::
  "('h \<Rightarrow> 'r \<Rightarrow> (bool \<times> 'h) option) \<Rightarrow> ('h \<Rightarrow> 'r \<Rightarrow> (bool \<times> bool \<times> 'h) option) \<Rightarrow> ('h \<Rightarrow> mem \<Rightarrow> 32 word \<Rightarrow> ('r option \<times> 'h) option)
   \<Rightarrow> 'r index_op \<Rightarrow> 'h \<Rightarrow> ('r index_result \<times> 'h) option" where
  "run_index_op ins del look (Insert r) h = map_option (\<lambda>(fail, h). (Inserted fail, h)) (ins h r)"
| "run_index_op ins del look (Delete r) h = map_option (\<lambda>(fail, freed, h). (Deleted fail freed, h)) (del h r)"
| "run_index_op ins del look (Search k) h = map_option (\<lambda>(res, h). (Found res, h)) (look h k (word_of_nat (length k)))"

fun run_index_ops ::
  "('h \<Rightarrow> 'r \<Rightarrow> (bool \<times> 'h) option) \<Rightarrow> ('h \<Rightarrow> 'r \<Rightarrow> (bool \<times> bool \<times> 'h) option) \<Rightarrow> ('h \<Rightarrow> mem \<Rightarrow> 32 word \<Rightarrow> ('r option \<times> 'h) option)
   \<Rightarrow> 'r index_op list \<Rightarrow> 'h \<Rightarrow> ('r index_result list \<times> 'h) option" where
  "run_index_ops ins del look [] h = Some ([], h)"
| "run_index_ops ins del look (p # ps) h = do {
     (res, h) \<leftarrow> run_index_op ins del look p h;
     (rs, h) \<leftarrow> run_index_ops ins del look ps h;
     Some (res # rs, h) }"

text \<open>
  What an index of records promises: the contents after an operation, \<open>None\<close> for a result that it excludes.  \<open>may_fail\<close> tells
  whether memory may run out, \<open>frees\<close> whether there is a free function.
\<close>

fun outcome :: "bool \<Rightarrow> bool \<Rightarrow> ('r \<Rightarrow> mem option) \<Rightarrow> 'r index_op \<Rightarrow> 'r index_result \<Rightarrow> 'r multiset \<Rightarrow> 'r multiset option" where
  "outcome may_fail frees keyed (Insert r) (Inserted fail) M =
     (if fail then if may_fail then Some M else None else Some (add_mset r M))"
| "outcome may_fail frees keyed (Delete r) (Deleted fail freed) M =
     (if fail = (r \<notin># M) \<and> freed = (r \<in># M \<and> frees) then Some (M - {#r#}) else None)"
| "outcome may_fail frees keyed (Search k) (Found (Some r)) M = (if r \<in># M \<and> keyed r = Some k then Some M else None)"
| "outcome may_fail frees keyed (Search k) (Found None) M = (if (\<forall>r\<in>#M. keyed r \<noteq> Some k) then Some M else None)"
| "outcome may_fail frees keyed p res M = None"

fun outcomes :: "bool \<Rightarrow> bool \<Rightarrow> ('r \<Rightarrow> mem option) \<Rightarrow> 'r index_op list \<Rightarrow> 'r index_result list \<Rightarrow> 'r multiset \<Rightarrow> 'r multiset option" where
  "outcomes may_fail frees keyed (p # ps) (res # rs) M = do {
     M \<leftarrow> outcome may_fail frees keyed p res M;
     outcomes may_fail frees keyed ps rs M }"
| "outcomes may_fail frees keyed ps rs M = (if ps = [] \<and> rs = [] then Some M else None)"

fun_cases outcome_elims:
  "outcome may_fail frees keyed (Insert r) res M = Some M'"
  "outcome may_fail frees keyed (Delete r) res M = Some M'"
  "outcome may_fail frees keyed (Search k) res M = Some M'"

lemma outcomes_elims:
  assumes "outcomes may_fail frees keyed ps rs M = Some M'"
  obtains "ps = []" "rs = []" "M' = M"
  | p ps' res rs' M1 where "ps = p # ps'" "rs = res # rs'" "outcome may_fail frees keyed p res M = Some M1"
    "outcomes may_fail frees keyed ps' rs' M1 = Some M'"
  using assms by (cases ps; cases rs) (auto split: bind_splits)

fun op_keyed :: "('r \<Rightarrow> mem option) \<Rightarrow> 'r index_op \<Rightarrow> bool" where
  "op_keyed keyed (Insert r) \<longleftrightarrow> keyed r \<noteq> None"
| "op_keyed keyed (Delete r) \<longleftrightarrow> keyed r \<noteq> None"
| "op_keyed keyed (Search k) \<longleftrightarrow> k \<noteq> [] \<and> length k < 2 ^ 32"

subsection \<open>The interface\<close>

locale record_index =
  fixes holds :: "'h \<Rightarrow> 'r multiset \<Rightarrow> bool" and keyed :: "'r \<Rightarrow> mem option" and room_for :: "nat \<Rightarrow> bool"
    and may_fail :: bool and frees :: bool
    and ins :: "'h \<Rightarrow> 'r \<Rightarrow> (bool \<times> 'h) option" and del :: "'h \<Rightarrow> 'r \<Rightarrow> (bool \<times> bool \<times> 'h) option"
    and look :: "'h \<Rightarrow> mem \<Rightarrow> 32 word \<Rightarrow> ('r option \<times> 'h) option"
  assumes ins_law: "holds h M \<Longrightarrow> keyed r \<noteq> None \<Longrightarrow> room_for (size M) \<Longrightarrow>
      \<exists>fail h'. ins h r = Some (fail, h') \<and> holds h' (if fail then M else add_mset r M) \<and> (fail \<longrightarrow> may_fail)"
    and del_law: "holds h M \<Longrightarrow> keyed r \<noteq> None \<Longrightarrow> \<exists>h'. del h r = Some (r \<notin># M, r \<in># M \<and> frees, h') \<and> holds h' (M - {#r#})"
    and look_law: "holds h M \<Longrightarrow> k \<noteq> [] \<Longrightarrow> length k < 2 ^ 32 \<Longrightarrow> \<exists>res h'. look h k (word_of_nat (length k)) = Some (res, h') \<and> holds h' M
      \<and> (case res of None \<Rightarrow> \<forall>r\<in>#M. keyed r \<noteq> Some k | Some r \<Rightarrow> r \<in># M \<and> keyed r = Some k)"
    and room_mono: "room_for n \<Longrightarrow> m \<le> n \<Longrightarrow> room_for m"
begin

lemma op_step:
  assumes "holds h M" and "op_keyed keyed p" and "room_for (size M)"
  shows "\<exists>res h' M'. run_index_op ins del look p h = Some (res, h') \<and> outcome may_fail frees keyed p res M = Some M'
    \<and> holds h' M' \<and> size M' \<le> Suc (size M)"
proof (cases p)
  case (Insert r)
  then have "keyed r \<noteq> None" using assms(2) by simp
  from ins_law [OF assms(1) this assms(3)]
  obtain fail h' where "ins h r = Some (fail, h')" "holds h' (if fail then M else add_mset r M)" "fail \<longrightarrow> may_fail" by blast
  then show ?thesis unfolding Insert
    by (intro exI [of _ "Inserted fail"] exI [of _ h'] exI [of _ "if fail then M else add_mset r M"]) simp
next
  case (Delete r)
  then obtain h' where "del h r = Some (r \<notin># M, r \<in># M \<and> frees, h')" "holds h' (M - {#r#})"
    using del_law [OF assms(1)] assms(2) by auto
  then show ?thesis unfolding Delete
    by (intro exI [of _ "Deleted (r \<notin># M) (r \<in># M \<and> frees)"] exI [of _ h'] exI [of _ "M - {#r#}"]) (simp add: size_Diff_subset_Int)
next
  case (Search k)
  then have k: "k \<noteq> []" "length k < 2 ^ 32" using assms(2) by simp_all
  from look_law [OF assms(1) k] obtain res h' where "look h k (word_of_nat (length k)) = Some (res, h')" "holds h' M"
    "case res of None \<Rightarrow> \<forall>r\<in>#M. keyed r \<noteq> Some k | Some r \<Rightarrow> r \<in># M \<and> keyed r = Some k" by blast
  then show ?thesis unfolding Search
    by (intro exI [of _ "Found res"] exI [of _ h'] exI [of _ M]) (simp split: option.splits)
qed

lemma ops_refine:
  assumes "holds h M" and "list_all (op_keyed keyed) ps" and "room_for (size M + length ps)"
  shows "\<exists>rs h' M'. run_index_ops ins del look ps h = Some (rs, h') \<and> outcomes may_fail frees keyed ps rs M = Some M' \<and> holds h' M'"
  using assms
proof (induction ps arbitrary: h M)
  case (Cons p ps)
  have "room_for (size M)" by (rule room_mono [OF Cons.prems(3)]) simp
  then obtain res h1 M1 where 1: "run_index_op ins del look p h = Some (res, h1)" "outcome may_fail frees keyed p res M = Some M1"
    "holds h1 M1" "size M1 \<le> Suc (size M)"
    using op_step [OF Cons.prems(1), of p] Cons.prems(2) by auto
  have "room_for (size M1 + length ps)" by (rule room_mono [OF Cons.prems(3)]) (use 1(4) in simp)
  then obtain rs h' M' where "run_index_ops ins del look ps h1 = Some (rs, h')" "outcomes may_fail frees keyed ps rs M1 = Some M'" "holds h' M'"
    using Cons.IH [OF 1(3)] Cons.prems(2) by auto
  then show ?case using 1 by (intro exI [of _ "res # rs"] exI [of _ h'] exI [of _ M']) simp
qed simp

end

subsection \<open>The hash index\<close>

text \<open>\<open>index_state realloc obj h\<^sub>0 h M\<close>: \<open>h\<close> is an index over the same keys as \<open>h\<^sub>0\<close> that holds \<open>M\<close>.\<close>

definition index_state :: "('r OB_HASH_LINK list option \<Rightarrow> nat \<Rightarrow> 'r OB_HASH_LINK list option) \<Rightarrow> ('r \<Rightarrow> mem) \<Rightarrow> 'r OB_HASH \<Rightarrow> 'r OB_HASH \<Rightarrow> 'r multiset \<Rightarrow> bool" where
  "index_state realloc obj h0 h M \<longleftrightarrow> realloc_grows realloc \<and> size_of_element (hs_array h0) = 16 \<and> same_keys h0 h \<and> hash_ok obj h M"

lemma same_keys_trans: "same_keys h h' \<Longrightarrow> same_keys h' h'' \<Longrightarrow> same_keys h h''"
  by (simp add: same_keys_def)

lemma hash_ok_size: "hash_ok obj h M \<Longrightarrow> size M = unat (records h)"
  by (auto simp: hash_ok_def bag_def)

lemma index_state_fits:
  assumes "index_state realloc obj h0 h M"
  shows "fits (hs_array h) = fits (hs_array h0)"
proof -
  have "size_of_element (hs_array h) = 16" using assms by (auto simp: index_state_def hash_ok_def)
  then show ?thesis using assms by (simp add: fun_eq_iff index_state_def fits_def same_keys_def)
qed

interpretation hx: record_index "index_state realloc obj h0" "hash_key obj h0" "fits (hs_array h0)" "\<exists>b n. realloc b n = None" "hs_free h0"
  "hash_insert realloc obj" "hash_delete obj" "hash_search obj" for realloc obj h0
proof unfold_locales
  fix h M and r :: 'a
  assume s: "index_state realloc obj h0 h M"
  then have i: "realloc_grows realloc" "size_of_element (hs_array h0) = 16" "same_keys h0 h" "hash_ok obj h M" by (simp_all add: index_state_def)
  note k = same_keys_nr [OF i(3)]
  show "\<exists>fail h'. hash_insert realloc obj h r = Some (fail, h') \<and> index_state realloc obj h0 h' (if fail then M else add_mset r M)
      \<and> (fail \<longrightarrow> (\<exists>b n. realloc b n = None))" if "hash_key obj h0 r \<noteq> None" "fits (hs_array h0) (size M)"
  proof -
    have f: "fits (hs_array h) (unat (records h))" using that(2) index_state_fits [OF s] hash_ok_size [OF i(4)] by simp
    have "hash_key obj h r \<noteq> None" using that(1) k(1) by simp
    with hash_insert_ok [OF i(4,1) f] show ?thesis unfolding index_state_def using i(1,2) same_keys_trans [OF i(3)] by blast
  qed
  show "\<exists>h'. hash_delete obj h r = Some (r \<notin># M, r \<in># M \<and> hs_free h0, h') \<and> index_state realloc obj h0 h' (M - {#r#})" if "hash_key obj h0 r \<noteq> None"
  proof -
    have kr: "hash_key obj h r \<noteq> None" "hs_free h = hs_free h0" using that k(1) i(3) by (simp_all add: same_keys_def)
    from hash_delete_ok [OF i(4) kr(1)] show ?thesis unfolding index_state_def kr(2) using i(1,2) same_keys_trans [OF i(3)] by blast
  qed
  show "\<exists>res h'. hash_search obj h key (word_of_nat (length key)) = Some (res, h') \<and> index_state realloc obj h0 h' M
      \<and> (case res of None \<Rightarrow> \<forall>r\<in>#M. hash_key obj h0 r \<noteq> Some key | Some r \<Rightarrow> r \<in># M \<and> hash_key obj h0 r = Some key)"
    if "key \<noteq> []" "length key < 2 ^ 32" for key
  proof -
    have l: "unat (word_of_nat (length key) :: 32 word) = length key" using that(2) by (rule unat_word32)
    then have "(word_of_nat (length key) :: 32 word) \<noteq> 0" using that(1) by (metis length_0_conv unat_0)
    from hash_search_ok [OF i(4) this l] show ?thesis unfolding index_state_def k(1) using i(1,2) same_keys_trans [OF i(3)] by blast
  qed
next
  fix n m assume "fits (hs_array h0) n" and "m \<le> (n :: nat)"
  then show "fits (hs_array h0) m" unfolding fits_def by (meson add_le_mono1 le_less_trans mult_le_mono1)
qed

lemma default_increment_link:
  assumes "unat sz < 2 ^ 28"
  shows "default_increment 16 sz \<noteq> 0" and "unat (default_increment 16 sz) \<le> 511"
proof -
  have u: "unat (sz * 2) = unat sz * 2" using assms by (simp add: unat_mult_lem [THEN iffD1])
  have i: "max (8184 div 16) 16 = (511 :: 32 word)" by code_simp
  have "sz * 2 \<noteq> 0" if "8 < sz" using that u by (auto simp: word_less_nat_alt)
  then show "default_increment 16 sz \<noteq> 0" unfolding default_increment_def i Let_def by auto
  have "unat (sz * 2) \<le> 511" if "sz * 2 < 511" using that unfolding word_less_nat_alt by simp
  then show "unat (default_increment 16 sz) \<le> 511" unfolding default_increment_def i Let_def by simp
qed

lemma hash_init_ok:
  assumes "hash_init malloc sz offset len getkey fr flgs h0 = Some (False, h)" and "malloc_gives malloc" and "unat sz < 2 ^ 28"
  shows "hash_ok obj h {#}" and "size_of_element (hs_array h) = 16" and "unat (alloc_increment (hs_array h)) \<le> 511"
proof -
  note di = default_increment_link [OF assms(3)]
  obtain a where a: "ma_init_dynamic_array malloc 16 sz 0 = Some (False, a)" "hs_array h = a" "records h = 0" "blength h = 1"
    using assms(1) by (auto simp: hash_init_def Let_def split: bind_splits if_splits)
  have m: "size_of_element a = 16" "alloc_increment a = default_increment 16 sz" "max_element a = (if sz = 0 then default_increment 16 sz else sz)"
    using a(1) by (auto simp: ma_init_dynamic_array_def Let_def split: if_splits)
  then show "size_of_element (hs_array h) = 16" "unat (alloc_increment (hs_array h)) \<le> 511" using a(2) di(2) by simp_all
  have lt: "unat (max_element a) * 16 < 2 ^ 32" using m(3) di(2) assms(3) by (cases "sz = 0") simp_all
  have ok: "array_ok a []" by (rule init_dynamic_array_ok [OF a(1) assms(2)]) (use m di(1) lt in simp_all)
  then obtain d where d: "da_buffer a = Some d" "length d = unat (max_element a)" by (auto simp: array_ok_def)
  moreover have "geometry 1 0" unfolding geometry_def by (auto intro: exI [of _ 0])
  moreover have "chained K {} d (\<lambda>k. [])" for K :: "'a \<Rightarrow> nat" by (simp add: chained_def)
  ultimately show "hash_ok obj h {#}" unfolding hash_ok_def using a ok m(1) lt
    by (intro exI [of _ d] exI [of _ "\<lambda>k. []"]) (simp add: bag_def)
qed

text \<open>C4: the hash index is a bag of records.  From a fresh index, any sequence of \<^verbatim>\<open>hash_insert\<close>, \<^verbatim>\<open>hash_delete\<close> and
  \<^verbatim>\<open>hash_search\<close> ends, stays inside the array, and gives the results of the specification: a search finds a record with the key if and only
  if one is in the index, a deletion fails if and only if the record is not there and frees it if and only if it was, an insertion fails only when
  \<^verbatim>\<open>realloc\<close> does and changes nothing then, and \<^verbatim>\<open>records\<close> is the number of records.  Splitting and merging of buckets is not visible.\<close>

theorem hash_refines_bag:
  assumes "hash_init malloc sz offset len getkey fr flgs h0 = Some (False, h)" and "malloc_gives malloc" and "realloc_grows realloc"
    and "unat sz < 2 ^ 28" and "length ps + 511 < 2 ^ 28" and "list_all (op_keyed (hash_key obj h)) ps"
  shows "\<exists>rs h' M. run_index_ops (hash_insert realloc obj) (hash_delete obj) (hash_search obj) ps h = Some (rs, h')
    \<and> outcomes (\<exists>b n. realloc b n = None) (hs_free h) (hash_key obj h) ps rs {#} = Some M \<and> unat (records h') = size M"
proof -
  note i = hash_init_ok [OF assms(1,2,4)]
  have "index_state realloc obj h h {#}" using i assms(3) by (simp add: index_state_def same_keys_def)
  moreover have "fits (hs_array h) (size ({#} :: 'a multiset) + length ps)" using i(2,3) assms(5) by (simp add: fits_def)
  ultimately obtain rs h' M where "run_index_ops (hash_insert realloc obj) (hash_delete obj) (hash_search obj) ps h = Some (rs, h')"
    "outcomes (\<exists>b n. realloc b n = None) (hs_free h) (hash_key obj h) ps rs {#} = Some M" "index_state realloc obj h h' M"
    using hx.ops_refine [OF _ assms(6)] by blast
  then show ?thesis using hash_ok_size [of obj h' M] by (auto simp: index_state_def)
qed

theorem hash_refines_bag_witness:
  "\<exists>h0 h h'. hash_init (\<lambda>n. Some (replicate n \<lparr>lnk_next = 0, lnk_data = 0\<rparr>)) 1 0 1 None True 0 h0 = Some (False, h)
    \<and> run_index_ops (hash_insert (\<lambda>b n. Some (take n (the b @ replicate n \<lparr>lnk_next = 0, lnk_data = 0\<rparr>))) (\<lambda>r. [r])) (hash_delete (\<lambda>r. [r]))
        (hash_search (\<lambda>r. [r])) [Insert 1, Insert 2, Search [2], Delete 1, Search [1], Delete 1] h
      = Some ([Inserted False, Inserted False, Found (Some 2), Deleted False True, Found None, Deleted True False], h')
    \<and> records h' = (1 :: 32 word)"
proof -
  let ?m = "\<lambda>n. Some (replicate n \<lparr>lnk_next = 0, lnk_data = 0\<rparr>) :: byte OB_HASH_LINK list option"
  let ?r = "\<lambda>b n. Some (take n (the b @ replicate n \<lparr>lnk_next = 0, lnk_data = 0\<rparr>)) :: byte OB_HASH_LINK list option"
  let ?ps = "[Insert 1, Insert 2, Search [2], Delete 1, Search [1], Delete 1] :: byte index_op list"
  obtain h where h: "hash_init ?m 1 0 1 None True 0 h0 = Some (False, h)" "get_key h = None" "key_offset h = 0" "key_length h = 1" "hs_free h"
    by (simp add: hash_init_def ma_init_dynamic_array_def)
  have k: "hash_key (\<lambda>r. [r]) h = (\<lambda>r. Some [r])" using h(2-4) by (simp add: fun_eq_iff hash_key_def load_bytes_def)
  have "malloc_gives ?m" "realloc_grows ?r" by (auto simp: malloc_gives_def realloc_grows_def min_def)
  from hash_refines_bag [OF h(1) this, of ?ps "\<lambda>r. [r]"] k
  obtain rs h' M where r: "run_index_ops (hash_insert ?r (\<lambda>r. [r])) (hash_delete (\<lambda>r. [r])) (hash_search (\<lambda>r. [r])) ?ps h = Some (rs, h')"
    "outcomes False True (\<lambda>r. Some [r]) ?ps rs {#} = Some M" "unat (records h') = size M" using h(5) by auto
  then have "rs = [Inserted False, Inserted False, Found (Some 2), Deleted False True, Found None, Deleted True False] \<and> M = {#2#}"
    by (auto elim!: outcomes_elims outcome_elims split: if_splits)
  then have "rs = [Inserted False, Inserted False, Found (Some 2), Deleted False True, Found None, Deleted True False]" "records h' = 1"
    using r(3) by (auto simp: word_unat_eq_iff)
  then show ?thesis using h(1) r(1) by blast
qed

subsection \<open>Changing a key\<close>

text \<open>A link to itself: the search for another key never ends.\<close>

lemma search_loop_endless:
  assumes at: "link_at d p = Some l" "lnk_next l = p" "p \<noteq> NO_RECORD" and cmp: "hashcmp obj h l key len = Some True"
    and msk: "hash_rec_mask obj h l (blength h) (records h) = Some p"
  shows "search_loop obj h d key len first p = None"
proof (rule ccontr)
  assume "search_loop obj h d key len first p \<noteq> None"
  then obtain y where "search_loop obj h d key len first p = Some y" by auto
  then have "\<not> (obj = obj \<and> h = h \<and> d = d \<and> key = key \<and> len = len \<and> p = p)"
  proof (rule search_loop.raw_induct
      [of "\<lambda>ob hh dd kk ll f q y. \<not> (ob = obj \<and> hh = h \<and> dd = d \<and> kk = key \<and> ll = len \<and> q = p)", rotated])
    fix loop ob hh dd kk ll f q and y :: "(32 word \<times> 'a) option"
    assume IH: "\<And>ob hh dd kk ll f q y. loop ob hh dd kk ll f q = Some y \<Longrightarrow>
        \<not> (ob = obj \<and> hh = h \<and> dd = d \<and> kk = key \<and> ll = len \<and> q = p)"
      and eq: "(do {
        pos \<leftarrow> link_at dd q;
        differs \<leftarrow> hashcmp ob hh pos kk ll;
        if \<not> differs then Some (Some (q, lnk_data pos))
        else do {
          wrong \<leftarrow> (if f then map_option (\<lambda>i. i \<noteq> q) (hash_rec_mask ob hh pos (blength hh) (records hh)) else Some False);
          if wrong then Some None
          else if lnk_next pos \<noteq> NO_RECORD then loop ob hh dd kk ll False (lnk_next pos)
          else Some None } }) = Some y"
    show "\<not> (ob = obj \<and> hh = h \<and> dd = d \<and> kk = key \<and> ll = len \<and> q = p)"
    proof
      assume same: "ob = obj \<and> hh = h \<and> dd = d \<and> kk = key \<and> ll = len \<and> q = p"
      then have "loop obj h d key len False p = Some y" using eq at cmp msk by (cases f) simp_all
      then show False using IH by blast
    qed
  qed
  then show False by simp
qed

text \<open>C23: a flaw of \<^verbatim>\<open>hash_update\<close>.  When the changed record lies inside the chain of its old bucket, in just the place of
  its new bucket, that place is freed and then taken as the head of the new chain: its link gets itself as successor.  The
  call reports success; afterwards a search for any other key of that bucket never returns.
\<close>

theorem hash_update_self_loop:
  assumes "da_buffer (hs_array h) = Some d" and "length d < 2 ^ 32 - 1" and "records h \<noteq> 0"
    and "old_len \<noteq> 0" and "unat old_len = length old_key" and "hash_key obj h r = Some new_key"
    and "p = hash_mask (hashnr h new_key) (blength h) (records h)" and "hash_mask (hashnr h old_key) (blength h) (records h) \<noteq> p"
    and "find_record d r None (hash_mask (hashnr h old_key) (blength h) (records h)) = Some (Some (Some g, p))"
    and "link_at d g = Some lg" and "link_at d p = Some lp" and "g \<noteq> p" and "lnk_data lp = r"
    and "key \<noteq> new_key" and "len \<noteq> 0" and "unat len = length key" and "hash_mask (hashnr h key) (blength h) (records h) = p"
  shows "\<exists>h'. hash_update obj h r old_key old_len = Some (False, h') \<and> hash_search obj h' key len = None"
proof -
  let ?d = "d[unat g := lg\<lparr>lnk_next := lnk_next lp\<rparr>]"
  let ?d1 = "?d[unat p := lp\<lparr>lnk_next := p\<rparr>]"
  let ?h = "h\<lparr>current_record := NO_RECORD, hs_array := (hs_array h)\<lparr>da_buffer := Some ?d1\<rparr>\<rparr>"
  have l: "unat g < length d" "unat p < length d" "d ! unat p = lp" using assms(10,11) by (auto simp: link_at_def split: if_splits)
  have ne: "unat g \<noteq> unat p" using assms(12) by (simp add: word_unat_eq_iff)
  have sk: "same_keys h (h\<lparr>current_record := i\<rparr>)" "same_keys h ?h" for i by (simp_all add: same_keys_def)
  have ld: "load_bytes old_key 0 (unat old_len) = Some old_key" "load_bytes key 0 (unat len) = Some key" using assms(5,16) by (simp_all add: load_bytes_def)
  have m: "hash_rec_mask obj h x (blength h) (records h) = Some p" if "lnk_data x = r" for x using that assms(6,7) by (simp add: hash_rec_mask_def)
  have up: "hash_update obj h r old_key old_len = Some (False, ?h)"
  proof -
    have "unlink d (Some g) p = Some (?d, p)" using assms(10,11) l by (simp add: unlink_def set_link_def)
    moreover have "link_at ?d p = Some lp" using l ne by (simp add: link_at_def nth_list_update)
    moreover have "rec_hashnr obj h r = Some (hashnr h new_key)" using assms(6) by (simp add: rec_hashnr_def)
    ultimately show ?thesis
      using assms(1,4,7,8,9,11) ld(1) m [OF assms(13)] l same_keys_nr(6) [OF sk(1), of obj NO_RECORD]
      by (simp add: hash_update_def relink_def set_link_def link_at_def Let_def)
  qed
  have "p \<noteq> NO_RECORD" using word_index_NO [of "unat p"] l(2) assms(2) by simp
  moreover have "link_at ?d1 p = Some (lp\<lparr>lnk_next := p\<rparr>)" using l(2) by (simp add: link_at_def)
  moreover have "hashcmp obj ?h (lp\<lparr>lnk_next := p\<rparr>) key len = Some True"
    unfolding same_keys_nr [OF sk(2)] using hashcmp_key [of obj h "lp\<lparr>lnk_next := p\<rparr>" new_key len key] assms(6,13-16) by simp
  moreover have "hash_rec_mask obj ?h (lp\<lparr>lnk_next := p\<rparr>) (blength ?h) (records ?h) = Some p"
    unfolding same_keys_nr [OF sk(2)] using m assms(13) by simp
  ultimately have "search_loop obj ?h ?d1 key len True p = None" by (intro search_loop_endless) simp_all
  then have "hash_search obj ?h key len = None" using assms(3,15,17) ld(2) same_keys_nr(2) [OF sk(2)] by (simp add: hash_search_def)
  with up show ?thesis by blast
qed

theorem hash_update_self_loop_witness:
  "\<exists>h h'. da_buffer (hs_array h) = Some [\<lparr>lnk_next = 1, lnk_data = 1\<rparr>, \<lparr>lnk_next = NO_RECORD, lnk_data = 2\<rparr>] \<and> records h = 2
    \<and> hash_update (\<lambda>r. [r]) h 2 [3] 1 = Some (False, h') \<and> hash_search (\<lambda>r. [r :: byte]) h' [4] 1 = None"
proof -
  let ?d = "[\<lparr>lnk_next = 1, lnk_data = 1\<rparr>, \<lparr>lnk_next = NO_RECORD, lnk_data = 2\<rparr>] :: byte OB_HASH_LINK list"
  let ?a = "\<lparr>da_buffer = Some ?d, elements = 2, max_element = 2, alloc_increment = 2, size_of_element = 16\<rparr>"
  let ?h = "\<lparr>key_offset = 0, key_length = 1, records = 2, blength = 4, current_record = NO_RECORD, hs_flags = 0, hs_array = ?a,
    get_key = None, hs_free = False, hs_calc_hashnr = CalcHashnr\<rparr> :: byte OB_HASH"
  have nr: "calc_hashnr [2] = 267" "calc_hashnr [3] = 270" "calc_hashnr [4] = 277" by code_simp+
  have mask: "hash_mask 267 4 2 = 1" "hash_mask 270 4 2 = 0" "hash_mask 277 4 2 = 1" by code_simp+
  have "find_record ?d 2 None 0 = Some (Some (Some 0, 1))"
    by (subst find_record.simps, subst find_record.simps) (simp add: link_at_def)
  then have ex: "\<exists>h'. hash_update (\<lambda>r. [r]) ?h 2 [3] 1 = Some (False, h') \<and> hash_search (\<lambda>r. [r]) h' [4] 1 = None"
    by (intro hash_update_self_loop [where d = ?d and new_key = "[2]" and p = 1 and g = 0 and lg = "?d ! 0" and lp = "?d ! 1"])
      (simp_all add: hash_key_def load_bytes_def link_at_def hashnr_def nr mask)
  then obtain h' where "hash_update (\<lambda>r. [r]) ?h 2 [3] 1 = Some (False, h')" "hash_search (\<lambda>r. [r]) h' [4] 1 = None" by blast
  then show ?thesis by (intro exI [of _ ?h] exI [of _ h']) simp
qed

text \<open>Apart from that the record moves to the chain of its new key, behind its first record or as the first one.\<close>

lemma chained_behind:
  assumes ch: "chained K P d C" and k: "k \<in> P" "K (lnk_data (d ! k)) = k" "k < length d" "K (lnk_data l) = k"
    and e: "e \<notin> P" "e < length d" and l: "lnk_next l = lnk_next (d ! k)"
  obtains C' where "chained K (insert e P) (d[e := l, k := (d ! k)\<lparr>lnk_next := word_of_nat e\<rparr>]) C'"
proof -
  let ?d = "d[e := l, k := (d ! k)\<lparr>lnk_next := word_of_nat e\<rparr>]"
  obtain ys where ys: "C k = k # ys" using chained_head [OF ch k(1,2)] .
  have d: "k \<notin> set ys" "e \<notin> set ys" "e \<noteq> k" using chainedD(1) [OF ch, of k] chained_mem [OF ch, of e k] ys e(1) k(1) by auto
  have lk: "linked d ys NO_RECORD" "lnk_next (d ! k) = (case ys of [] \<Rightarrow> NO_RECORD | q # _ \<Rightarrow> word_of_nat q)"
    using chainedD(2) [OF ch, of k] ys by simp_all
  have "chained K (insert e P) ?d (\<lambda>j. if j \<in> {k} then k # e # ys else C j)"
  proof (rule chained_change [OF ch])
    show "set (if j \<in> {k} then k # e # ys else C j) = {p \<in> insert e P. K (lnk_data (?d ! p)) = j}" for j
    proof (rule set_eqI)
      fix p
      have m: "p \<in> set (C j) \<longleftrightarrow> p \<in> P \<and> K (lnk_data (d ! p)) = j" using chained_mem [OF ch] .
      have v: "K (lnk_data (?d ! p)) = (if p = k \<or> p = e then k else K (lnk_data (d ! p)))"
        using k(2-4) e(2) d(3) by (simp add: nth_list_update)
      have mk: "p = k \<or> p \<in> set ys \<longleftrightarrow> p \<in> P \<and> K (lnk_data (d ! p)) = k" using chained_mem [OF ch, of p k] ys by simp
      show "p \<in> set (if j \<in> {k} then k # e # ys else C j) \<longleftrightarrow> p \<in> {p \<in> insert e P. K (lnk_data (?d ! p)) = j}"
        using m mk v k(1,2) e(1) d by (cases "j = k"; cases "p = k"; cases "p = e") simp_all
    qed
    show "?d ! p = d ! p" if "j \<notin> {k}" "p \<in> set (C j)" for j p
      using that e(1) k(2) by (metis chained_mem [OF ch] insertI1 nth_list_update_neq)
  qed (use k(3) e(2) d lk l chainedD(1) [OF ch, of k] ys in auto)
  then show thesis by (rule that)
qed

lemma relink_ok:
  assumes ch: "chained K P d C" and e: "e \<notin> P" "insert e P = {..<n}" and n: "n \<le> length d" "length d < 2 ^ 32 - 1"
    and k: "K (lnk_data l) = k" "k < n" "k \<noteq> e" and g: "K (lnk_data (d ! k)) = g" "g < n"
  shows "\<exists>d' C'. relink d l (word_of_nat e) (word_of_nat k) (word_of_nat g) = Some d' \<and> length d' = length d
    \<and> chained K {..<n} d' C' \<and> bag d' {..<n} = add_mset (lnk_data l) (bag d P)"
proof -
  have "P = {..<n} - {e}" "e < n" using e by blast+
  then have P: "k \<in> P" "finite P" "e < n" "P \<subseteq> {..<length d}" "e < length d" "k < length d" "length d < 2 ^ 32" "e \<noteq> k" using k n by auto
  show ?thesis
  proof (cases "g = k")
    case True
    let ?l = "l\<lparr>lnk_next := lnk_next (d ! k)\<rparr>"
    let ?d = "d[e := ?l, k := (d ! k)\<lparr>lnk_next := word_of_nat e\<rparr>]"
    obtain C' where C': "chained K (insert e P) ?d C'"
      by (rule chained_behind [OF ch P(1) _ P(6) _ e(1) P(5), of ?l]) (use True k(1) g(1) in auto)
    have "bag ?d P = bag d P" using e(1) by (intro bag_cong) (metis keep_data nth_list_update_neq)
    then have "bag ?d (insert e P) = add_mset (lnk_data l) (bag d P)" using P(2,5,8) e(1) by (simp add: bag_insert)
    then show ?thesis using True P(5-8) C' e(2) by (intro exI [of _ ?d] exI [of _ C']) (simp add: relink_def index_simps)
  next
    case False
    then have ne: "word_of_nat k \<noteq> (word_of_nat g :: 32 word)" using word_index_eq [of k g] k(2) g(2) n by simp
    have id: "d[e := d ! k, k := d ! k] = d[e := d ! k]" using P(8) by (metis list_update_id nth_list_update_neq)
    obtain d1 C1 where d1: "movelink (d[e := d ! k]) (word_of_nat k) (word_of_nat g) (word_of_nat e) = Some d1"
      "length d1 = length d" "chained K (insert e (P - {k})) d1 C1" "lnk_data (d1 ! e) = lnk_data (d ! k)"
      "\<And>q. q \<noteq> e \<Longrightarrow> q \<noteq> k \<Longrightarrow> lnk_data (d1 ! q) = lnk_data (d ! q)"
      by (rule move_inner [OF ch P(1) g(1) False e(1) P(5,4) n(2), of "d ! k"]) (unfold id, blast)
    let ?l = "l\<lparr>lnk_next := NO_RECORD\<rparr>" and ?Q = "insert e (P - {k})"
    let ?d = "d1[k := ?l]"
    have kQ: "k \<notin> ?Q" "insert k ?Q = {..<n}" "finite ?Q" using P(1,2,8) e(2) by auto
    have "chained K ?Q ?d C1" by (rule chained_cong [OF d1(3)]) (use kQ(1) in \<open>simp_all, metis nth_list_update_neq\<close>)
    then have C': "chained K (insert k ?Q) ?d (\<lambda>j. if j \<in> {k} then [k] else C1 j)"
      by (rule chained_single) (use kQ(1) P(6) d1(2) k(1) in \<open>auto\<close>)
    have "bag ?d ?Q = bag d1 ?Q" using kQ(1) by (intro bag_cong) (metis nth_list_update_neq)
    also have "\<dots> = bag d P" by (rule bag_moved [OF P(2,1) e(1) d1(4)]) (rule d1(5))
    finally have "bag ?d (insert k ?Q) = add_mset (lnk_data l) (bag d P)" using kQ(1,3) P(6) d1(2) by (simp add: bag_insert)
    moreover have "set_link d (word_of_nat e) (d ! k) = Some (d[e := d ! k])" "set_link d1 (word_of_nat k) ?l = Some ?d"
      "link_at d (word_of_nat k) = Some (d ! k)"
      using P(5-7) d1(2) by (simp_all add: index_simps)
    ultimately show ?thesis using ne d1(1,2) C' kQ(2) by (intro exI [of _ ?d] exI) (simp add: relink_def)
  qed
qed

text \<open>The place that becomes free when a record leaves the chain that starts at \<open>idx\<close>.\<close>

definition freed_place :: "'r OB_HASH_LINK list \<Rightarrow> 'r \<Rightarrow> 32 word \<Rightarrow> 32 word option" where
  "freed_place d r idx = do {
     found \<leftarrow> find_record d r None idx;
     (case found of None \<Rightarrow> None | Some (prev, p) \<Rightarrow> map_option snd (unlink d prev p)) }"

lemma hash_ok_cong:
  assumes "hash_ok old h M" and "\<And>x. x \<in># M \<Longrightarrow> hash_key obj h x \<noteq> None"
    and "\<And>x. x \<in># M \<Longrightarrow> rec_bucket obj h (unat (blength h)) (unat (records h)) x = rec_bucket old h (unat (blength h)) (unat (records h)) x"
  shows "hash_ok obj h M"
proof -
  let ?n = "unat (records h)" and ?b = "unat (blength h)"
  from assms(1) obtain d C where d: "da_buffer (hs_array h) = Some d" "array_ok (hs_array h) (take ?n d)" "?n \<le> length d"
    "size_of_element (hs_array h) = 16" "length d * 16 < 2 ^ 32" "geometry ?b ?n" "chained (rec_bucket old h ?b ?n) {..<?n} d C" "M = bag d {..<?n}"
    by (rule hash_okE) blast
  have "chained (rec_bucket obj h ?b ?n) {..<?n} d C"
    by (rule chained_cong [OF d(7)]) (use assms(3) in_bag [of "{..<?n}" _ d] d(8) in auto)
  then show ?thesis unfolding hash_ok_def using d assms(2) by blast
qed

text \<open>C6: \<^verbatim>\<open>hash_update\<close> after the key of one record has changed: unless the place that becomes free is just the
  place of the new bucket, the call succeeds and the index is again well-formed for the new keys, with the same records.\<close>

theorem hash_update_moves:
  assumes ok: "hash_ok old h M" and same: "\<And>x. x \<in># M \<Longrightarrow> x \<noteq> r \<Longrightarrow> hash_key obj h x = hash_key old h x" and r: "count M r = 1"
    and key: "hash_key old h r = Some old_key" "len \<noteq> 0" "unat len = length old_key" "hash_key obj h r = Some new_key"
    and free: "\<And>d. da_buffer (hs_array h) = Some d \<Longrightarrow> freed_place d r (hash_mask (hashnr h old_key) (blength h) (records h))
      \<noteq> Some (hash_mask (hashnr h new_key) (blength h) (records h))"
  shows "\<exists>h'. hash_update obj h r old_key len = Some (False, h') \<and> same_keys h h' \<and> hash_ok obj h' M"
proof -
  let ?n = "unat (records h)" and ?b = "unat (blength h)"
  let ?K = "rec_bucket old h ?b ?n" and ?K' = "rec_bucket obj h ?b ?n"
  from ok obtain d C where d: "da_buffer (hs_array h) = Some d" "array_ok (hs_array h) (take ?n d)" "?n \<le> length d"
    "size_of_element (hs_array h) = 16" "length d * 16 < 2 ^ 32" "geometry ?b ?n" "chained ?K {..<?n} d C" "M = bag d {..<?n}"
    "\<And>x. x \<in># M \<Longrightarrow> hash_key old h x \<noteq> None"
    by (rule hash_okE) blast
  have rM: "r \<in># M" using r by (metis count_greater_zero_iff zero_less_one)
  then have n0: "0 < ?n" using hash_ok_size [OF ok] by (cases "?n = 0") auto
  have ld: "length d < 2 ^ 32 - 1" "length d < 2 ^ 32" using d(5) by simp_all
  have K': "?K' x = ?K x" if "x \<in># M" "x \<noteq> r" for x using same [OF that] by (simp add: rec_bucket_def rec_nr_def)
  have keyed: "hash_key obj h x \<noteq> None" if "x \<in># M" for x using same [OF that] d(9) [OF that] key(4) by (cases "x = r") auto
  have pl: "hash_mask (rec_nr ob h x) (blength h) (records h) = word_of_nat (rec_bucket ob h ?b ?n x)" "rec_bucket ob h ?b ?n x < ?n" for ob x
    using hash_mask_place [OF d(6) n0, of "rec_nr ob h x"] by (simp_all add: rec_bucket_def)
  have ix: "hash_mask (hashnr h old_key) (blength h) (records h) = word_of_nat (?K r)" "hash_mask (hashnr h new_key) (blength h) (records h) = word_of_nat (?K' r)"
    using pl(1) [of old r] pl(1) [of obj r] key(1,4) by (simp_all add: rec_nr_def)
  have eq: "(word_of_nat (?K r) :: 32 word) = word_of_nat (?K' r) \<longleftrightarrow> ?K r = ?K' r"
    using pl(2) [of old r] pl(2) [of obj r] d(3) ld by (intro word_index_eq) simp_all
  have lb: "load_bytes old_key 0 (unat len) = Some old_key" using key(3) by (simp add: load_bytes_def)
  show ?thesis
  proof (cases "?K r = ?K' r")
    case True
    then have "hash_update obj h r old_key len = Some (False, h)"
      using lb key(2,4) ix by (simp add: hash_update_def rec_hashnr_def)
    moreover have "hash_ok obj h M" by (rule hash_ok_cong [OF ok keyed]) (use K' True in metis)+
    ultimately show ?thesis by (auto simp: same_keys_def)
  next
    case False
    obtain xs p ys where p: "C (?K r) = xs @ p # ys" "lnk_data (d ! p) = r" "find_record d r None (word_of_nat (?K r)) =
        Some (Some (if xs = [] then None else Some (word_of_nat (last xs)), word_of_nat p))"
      using find_record_chain(2) [OF d(7,3) ld(1) pl(2)] rM d(8) by blast
    obtain d1 e C1 where d1: "unlink d (if xs = [] then None else Some (word_of_nat (last xs))) (word_of_nat p) = Some (d1, word_of_nat e)"
      "length d1 = length d" "e < ?n" "chained ?K ({..<?n} - {e}) d1 C1" "M = add_mset r (bag d1 ({..<?n} - {e}))"
      using unlink_ok [OF d(7) p(1) _ ld(1)] p(2) d(8) by auto
    let ?P = "{..<?n} - {e}" and ?k = "?K' r"
    have "word_of_nat e \<noteq> (word_of_nat ?k :: 32 word)" using free [OF d(1)] p(3) d1(1) ix by (simp add: freed_place_def)
    then have ke: "?k \<noteq> e" by blast
    have "r \<notin># bag d1 ?P" using r unfolding d1(5) by (simp add: not_in_iff)
    then have sub: "x \<in># M \<and> x \<noteq> r" if "x \<in># bag d1 ?P" for x using that unfolding d1(5) by auto
    have ch1: "chained ?K' ?P d1 C1" by (rule chained_cong [OF d1(4)]) (use sub K' in_bag [of ?P _ d1] in auto)
    have kx: "lnk_data (d1 ! ?k) \<in># M" using in_bag [of ?P ?k d1] sub ke pl(2) [of obj r] by simp
    let ?g = "?K' (lnk_data (d1 ! ?k))"
    have P: "e \<notin> ?P" "insert e ?P = {..<?n}" "?n \<le> length d1" "length d1 < 2 ^ 32 - 1" "?K' (lnk_data (d ! p)) = ?k"
      using d1(2,3) d(3) ld(1) p(2) by auto
    from relink_ok [OF ch1 P pl(2) ke refl pl(2)]
    obtain d2 C2 where d2: "relink d1 (d ! p) (word_of_nat e) (word_of_nat ?k) (word_of_nat ?g) = Some d2"
      "length d2 = length d1" "chained ?K' {..<?n} d2 C2" "bag d2 {..<?n} = M" using d1(5) p(2) by auto
    let ?h = "h\<lparr>current_record := NO_RECORD, hs_array := (hs_array h)\<lparr>da_buffer := Some d2\<rparr>\<rparr>"
    have sk: "same_keys h (h\<lparr>current_record := NO_RECORD\<rparr>)" "same_keys h ?h" by (simp_all add: same_keys_def)
    have up: "hash_update obj h r old_key len = Some (False, ?h)"
    proof -
      have "p < length d" using linked_set [OF chainedD(2) [OF d(7), of "?K r"]] p(1) by auto
      then have "link_at d (word_of_nat p) = Some (d ! p)" "link_at d1 (word_of_nat ?k) = Some (d1 ! ?k)"
        using ld d1(2) pl(2) [of obj r] d(3) by (simp_all add: link_at_index)
      moreover have "hash_rec_mask obj h (d1 ! ?k) (blength h) (records h) = Some (word_of_nat ?g)"
        using keyed [OF kx] pl(1) [of obj "lnk_data (d1 ! ?k)"] by (auto simp: hash_rec_mask_def rec_nr_def)
      ultimately show ?thesis
        using False eq ix lb key(2,4) d(1) p(3) d1(1) d2(1) same_keys_nr(6) [OF sk(1), of obj] by (simp add: hash_update_def rec_hashnr_def)
    qed
    have "array_ok ((hs_array h)\<lparr>da_buffer := Some d2\<rparr>) (take ?n d2)"
      using array_ok_buffer [OF d(2), of d2] array_ok_length [OF d(2,1)] d2(2) d1(2) d(3) by simp
    then have "hash_ok obj ?h M" unfolding hash_ok_def same_keys_nr [OF sk(2)] using d d2 d1(2) keyed
      by (intro exI [of _ d2] exI [of _ C2] conjI) simp_all
    then show ?thesis using up sk(2) by blast
  qed
qed

theorem hash_update_moves_witness:
  "\<exists>h h'. hash_ok (\<lambda>r. [if r = 2 then 4 else r]) h {#1, 2 :: byte#} \<and> hash_update (\<lambda>r. [if r = 2 then 3 else r]) h 2 [4] 1 = Some (False, h')
    \<and> hash_ok (\<lambda>r. [if r = 2 then 3 else r]) h' {#1, 2#}"
proof -
  let ?d = "[\<lparr>lnk_next = NO_RECORD, lnk_data = 1\<rparr>, \<lparr>lnk_next = NO_RECORD, lnk_data = 2\<rparr>] :: byte OB_HASH_LINK list"
  let ?a = "\<lparr>da_buffer = Some ?d, elements = 2, max_element = 2, alloc_increment = 2, size_of_element = 16\<rparr>"
  let ?h = "\<lparr>key_offset = 0, key_length = 1, records = 2, blength = 4, current_record = NO_RECORD, hs_flags = 0, hs_array = ?a,
    get_key = None, hs_free = False, hs_calc_hashnr = CalcHashnr\<rparr> :: byte OB_HASH"
  let ?o = "\<lambda>r :: byte. [if r = 2 then 4 else r]" and ?o' = "\<lambda>r :: byte. [if r = 2 then 3 else r]"
  have nr: "calc_hashnr [1] = 260" "calc_hashnr [3] = 270" "calc_hashnr [4] = 277" by code_simp+
  have mask: "hash_mask 270 4 2 = 0" "hash_mask 277 4 2 = 1" by code_simp+
  have P: "{..<2 :: nat} = {0, 1}" by auto
  have K: "rec_bucket ?o ?h 4 2 1 = 0" "rec_bucket ?o ?h 4 2 2 = 1"
    by (simp_all add: rec_bucket_def rec_nr_def hash_key_def load_bytes_def hashnr_def nr bucket_def)
  have "chained K {..<2} ?d (\<lambda>k. if k < 2 then [k] else [])" if "K 1 = 0" "K 2 = 1" for K
  proof -
    have "{p \<in> {..<2}. K (lnk_data (?d ! p)) = k} = (if k < 2 then {k} else {})" for k
    proof (rule set_eqI)
      fix p
      have "p < 2 \<Longrightarrow> K (lnk_data (?d ! p)) = p" using that by (metis (no_types) One_nat_def less_2_cases nth_Cons_0 nth_Cons_Suc OB_HASH_LINK.select_convs(2))
      then show "p \<in> {p \<in> {..<2}. K (lnk_data (?d ! p)) = k} \<longleftrightarrow> p \<in> (if k < 2 then {k} else {})" by (cases "p < 2") (simp del: nth_Cons_0, simp)
    qed
    moreover have "k < 2 \<Longrightarrow> lnk_next (?d ! k) = NO_RECORD" for k by (drule less_2_cases) (elim disjE, simp_all)
    ultimately show ?thesis unfolding chained_def by simp
  qed
  note this [OF K]
  moreover have "geometry 4 2" unfolding geometry_def by (auto intro: exI [of _ 2])
  ultimately have ok: "hash_ok ?o ?h {#1, 2#}"
    unfolding hash_ok_def
    by (intro exI [of _ ?d] exI [of _ "\<lambda>k. if k < 2 then [k] else []"]) (simp add: array_ok_def bag_def P hash_key_def load_bytes_def)
  have "freed_place ?d 2 1 = Some 1"
    unfolding freed_place_def by (subst find_record.simps) (simp add: link_at_def unlink_def)
  then have "\<exists>h'. hash_update ?o' ?h 2 [4] 1 = Some (False, h') \<and> same_keys ?h h' \<and> hash_ok ?o' h' {#1, 2#}"
    by (intro hash_update_moves [OF ok, where new_key = "[3]"]) (auto simp: hash_key_def load_bytes_def hashnr_def nr mask)
  then obtain h' where "hash_update ?o' ?h 2 [4] 1 = Some (False, h')" "hash_ok ?o' h' {#1, 2#}" by blast
  with ok show ?thesis by blast
qed

end
