(* ===== verification/Spec2Isabelle.thy ===== *)
theory Spec2Isabelle
  imports ObBitmap ObObject MaNetEnvelope FltRequest MaHashIndex
begin

text \<open>
  \<^bold>\<open>Verification of obconnector-c.\<close>

  The library is a C client for OceanBase, a fork of the MariaDB connector.  On top of the MySQL
  packet protocol it has its own wire format (protocol 2.0), serialised objects and a full-link
  trace that the client keeps per connection and sends along with requests.  This development
  models these parts and the containers they use.

  \<^bold>\<open>Conventions.\<close>  A C function is a HOL function of its arguments and of the state it touches.
  \<open>None\<close> as the result of a function that touches memory means undefined behaviour (an access
  outside an object, a null or dangling pointer, a shift by the width or more) or, for a loop
  given by \<^theory_text>\<open>partial_function (option)\<close>, that it does not end.  A theorem that a function returns
  \<open>Some\<close> therefore says that it is safe and ends.  Machine integers are words of their width;
  positions and lengths that the code keeps in \<^verbatim>\<open>int64_t\<close> are \<open>int\<close>.  Return codes are the
  numbers of \<^verbatim>\<open>include/ma_global.h\<close>.  The allocator, the clock, the random seed and the content of
  uninitialised memory are parameters.

  \<^bold>\<open>Theories.\<close>
  \<^item> \<open>Prelude\<close>: bytes, buffers, little-endian words; the interfaces of writers, readers and codecs
    (locales \<open>byte_writer\<close>, \<open>byte_reader\<close>, \<open>codec\<close>), whose composition gives the round trips below.
  \<^item> \<open>MaGlobal\<close>: the byte-order macros of \<^verbatim>\<open>include/ma_global.h\<close>.
  \<^item> \<open>ObSerialize\<close>: \<^verbatim>\<open>libmariadb/ob_serialize.c\<close>.  Variable-length integers, fixed-width integers,
    floating-point values (as bit patterns) and strings.  Each pair of functions interprets the
    codec interface with a reference encoding; the length functions agree with it.
  \<^item> \<open>ObObject\<close>: \<^verbatim>\<open>libmariadb/ob_object.c\<close>.  Type tables, setters and getters, the table of functions
    per type.  The locale \<open>obj_entry\<close> is the contract of a table entry; all numeric entries and the
    string entry satisfy it, which gives the round trip of whole objects.
  \<^item> \<open>ObBitmap\<close>: \<^verbatim>\<open>libmariadb/ob_bitmap.c\<close>, refined by finite sets (locale \<open>bit_set\<close>).
  \<^item> \<open>MaList\<close>: \<^verbatim>\<open>libmariadb/ma_list.c\<close> on an explicit heap of nodes, refined by sequences of nodes
    (locale \<open>linked_stack\<close>).
  \<^item> \<open>FltCodec\<close>: the wire format of the full-link trace (\<^verbatim>\<open>libmariadb/ob_full_link_trace.c\<close>, first half).
    Items are type, length, value; six groups of items; a table of functions per group.  The
    locale \<open>field_reader\<close> is the contract of the field functions that the parsing loop calls.
  \<^item> \<open>FltTrace\<close>: the trace itself (second half of the same file): four spans and sixteen tags in
    one block, moved between free and current lists; text of spans, tags and identifiers.  The
    invariant \<open>trace_inv\<close> is kept by every operation.

  \<^item> \<open>FltInfo\<close>: the trace information of a connection, its start and its end.
  \<^item> \<open>ObCrc\<close>: the two check sums of protocol 2.0 (\<^verbatim>\<open>libmariadb/ob_protocol20.c\<close>, \<^verbatim>\<open>libmariadb/mariadb_stmt.c\<close>).  The locale
    \<open>crc_table\<close> is the contract of a table; both tables satisfy it, so both sums detect every changed byte.
  \<^item> \<open>ObProtocol20\<close>: \<^verbatim>\<open>libmariadb/ob_protocol20.c\<close>.  The header of a packet and the extra information in it, which the
    connection keeps in a linked list (\<open>MaList\<close>) and whose only known item carries the full-link trace (\<open>FltCodec\<close>).
  \<^item> \<open>ObCapability\<close>: the switches of a connection (\<^verbatim>\<open>determine_*\<close> and \<^verbatim>\<open>get_*\<close> of \<^verbatim>\<open>libmariadb/mariadb_stmt.c\<close>).
  \<^item> \<open>FltRequest\<close>: \<^verbatim>\<open>flt_build_request\<close>, the macros around a command and the functions for the application
    (\<^verbatim>\<open>libmariadb/ob_full_link_trace.c\<close>, \<^verbatim>\<open>include/ob_full_link_trace.h\<close>).  What a request carries is the bytes of the groups.
  \<^item> \<open>MaNet\<close>: \<^verbatim>\<open>libmariadb/ma_net.c\<close> and \<^verbatim>\<open>libmariadb/ma_compress.c\<close>.  Buffers, writing and reading of packets without and
    with compression and over protocol 2.0.  The transport, zlib and the allocator are the members of a record.
  \<^item> \<open>MaNetPlain\<close>: written messages are read back on a connection without compression.
  \<^item> \<open>MaNetEnvelope\<close>: the two formats that put the stream of messages into packets of their own.  The locale \<open>envelope\<close> is
    what the reader relies on, one packet fetched puts its payload behind what is there; compressed packets and
    packets of protocol 2.0 satisfy it, which gives that messages are read however they are cut into packets.
  \<^item> \<open>MaArray\<close>: \<^verbatim>\<open>libmariadb/ma_array.c\<close>, arrays that grow, refined by lists.
  \<^item> \<open>MaHash\<close>, \<open>MaHashSplit\<close>, \<open>MaHashDelete\<close>, \<open>MaHashIndex\<close>: \<^verbatim>\<open>libmariadb/ma_hash.c\<close>, linear hashing in one array of links.
    \<open>MaHash\<close> has the definitions, buckets and chains; \<open>MaHashSplit\<close> the split of a chain when a record is inserted;
    \<open>MaHashDelete\<close> search, unlinking and the merge of two chains.  In \<open>MaHashIndex\<close> the locale \<open>record_index\<close> is what a caller
    relies on, a bag of records with lookup by key, and the operations satisfy it.

  \<^bold>\<open>Bounds.\<close>  No fuel is used.  Round trips assume buffer lengths below 2 to the 31, because parts
  of the code copy positions into an \<^verbatim>\<open>int\<close>.

  \<^bold>\<open>Not modelled.\<close>  Sockets, TLS, zlib itself, threads, files and message tables are input and output
  or other libraries.  Most of the client library proper (\<^verbatim>\<open>mariadb_lib.c\<close>, \<^verbatim>\<open>mariadb_stmt.c\<close>), dynamic columns,
  the Oracle date formats, load balancing and the authentication plugins are not modelled yet.
\<close>

end
